theory Spec2Isabelle
  imports Complex_Main
begin

section \<open>Numbers, errors and arrays\<close>

text \<open>
  The solver is the class template \<open>Central2D<Physics, Limiter>\<close> of \<open>central2d.h\<close>,
  taken here at \<open>Physics = Shallow2D\<close> (\<open>shallow2d.h\<close>); the limiter is not part of the
  sources and stays a parameter \<open>limdiff\<close> of every definition that calls it.

  The C++ type \<open>real\<close> (\<open>float\<close>) is modelled by the exact reals: rounding is not
  modelled. The C++ type \<open>int\<close> is taken with 32 bits. The constructor computes the
  padded sizes and the size of the arrays in \<open>int\<close>, and the model wraps each of these
  results into the range of \<open>int\<close> (\<open>int32\<close>; signed overflow is undefined in C++, and
  wrapping is what the usual compilers produce). Once a solver is constructed, every
  index computed below is at most the size of its arrays, which is a value of \<open>int\<close>, so
  the indices are modelled by the unbounded integers.

  A computation of the source that leaves what this model describes is a value \<open>Inl e\<close>:
  \<^item> \<open>OutOfBounds\<close>: an element access of a \<open>std::vector\<close> outside its size (undefined
    behaviour in C++);
  \<^item> \<open>DivByZero\<close>, \<open>SqrtDomain\<close>: a division by zero, a square root of a negative number.
    IEEE arithmetic does not stop there, it goes on with an infinity or a NaN; the exact
    reals have neither, so the model ends the computation (the constructor is the
    exception: see \<open>Central2D\<close> below);
  \<^item> \<open>AssertFailed\<close>: a failed \<open>assert\<close> (the program aborts);
  \<^item> \<open>BadAlloc\<close>: a \<open>std::vector\<close> constructed with a negative \<open>int\<close> size, which
    converts to a size no allocation can provide (the constructor throws). An allocation
    of a size that is not negative is taken to succeed: the memory of the machine is
    not modelled.
\<close>

datatype error = OutOfBounds | DivByZero | SqrtDomain | AssertFailed | BadAlloc

type_synonym 'a result = "error + 'a"

definition rbind :: "'a result \<Rightarrow> ('a \<Rightarrow> 'b result) \<Rightarrow> 'b result" where
  "rbind m f = (case m of Inl e \<Rightarrow> Inl e | Inr x \<Rightarrow> f x)"

text \<open>\<open>xs[i]\<close> as an rvalue and \<open>xs[i] = x\<close>, for an \<open>int\<close> index.\<close>

definition rd :: "real list \<Rightarrow> int \<Rightarrow> real result" where
  "rd xs i = (if 0 \<le> i \<and> i < int (length xs) then Inr (xs ! nat i) else Inl OutOfBounds)"

definition wr :: "real list \<Rightarrow> int \<Rightarrow> real \<Rightarrow> real list result" where
  "wr xs i x = (if 0 \<le> i \<and> i < int (length xs) then Inr (xs[nat i := x]) else Inl OutOfBounds)"

text \<open>\<open>a / b\<close> in floating point, and \<open>sqrt\<close>.\<close>

definition fdiv :: "real \<Rightarrow> real \<Rightarrow> real result" where
  "fdiv a b = (if b = 0 then Inl DivByZero else Inr (a / b))"

definition fsqrt :: "real \<Rightarrow> real result" where
  "fsqrt a = (if a < 0 then Inl SqrtDomain else Inr (sqrt a))"

text \<open>The operator \<open>%\<close> of C++ on \<open>int\<close>: the remainder of the division that truncates
  towards zero, with the sign of the dividend.\<close>

definition c_rem :: "int \<Rightarrow> int \<Rightarrow> int" where
  "c_rem a b = sgn a * (\<bar>a\<bar> mod \<bar>b\<bar>)"

text \<open>\<open>for (int i = lo; i < hi; ++i) body\<close>, with bounds that the body does not change:
  the body runs at \<open>lo, lo + 1, ..., hi - 1\<close> and the loop stops at the first error.\<close>

fun for_loop :: "int list \<Rightarrow> (int \<Rightarrow> 's \<Rightarrow> 's result) \<Rightarrow> 's \<Rightarrow> 's result" where
  "for_loop [] body s = Inr s"
| "for_loop (i # is) body s =
     (case body i s of Inl e \<Rightarrow> Inl e | Inr s' \<Rightarrow> for_loop is body s')"

definition for_range :: "int \<Rightarrow> int \<Rightarrow> (int \<Rightarrow> 's \<Rightarrow> 's result) \<Rightarrow> 's \<Rightarrow> 's result" where
  "for_range lo hi body s = for_loop [lo..hi - 1] body s"

section \<open>The solver object\<close>

definition nghost :: int where
  "nghost = 3"

definition nfield :: int where
  "nfield = 3"

record central2d =
  nx :: int
  ny :: int
  nx_all :: int
  ny_all :: int
  dx :: real
  dy :: real
  cfl :: real
  u_vec :: "real list"
  f_vec :: "real list"
  g_vec :: "real list"
  ux_vec :: "real list"
  uy_vec :: "real list"
  fx_vec :: "real list"
  gy_vec :: "real list"
  v_vec :: "real list"

text \<open>
  The value of an \<open>int\<close> expression whose exact value is \<open>x\<close>: \<open>x\<close> wrapped into
  \<open>-2^31 .. 2^31 - 1\<close>.
\<close>

definition int32 :: "int \<Rightarrow> int" where
  "int32 x = (x + 2 ^ 31) mod 2 ^ 32 - 2 ^ 31"

text \<open>
  The quotient \<open>w/nx\<close> of a \<open>real\<close> by an \<open>int\<close> count, as the constructor computes it
  for \<open>dx\<close> and \<open>dy\<close>: a division by a zero count does not stop the construction, it
  gives an infinity of the sign of the dividend, or a NaN for \<open>0/0\<close>.
\<close>

datatype quotient = Finite real | PosInf | NegInf | NaN

definition fquot :: "real \<Rightarrow> int \<Rightarrow> quotient" where
  "fquot x n =
     (if n \<noteq> 0 then Finite (x / of_int n)
      else if 0 < x then PosInf else if x < 0 then NegInf else NaN)"

text \<open>
  What the constructor returns is a solver whose cell sizes are numbers, or an object
  whose \<open>dx\<close> or \<open>dy\<close> is an infinity or a NaN (a cell count was zero). The methods are
  modelled on the first kind only; of the second kind the model keeps the members and
  the size of the eight arrays.
\<close>

record unsized =
  q_nx :: int
  q_ny :: int
  q_nx_all :: int
  q_ny_all :: int
  q_dx :: quotient
  q_dy :: quotient
  q_cfl :: real
  q_size :: nat

datatype built = Solver central2d | Unsized unsized

text \<open>
  The constructor. The members are initialised in the order of their declaration:
  \<open>nx, ny\<close>, then \<open>nx_all(nx + 2*nghost), ny_all(ny + 2*nghost)\<close>, then \<open>dx(w/nx), dy(h/ny)\<close>
  and \<open>cfl\<close>, then the eight vectors, each of \<open>nfield * nx_all * ny_all\<close> zeros, a product
  of \<open>int\<close> taken from the left (\<open>array_size\<close>). There is no check of any argument; the
  construction of a vector throws when that size is negative.
\<close>

definition array_size :: "int \<Rightarrow> int \<Rightarrow> int" where
  "array_size nx0 ny0 =
     int32 (int32 (nfield * int32 (nx0 + 2 * nghost)) * int32 (ny0 + 2 * nghost))"

definition Central2D :: "real \<Rightarrow> real \<Rightarrow> int \<Rightarrow> int \<Rightarrow> real \<Rightarrow> built result" where
  "Central2D w h nx0 ny0 cfl0 =
     (let nxa = int32 (nx0 + 2 * nghost);
          nya = int32 (ny0 + 2 * nghost);
          n = array_size nx0 ny0
      in if n < 0 then Inl BadAlloc
         else (case (fquot w nx0, fquot h ny0) of
                 (Finite dx0, Finite dy0) \<Rightarrow>
                   Inr (Solver \<lparr> nx = nx0, ny = ny0, nx_all = nxa, ny_all = nya,
                          dx = dx0, dy = dy0, cfl = cfl0,
                          u_vec = replicate (nat n) 0, f_vec = replicate (nat n) 0,
                          g_vec = replicate (nat n) 0, ux_vec = replicate (nat n) 0,
                          uy_vec = replicate (nat n) 0, fx_vec = replicate (nat n) 0,
                          gy_vec = replicate (nat n) 0, v_vec = replicate (nat n) 0 \<rparr>)
               | (qx, qy) \<Rightarrow>
                   Inr (Unsized \<lparr> q_nx = nx0, q_ny = ny0, q_nx_all = nxa, q_ny_all = nya,
                          q_dx = qx, q_dy = qy, q_cfl = cfl0, q_size = nat n \<rparr>)))"

text \<open>\<open>offset\<close>, and the wrapped \<open>ioffset\<close> of the periodic boundary.\<close>

definition offset :: "central2d \<Rightarrow> int \<Rightarrow> int \<Rightarrow> int \<Rightarrow> int" where
  "offset s k ix iy = (k * ny_all s + iy) * nx_all s + ix"

definition ioffset :: "central2d \<Rightarrow> int \<Rightarrow> int \<Rightarrow> int \<Rightarrow> int" where
  "ioffset s k ix iy =
     offset s k (c_rem (ix + nx s - nghost) (nx s) + nghost)
                (c_rem (iy + ny s - nghost) (ny s) + nghost)"

definition wf :: "central2d \<Rightarrow> bool" where
  \<comment> \<open>what the constructor establishes for positive cell counts whose sizes do not overflow\<close>
  "wf s \<longleftrightarrow>
     0 < nx s \<and> 0 < ny s
     \<and> nx_all s = nx s + 2 * nghost \<and> ny_all s = ny s + 2 * nghost
     \<and> int (length (u_vec s)) = nfield * nx_all s * ny_all s
     \<and> int (length (f_vec s)) = nfield * nx_all s * ny_all s
     \<and> int (length (g_vec s)) = nfield * nx_all s * ny_all s
     \<and> int (length (ux_vec s)) = nfield * nx_all s * ny_all s
     \<and> int (length (uy_vec s)) = nfield * nx_all s * ny_all s
     \<and> int (length (fx_vec s)) = nfield * nx_all s * ny_all s
     \<and> int (length (gy_vec s)) = nfield * nx_all s * ny_all s
     \<and> int (length (v_vec s)) = nfield * nx_all s * ny_all s"

text \<open>The element of an array at an \<open>int\<close> index, for the statements below.\<close>

definition el :: "real list \<Rightarrow> int \<Rightarrow> real" where
  "el xs i = xs ! nat i"

section \<open>The physics: \<open>Shallow2D\<close>\<close>

definition Shallow2D_g :: real where
  "Shallow2D_g = 98 / 10"

text \<open>\<open>std::copy(src, src + n, dst)\<close> on pointers into two different arrays; a pointer is
  an array and an index into it.\<close>

definition copy_cells :: "real list \<Rightarrow> int \<Rightarrow> int \<Rightarrow> real list \<Rightarrow> int \<Rightarrow> real list result" where
  "copy_cells src sb n dst db =
     for_range 0 n (\<lambda>i d. rbind (rd src (sb + i)) (\<lambda>x. wr d (db + i) x)) dst"

text \<open>The body of the loop of \<open>Shallow2D::flux\<close> at cell \<open>i\<close>: \<open>FU, GU, U\<close> are the
  arrays the three pointers point into and \<open>fb, gb, ub\<close> the indices they point at.\<close>

definition flux_cell ::
  "int \<Rightarrow> int \<Rightarrow> real list \<Rightarrow> int \<Rightarrow> int \<Rightarrow> int \<Rightarrow> real list \<times> real list
     \<Rightarrow> (real list \<times> real list) result" where
  "flux_cell fb gb U ub field_stride i FG =
     (case FG of (FU, GU) \<Rightarrow>
      rbind (rd U (ub + i)) (\<lambda>hi.
      rbind (rd U (ub + field_stride + i)) (\<lambda>hui.
      rbind (rd U (ub + 2 * field_stride + i)) (\<lambda>hvi.
      rbind (fdiv 1 hi) (\<lambda>inv_h.
      rbind (wr FU (fb + field_stride + i)
               (hui * hui * inv_h + (0.5 * Shallow2D_g) * hi * hi)) (\<lambda>FU1.
      rbind (wr FU1 (fb + 2 * field_stride + i) (hui * hvi * inv_h)) (\<lambda>FU2.
      rbind (wr GU (gb + field_stride + i) (hui * hvi * inv_h)) (\<lambda>GU1.
      rbind (wr GU1 (gb + 2 * field_stride + i)
               (hvi * hvi * inv_h + (0.5 * Shallow2D_g) * hi * hi)) (\<lambda>GU2.
      Inr (FU2, GU2))))))))))"

definition Shallow2D_flux ::
  "real list \<Rightarrow> int \<Rightarrow> real list \<Rightarrow> int \<Rightarrow> real list \<Rightarrow> int \<Rightarrow> int \<Rightarrow> int
     \<Rightarrow> (real list \<times> real list) result" where
  "Shallow2D_flux FU fb GU gb U ub ncell field_stride =
     rbind (copy_cells U (ub + field_stride) ncell FU fb) (\<lambda>FU0.
     rbind (copy_cells U (ub + 2 * field_stride) ncell GU gb) (\<lambda>GU0.
     for_range 0 ncell (flux_cell fb gb U ub field_stride) (FU0, GU0)))"

definition wave_speed_cell ::
  "real list \<Rightarrow> int \<Rightarrow> int \<Rightarrow> int \<Rightarrow> real \<times> real \<Rightarrow> (real \<times> real) result" where
  "wave_speed_cell U ub field_stride i c =
     (case c of (cx, cy) \<Rightarrow>
      rbind (rd U (ub + i)) (\<lambda>hi.
      rbind (rd U (ub + field_stride + i)) (\<lambda>hui.
      rbind (rd U (ub + 2 * field_stride + i)) (\<lambda>hvi.
      rbind (fsqrt (Shallow2D_g * hi)) (\<lambda>root_gh.
      rbind (fdiv hui hi) (\<lambda>qx.
      rbind (fdiv hvi hi) (\<lambda>qy.
      Inr (max cx (\<bar>qx\<bar> + root_gh), max cy (\<bar>qy\<bar> + root_gh)))))))))"

definition Shallow2D_wave_speed ::
  "real \<times> real \<Rightarrow> real list \<Rightarrow> int \<Rightarrow> int \<Rightarrow> int \<Rightarrow> (real \<times> real) result" where
  "Shallow2D_wave_speed cxy U ub ncell field_stride =
     for_range 0 ncell (wave_speed_cell U ub field_stride) cxy"

section \<open>The stages of a half-step\<close>

text \<open>\<open>compute_fg_speeds\<close>: the fluxes of the whole padded grid, and the two wave speeds
  (the out-parameter \<open>cxy\<close>), seeded with \<open>1.0e-15\<close>.\<close>

definition compute_fg_speeds :: "central2d \<Rightarrow> (central2d \<times> real \<times> real) result" where
  "compute_fg_speeds s =
     rbind (Shallow2D_flux (f_vec s) 0 (g_vec s) 0 (u_vec s) 0
              (nx_all s * ny_all s) (nx_all s * ny_all s)) (\<lambda>FG.
     rbind (Shallow2D_wave_speed (1 / 10 ^ 15, 1 / 10 ^ 15) (u_vec s) 0
              (nx_all s * ny_all s) (nx_all s * ny_all s)) (\<lambda>cxy.
     Inr (s\<lparr>f_vec := fst FG, g_vec := snd FG\<rparr>, cxy)))"

text \<open>What \<open>Shallow2D::flux\<close> leaves in \<open>FU\<close> and \<open>GU\<close> for cell \<open>i\<close> of the run,
  and what it leaves alone.\<close>

definition flux_values ::
  "real list \<Rightarrow> real list \<Rightarrow> int \<Rightarrow> int \<Rightarrow> real list \<Rightarrow> int \<Rightarrow> int \<Rightarrow> int \<Rightarrow> bool" where
  "flux_values F G fb gb U ub st i \<longleftrightarrow>
     (let h = el U (ub + i); hu = el U (ub + st + i); hv = el U (ub + 2 * st + i)
      in el F (fb + i) = hu
       \<and> el F (fb + st + i) = hu * hu * (1 / h) + (0.5 * Shallow2D_g) * h * h
       \<and> el F (fb + 2 * st + i) = hu * hv * (1 / h)
       \<and> el G (gb + i) = hv
       \<and> el G (gb + st + i) = hu * hv * (1 / h)
       \<and> el G (gb + 2 * st + i) = hv * hv * (1 / h) + (0.5 * Shallow2D_g) * h * h)"

definition flux_frame :: "real list \<Rightarrow> real list \<Rightarrow> int \<Rightarrow> int \<Rightarrow> int \<Rightarrow> bool" where
  "flux_frame F FU fb st n \<longleftrightarrow>
     length F = length FU
     \<and> (\<forall>j. 0 \<le> j \<and> \<not> (fb \<le> j \<and> j < fb + n) \<and> \<not> (fb + st \<le> j \<and> j < fb + st + n)
              \<and> \<not> (fb + 2 * st \<le> j \<and> j < fb + 2 * st + n) \<longrightarrow> el F j = el FU j)"

text \<open>\<open>apply_periodic\<close>. The statement \<open>u(k,ix,iy) = uwrap(k,ix,iy)\<close> first.\<close>

definition periodic_cell :: "int \<Rightarrow> int \<Rightarrow> int \<Rightarrow> central2d \<Rightarrow> central2d result" where
  "periodic_cell k ix iy s =
     rbind (rd (u_vec s) (ioffset s k ix iy)) (\<lambda>x.
     rbind (wr (u_vec s) (offset s k ix iy) x) (\<lambda>U.
     Inr (s\<lparr>u_vec := U\<rparr>)))"

definition apply_periodic :: "central2d \<Rightarrow> central2d result" where
  "apply_periodic s0 =
     for_range 0 nfield (\<lambda>k s.
       rbind (for_range 0 (ny_all s) (\<lambda>iy.
                for_range 0 nghost (\<lambda>ix s.
                  rbind (periodic_cell k ix iy s)
                        (periodic_cell k (nx s + nghost + ix) iy))) s)
             (for_range 0 nghost (\<lambda>iy s.
                for_range 0 (nx_all s) (\<lambda>ix s.
                  rbind (periodic_cell k ix iy s)
                        (periodic_cell k ix (ny s + nghost + iy))) s))) s0"

text \<open>\<open>limited_derivs\<close>: one loop over flat indices. \<open>limdiff\<close> is \<open>Limiter::limdiff\<close>.\<close>

definition limited_derivs_cell ::
  "(real \<Rightarrow> real \<Rightarrow> real \<Rightarrow> real) \<Rightarrow> int \<Rightarrow> central2d \<Rightarrow> central2d result" where
  "limited_derivs_cell limdiff i s =
     rbind (rd (u_vec s) (i - 1)) (\<lambda>um.
     rbind (rd (u_vec s) i) (\<lambda>u0.
     rbind (rd (u_vec s) (i + 1)) (\<lambda>up.
     rbind (wr (ux_vec s) i (limdiff um u0 up)) (\<lambda>UX.
     rbind (rd (f_vec s) (i - 1)) (\<lambda>fm.
     rbind (rd (f_vec s) i) (\<lambda>f0.
     rbind (rd (f_vec s) (i + 1)) (\<lambda>fp.
     rbind (wr (fx_vec s) i (limdiff fm f0 fp)) (\<lambda>FX.
     rbind (rd (u_vec s) (i - nx_all s)) (\<lambda>ub.
     rbind (rd (u_vec s) i) (\<lambda>uc.
     rbind (rd (u_vec s) (i + nx_all s)) (\<lambda>ua.
     rbind (wr (uy_vec s) i (limdiff ub uc ua)) (\<lambda>UY.
     rbind (rd (g_vec s) (i - nx_all s)) (\<lambda>gb.
     rbind (rd (g_vec s) i) (\<lambda>gc.
     rbind (rd (g_vec s) (i + nx_all s)) (\<lambda>ga.
     rbind (wr (gy_vec s) i (limdiff gb gc ga)) (\<lambda>GY.
     Inr (s\<lparr>ux_vec := UX, fx_vec := FX, uy_vec := UY, gy_vec := GY\<rparr>)))))))))))))))))"

definition limited_derivs ::
  "(real \<Rightarrow> real \<Rightarrow> real \<Rightarrow> real) \<Rightarrow> central2d \<Rightarrow> central2d result" where
  "limited_derivs limdiff s =
     (let hi = nfield * (ny_all s - 1) * nx_all s
      in for_range (ny_all s) hi (limited_derivs_cell limdiff) s)"

text \<open>\<open>compute_step\<close>, loop by loop: the predictor, the fluxes at the half step, the
  corrector, and the copy back.\<close>

definition predictor_cell :: "real \<Rightarrow> real \<Rightarrow> int \<Rightarrow> int \<Rightarrow> int \<Rightarrow> central2d \<Rightarrow> central2d result" where
  "predictor_cell dtcdx2 dtcdy2 iy ix k s =
     rbind (rd (u_vec s) (offset s k ix iy)) (\<lambda>uv.
     rbind (rd (fx_vec s) (offset s k ix iy)) (\<lambda>fxv.
     rbind (rd (gy_vec s) (offset s k ix iy)) (\<lambda>gyv.
     rbind (wr (v_vec s) (offset s k ix iy) (uv - dtcdx2 * fxv - dtcdy2 * gyv)) (\<lambda>V.
     Inr (s\<lparr>v_vec := V\<rparr>)))))"

definition predictor :: "real \<Rightarrow> real \<Rightarrow> central2d \<Rightarrow> central2d result" where
  "predictor dtcdx2 dtcdy2 s0 =
     for_range 1 (ny_all s0 - 1) (\<lambda>iy s.
       for_range 1 (nx_all s - 1) (\<lambda>ix s.
         for_range 0 nfield (predictor_cell dtcdx2 dtcdy2 iy ix) s) s) s0"

definition half_step_flux_row :: "int \<Rightarrow> central2d \<Rightarrow> central2d result" where
  "half_step_flux_row iy s =
     (let jj = offset s 0 1 iy
      in rbind (Shallow2D_flux (f_vec s) jj (g_vec s) jj (v_vec s) jj
                  (nx_all s - 2) (nx_all s * ny_all s)) (\<lambda>FG.
         Inr (s\<lparr>f_vec := fst FG, g_vec := snd FG\<rparr>)))"

definition half_step_flux :: "central2d \<Rightarrow> central2d result" where
  "half_step_flux s0 = for_range 1 (ny_all s0 - 1) half_step_flux_row s0"

definition corrector_cell :: "real \<Rightarrow> real \<Rightarrow> int \<Rightarrow> int \<Rightarrow> int \<Rightarrow> central2d \<Rightarrow> central2d result" where
  "corrector_cell dtcdx2 dtcdy2 iy ix m s =
     rbind (rd (u_vec s) (offset s m ix iy)) (\<lambda>u00.
     rbind (rd (u_vec s) (offset s m (ix + 1) iy)) (\<lambda>u10.
     rbind (rd (u_vec s) (offset s m ix (iy + 1))) (\<lambda>u01.
     rbind (rd (u_vec s) (offset s m (ix + 1) (iy + 1))) (\<lambda>u11.
     rbind (rd (ux_vec s) (offset s m (ix + 1) iy)) (\<lambda>ux10.
     rbind (rd (ux_vec s) (offset s m ix iy)) (\<lambda>ux00.
     rbind (rd (ux_vec s) (offset s m (ix + 1) (iy + 1))) (\<lambda>ux11.
     rbind (rd (ux_vec s) (offset s m ix (iy + 1))) (\<lambda>ux01.
     rbind (rd (uy_vec s) (offset s m ix (iy + 1))) (\<lambda>uy01.
     rbind (rd (uy_vec s) (offset s m ix iy)) (\<lambda>uy00.
     rbind (rd (uy_vec s) (offset s m (ix + 1) (iy + 1))) (\<lambda>uy11.
     rbind (rd (uy_vec s) (offset s m (ix + 1) iy)) (\<lambda>uy10.
     rbind (rd (f_vec s) (offset s m (ix + 1) iy)) (\<lambda>f10.
     rbind (rd (f_vec s) (offset s m ix iy)) (\<lambda>f00.
     rbind (rd (f_vec s) (offset s m (ix + 1) (iy + 1))) (\<lambda>f11.
     rbind (rd (f_vec s) (offset s m ix (iy + 1))) (\<lambda>f01.
     rbind (rd (g_vec s) (offset s m ix (iy + 1))) (\<lambda>g01.
     rbind (rd (g_vec s) (offset s m ix iy)) (\<lambda>g00.
     rbind (rd (g_vec s) (offset s m (ix + 1) (iy + 1))) (\<lambda>g11.
     rbind (rd (g_vec s) (offset s m (ix + 1) iy)) (\<lambda>g10.
     rbind (wr (v_vec s) (offset s m ix iy)
              (0.2500 * (u00 + u10 + u01 + u11)
               - 0.0625 * (ux10 - ux00 + ux11 - ux01 + uy01 - uy00 + uy11 - uy10)
               - dtcdx2 * (f10 - f00 + f11 - f01)
               - dtcdy2 * (g01 - g00 + g11 - g10))) (\<lambda>V.
     Inr (s\<lparr>v_vec := V\<rparr>))))))))))))))))))))))"

definition corrector :: "int \<Rightarrow> real \<Rightarrow> real \<Rightarrow> central2d \<Rightarrow> central2d result" where
  "corrector io dtcdx2 dtcdy2 s0 =
     for_range (nghost - io) (ny s0 + nghost - io) (\<lambda>iy s.
       for_range (nghost - io) (nx s + nghost - io) (\<lambda>ix s.
         for_range 0 nfield (corrector_cell dtcdx2 dtcdy2 iy ix) s) s) s0"

text \<open>The \<open>memcpy\<close> of \<open>ny * nx_all\<close> elements per field, from \<open>&v(k,nghost-io,nghost-io)\<close> to
  \<open>&u(k,nghost,nghost)\<close>.\<close>

definition copy_back :: "int \<Rightarrow> central2d \<Rightarrow> central2d result" where
  "copy_back io s0 =
     for_range 0 nfield (\<lambda>k s.
       rbind (copy_cells (v_vec s) (offset s k (nghost - io) (nghost - io)) (ny s * nx_all s)
                (u_vec s) (offset s k nghost nghost)) (\<lambda>U.
       Inr (s\<lparr>u_vec := U\<rparr>))) s0"

definition compute_step :: "int \<Rightarrow> real \<Rightarrow> central2d \<Rightarrow> central2d result" where
  "compute_step io dt s =
     rbind (fdiv (0.5 * dt) (dx s)) (\<lambda>dtcdx2.
     rbind (fdiv (0.5 * dt) (dy s)) (\<lambda>dtcdy2.
     rbind (predictor dtcdx2 dtcdy2 s) (\<lambda>s1.
     rbind (half_step_flux s1) (\<lambda>s2.
     rbind (corrector io dtcdx2 dtcdy2 s2) (\<lambda>s3.
     copy_back io s3)))))"

section \<open>The time loop\<close>

text \<open>
  The variables of \<open>run\<close>: \<open>done\<close>, \<open>t\<close>, \<open>dt\<close> and the solver. \<open>steps\<close> and \<open>measured\<close>
  are not variables of the source. \<open>steps\<close> records, in order, the arguments \<open>(io, dt)\<close> of
  every call of \<open>compute_step\<close>, and \<open>measured\<close> records, in order, the parity \<open>io\<close> of every
  call of \<open>compute_fg_speeds\<close> with the wave speeds \<open>cxy[0], cxy[1]\<close> it returned, so that
  the claims about the sequence of half-steps and of measurements can be stated.
\<close>

record run_state =
  finished :: bool
  t :: real
  dt :: real
  sim :: central2d
  steps :: "(int \<times> real) list"
  measured :: "(int \<times> real \<times> real) list"

text \<open>The choice of \<open>dt\<close> at \<open>io == 0\<close>, from the wave speeds \<open>cxy\<close>.\<close>

definition choose_dt :: "real \<Rightarrow> real \<times> real \<Rightarrow> run_state \<Rightarrow> (real \<times> bool) result" where
  "choose_dt tfinal cxy r =
     rbind (fdiv (fst cxy) (dx (sim r))) (\<lambda>a.
     rbind (fdiv (snd cxy) (dy (sim r))) (\<lambda>b.
     rbind (fdiv (cfl (sim r)) (max a b)) (\<lambda>dt0.
     if t r + 2 * dt0 \<ge> tfinal then Inr ((tfinal - t r) / 2, True)
     else Inr (dt0, finished r))))"

text \<open>The body of \<open>for (int io = 0; io < 2; ++io)\<close>.\<close>

definition run_half_step ::
  "(real \<Rightarrow> real \<Rightarrow> real \<Rightarrow> real) \<Rightarrow> real \<Rightarrow> int \<Rightarrow> run_state \<Rightarrow> run_state result" where
  "run_half_step limdiff tfinal io r =
     rbind (apply_periodic (sim r)) (\<lambda>s1.
     rbind (compute_fg_speeds s1) (\<lambda>sc.
     rbind (limited_derivs limdiff (fst sc)) (\<lambda>s3.
     rbind (if io = 0 then choose_dt tfinal (snd sc) r else Inr (dt r, finished r)) (\<lambda>dd.
     rbind (compute_step io (fst dd) s3) (\<lambda>s4.
     Inr (r\<lparr>finished := snd dd, t := t r + fst dd, dt := fst dd, sim := s4,
             steps := steps r @ [(io, fst dd)],
             measured := measured r @ [(io, snd sc)]\<rparr>))))))"

definition macro_step ::
  "(real \<Rightarrow> real \<Rightarrow> real \<Rightarrow> real) \<Rightarrow> real \<Rightarrow> run_state \<Rightarrow> run_state result" where
  "macro_step limdiff tfinal r = for_range 0 2 (run_half_step limdiff tfinal) r"

text \<open>\<open>while (!done)\<close>: the loop may not end, so it runs on fuel, one unit for each
  turn; \<open>None\<close> is a loop that has not ended when the fuel has.\<close>

fun run_loop ::
  "nat \<Rightarrow> (real \<Rightarrow> real \<Rightarrow> real \<Rightarrow> real) \<Rightarrow> real \<Rightarrow> run_state \<Rightarrow> run_state result option" where
  "run_loop n limdiff tfinal r =
     (if finished r then Some (Inr r)
      else case n of
             0 \<Rightarrow> None
           | Suc m \<Rightarrow> (case macro_step limdiff tfinal r of
                         Inl e \<Rightarrow> Some (Inl e)
                       | Inr r' \<Rightarrow> run_loop m limdiff tfinal r'))"

text \<open>\<open>run\<close>: \<open>done = false\<close>, \<open>t = 0\<close>, and \<open>dt\<close> not yet assigned (it is assigned at
  \<open>io == 0\<close> before its first use; the model starts it at \<open>0\<close>).\<close>

definition run ::
  "nat \<Rightarrow> (real \<Rightarrow> real \<Rightarrow> real \<Rightarrow> real) \<Rightarrow> real \<Rightarrow> central2d \<Rightarrow> run_state result option" where
  "run fuel limdiff tfinal s =
     run_loop fuel limdiff tfinal
       \<lparr>finished = False, t = 0, dt = 0, sim = s, steps = [], measured = []\<rparr>"

section \<open>Diagnostics\<close>

text \<open>The values \<open>solution_check\<close> prints: the volume, the two momenta, and the range of
  the height.\<close>

record report =
  volume :: real
  momentum_x :: real
  momentum_y :: real
  range_lo :: real
  range_hi :: real

record check_state =
  h_sum :: real
  hu_sum :: real
  hv_sum :: real
  hmin :: real
  hmax :: real

definition solution_check_cell :: "central2d \<Rightarrow> int \<Rightarrow> int \<Rightarrow> check_state \<Rightarrow> check_state result" where
  "solution_check_cell s j i c =
     rbind (rd (u_vec s) (offset s 0 i j)) (\<lambda>h.
     rbind (rd (u_vec s) (offset s 1 i j)) (\<lambda>hu.
     rbind (rd (u_vec s) (offset s 2 i j)) (\<lambda>hv.
     (let c' = \<lparr> h_sum = h_sum c + h, hu_sum = hu_sum c + hu, hv_sum = hv_sum c + hv,
                  hmin = min h (hmin c), hmax = max h (hmax c) \<rparr>
      in if h > 0 then Inr c' else Inl AssertFailed))))"

definition solution_check :: "central2d \<Rightarrow> report result" where
  "solution_check s =
     rbind (rd (u_vec s) (offset s 0 nghost nghost)) (\<lambda>h0.
     rbind (for_range nghost (ny s + nghost) (\<lambda>j.
              for_range nghost (nx s + nghost) (solution_check_cell s j))
              \<lparr> h_sum = 0, hu_sum = 0, hv_sum = 0, hmin = h0, hmax = h0 \<rparr>) (\<lambda>c.
     (let cell_area = dx s * dy s
      in Inr \<lparr> volume = h_sum c * cell_area, momentum_x = hu_sum c * cell_area,
                momentum_y = hv_sum c * cell_area,
                range_lo = hmin c, range_hi = hmax c \<rparr>)))"

section \<open>States for the examples\<close>

text \<open>Still water of height \<open>h0\<close> on a unit square of \<open>nx0\<close> by \<open>ny0\<close> cells: the height
  field is \<open>h0\<close> at every padded cell, everything else is zero.\<close>

definition flat_state :: "int \<Rightarrow> int \<Rightarrow> real \<Rightarrow> central2d" where
  "flat_state nx0 ny0 h0 =
     (let n = nat ((nx0 + 6) * (ny0 + 6))
      in \<lparr> nx = nx0, ny = ny0, nx_all = nx0 + 6, ny_all = ny0 + 6,
           dx = 1 / of_int nx0, dy = 1 / of_int ny0, cfl = 45 / 100,
           u_vec = replicate n h0 @ replicate (2 * n) 0,
           f_vec = replicate (3 * n) 0, g_vec = replicate (3 * n) 0,
           ux_vec = replicate (3 * n) 0, uy_vec = replicate (3 * n) 0,
           fx_vec = replicate (3 * n) 0, gy_vec = replicate (3 * n) 0,
           v_vec = replicate (3 * n) 0 \<rparr>)"

text \<open>A solver of \<open>nx0\<close> by \<open>ny0\<close> cells whose state array holds its own indices,
  \<open>u_[i] = i\<close>, so that every cell can be told from every other.\<close>

definition index_state :: "int \<Rightarrow> int \<Rightarrow> central2d" where
  "index_state nx0 ny0 =
     (let n = nat ((nx0 + 6) * (ny0 + 6))
      in \<lparr> nx = nx0, ny = ny0, nx_all = nx0 + 6, ny_all = ny0 + 6,
           dx = 1 / of_int nx0, dy = 1 / of_int ny0, cfl = 45 / 100,
           u_vec = map of_nat [0..<3 * n],
           f_vec = replicate (3 * n) 0, g_vec = replicate (3 * n) 0,
           ux_vec = replicate (3 * n) 0, uy_vec = replicate (3 * n) 0,
           fx_vec = replicate (3 * n) 0, gy_vec = replicate (3 * n) 0,
           v_vec = replicate (3 * n) 0 \<rparr>)"

definition canon :: "int \<Rightarrow> int \<Rightarrow> int" where
  "canon n c = (c - nghost + n) mod n + nghost"

text \<open>Interior and padded coordinates, and the canonical cell of the spec:
  \<open>((c - G + N) mod N) + G\<close>, with the modulus of mathematics.\<close>

definition interior :: "central2d \<Rightarrow> int \<Rightarrow> int \<Rightarrow> bool" where
  "interior s ix iy \<longleftrightarrow>
     nghost \<le> ix \<and> ix < nx s + nghost \<and> nghost \<le> iy \<and> iy < ny s + nghost"

definition padded :: "central2d \<Rightarrow> int \<Rightarrow> int \<Rightarrow> int \<Rightarrow> bool" where
  "padded s k ix iy \<longleftrightarrow>
     0 \<le> k \<and> k < nfield \<and> 0 \<le> ix \<and> ix < nx_all s \<and> 0 \<le> iy \<and> iy < ny_all s"

text \<open>The invariant of the loops of \<open>apply_periodic\<close>: only the state array has changed,
  interior cells have their first value, and every cell of \<open>S\<close> has the first value of its
  canonical cell.\<close>

definition periodic_inv :: "central2d \<Rightarrow> (int \<times> int \<times> int) set \<Rightarrow> central2d \<Rightarrow> bool" where
  "periodic_inv s0 S s \<longleftrightarrow>
     (\<exists>U. s = s0\<lparr>u_vec := U\<rparr> \<and> length U = length (u_vec s0)
        \<and> (\<forall>k ix iy. padded s0 k ix iy \<and> interior s0 ix iy
              \<longrightarrow> el U (offset s0 k ix iy) = el (u_vec s0) (offset s0 k ix iy))
        \<and> (\<forall>c\<in>S. case c of (k, ix, iy) \<Rightarrow> padded s0 k ix iy
              \<and> el U (offset s0 k ix iy)
                  = el (u_vec s0) (offset s0 k (canon (nx s0) ix) (canon (ny s0) iy))))"

text \<open>The cells written by one iteration of the two inner loops of \<open>apply_periodic\<close>, and
  by the loops of one field.\<close>

definition cols_written :: "central2d \<Rightarrow> int \<Rightarrow> int \<Rightarrow> int \<Rightarrow> (int \<times> int \<times> int) set" where
  "cols_written s0 k iy ix = {(k, ix, iy), (k, nx s0 + nghost + ix, iy)}"

definition rows_written :: "central2d \<Rightarrow> int \<Rightarrow> int \<Rightarrow> int \<Rightarrow> (int \<times> int \<times> int) set" where
  "rows_written s0 k iy ix = {(k, ix, iy), (k, ix, ny s0 + nghost + iy)}"

definition field_written :: "central2d \<Rightarrow> int \<Rightarrow> (int \<times> int \<times> int) set" where
  "field_written s0 k =
     (\<Union>iy\<in>{0..<ny_all s0}. \<Union>ix\<in>{0..<nghost}. cols_written s0 k iy ix)
     \<union> (\<Union>iy\<in>{0..<nghost}. \<Union>ix\<in>{0..<nx_all s0}. rows_written s0 k iy ix)"

text \<open>On the grid of 2 by 1 cells: only the state array has changed, and the flat
  indices 24, 26 and 28 (the cells \<open>(0,3)\<close>, \<open>(2,3)\<close> and \<open>(4,3)\<close> of the height) hold
  \<open>a\<close>, \<open>b\<close> and \<open>c\<close>.\<close>

definition holds3 :: "central2d \<Rightarrow> real \<Rightarrow> real \<Rightarrow> real \<Rightarrow> central2d \<Rightarrow> bool" where
  "holds3 s0 a b c s \<longleftrightarrow>
     (\<exists>U. s = s0\<lparr>u_vec := U\<rparr> \<and> length U = length (u_vec s0)
        \<and> el U 24 = a \<and> el U 26 = b \<and> el U 28 = c)"

text \<open>A solver of 2 by 1 cells as constructed (all zeros), with the height of its two
  interior cells set to \<open>1\<close> through the accessor.\<close>

definition dam_2x1 :: central2d where
  "dam_2x1 = (flat_state 2 1 0)\<lparr>u_vec := (replicate 168 0)[27 := 1, 28 := 1]\<rparr>"

text \<open>\<open>u(k,ix,iy)\<close> as a value, the interior cells, and the cells that \<open>solution_check\<close>
  has read before it reads \<open>(i, j)\<close>; its invariant: the sums, minimum and maximum over
  the cells read so far.\<close>

definition ucell :: "central2d \<Rightarrow> int \<Rightarrow> int \<Rightarrow> int \<Rightarrow> real" where
  "ucell s k ix iy = el (u_vec s) (offset s k ix iy)"

definition interior_cells :: "central2d \<Rightarrow> (int \<times> int) set" where
  "interior_cells s = {nghost..<nx s + nghost} \<times> {nghost..<ny s + nghost}"

definition cells_before :: "central2d \<Rightarrow> int \<Rightarrow> int \<Rightarrow> (int \<times> int) set" where
  "cells_before s j i =
     {nghost..<nx s + nghost} \<times> {nghost..<j} \<union> {nghost..<i} \<times> {j}"

definition check_inv :: "central2d \<Rightarrow> (int \<times> int) set \<Rightarrow> check_state \<Rightarrow> bool" where
  "check_inv s P c \<longleftrightarrow>
     h_sum c = (\<Sum>(i, j)\<in>P. ucell s 0 i j)
     \<and> hu_sum c = (\<Sum>(i, j)\<in>P. ucell s 1 i j)
     \<and> hv_sum c = (\<Sum>(i, j)\<in>P. ucell s 2 i j)
     \<and> hmin c = Min (insert (ucell s 0 nghost nghost) ((\<lambda>(i, j). ucell s 0 i j) ` P))
     \<and> hmax c = Max (insert (ucell s 0 nghost nghost) ((\<lambda>(i, j). ucell s 0 i j) ` P))"

text \<open>The invariant of a loop that writes the scratch array cell by cell: only \<open>v_\<close> has
  changed, and a padded cell holds \<open>F\<close> of its coordinates if it is in \<open>S\<close> and its first
  value otherwise.\<close>

definition v_inv ::
  "central2d \<Rightarrow> (int \<Rightarrow> int \<Rightarrow> int \<Rightarrow> real) \<Rightarrow> (int \<times> int \<times> int) set \<Rightarrow> central2d \<Rightarrow> bool" where
  "v_inv s0 F S z \<longleftrightarrow>
     (\<exists>V. z = s0\<lparr>v_vec := V\<rparr> \<and> length V = length (v_vec s0)
        \<and> (\<forall>k ix iy. padded s0 k ix iy \<longrightarrow>
              el V (offset s0 k ix iy)
                = (if (k, ix, iy) \<in> S then F k ix iy else el (v_vec s0) (offset s0 k ix iy))))"

text \<open>\<open>a(k,ix,iy)\<close> for an array \<open>a\<close>, as a value; the right-hand sides of the predictor and
  of the corrector as \<open>compute_step\<close> writes them; the cells of the two loops.\<close>

definition at_cell :: "central2d \<Rightarrow> real list \<Rightarrow> int \<Rightarrow> int \<Rightarrow> int \<Rightarrow> real" where
  "at_cell s A k ix iy = el A (offset s k ix iy)"

definition predicted :: "central2d \<Rightarrow> real \<Rightarrow> real \<Rightarrow> int \<Rightarrow> int \<Rightarrow> int \<Rightarrow> real" where
  "predicted s a b k ix iy =
     at_cell s (u_vec s) k ix iy - a * at_cell s (fx_vec s) k ix iy
       - b * at_cell s (gy_vec s) k ix iy"

definition corrected :: "central2d \<Rightarrow> real \<Rightarrow> real \<Rightarrow> int \<Rightarrow> int \<Rightarrow> int \<Rightarrow> real" where
  "corrected s a b m ix iy =
     0.2500 * (at_cell s (u_vec s) m ix iy + at_cell s (u_vec s) m (ix + 1) iy
               + at_cell s (u_vec s) m ix (iy + 1) + at_cell s (u_vec s) m (ix + 1) (iy + 1))
     - 0.0625 * (at_cell s (ux_vec s) m (ix + 1) iy - at_cell s (ux_vec s) m ix iy
                 + at_cell s (ux_vec s) m (ix + 1) (iy + 1) - at_cell s (ux_vec s) m ix (iy + 1)
                 + at_cell s (uy_vec s) m ix (iy + 1) - at_cell s (uy_vec s) m ix iy
                 + at_cell s (uy_vec s) m (ix + 1) (iy + 1) - at_cell s (uy_vec s) m (ix + 1) iy)
     - a * (at_cell s (f_vec s) m (ix + 1) iy - at_cell s (f_vec s) m ix iy
            + at_cell s (f_vec s) m (ix + 1) (iy + 1) - at_cell s (f_vec s) m ix (iy + 1))
     - b * (at_cell s (g_vec s) m ix (iy + 1) - at_cell s (g_vec s) m ix iy
            + at_cell s (g_vec s) m (ix + 1) (iy + 1) - at_cell s (g_vec s) m (ix + 1) iy)"

definition ring_cells :: "central2d \<Rightarrow> (int \<times> int \<times> int) set" where
  "ring_cells s =
     (\<Union>iy\<in>{1..<ny_all s - 1}. \<Union>ix\<in>{1..<nx_all s - 1}. \<Union>k\<in>{0..<nfield}. {(k, ix, iy)})"

definition window_cells :: "central2d \<Rightarrow> int \<Rightarrow> (int \<times> int \<times> int) set" where
  "window_cells s io =
     (\<Union>iy\<in>{nghost - io..<ny s + nghost - io}. \<Union>ix\<in>{nghost - io..<nx s + nghost - io}.
        \<Union>k\<in>{0..<nfield}. {(k, ix, iy)})"

text \<open>The fluxes of one cell as \<open>Shallow2D::flux\<close> computes them, by field: \<open>F = (hu,
  hu*hu/h + (g/2)*h*h, hu*hv/h)\<close> and \<open>G = (hv, hu*hv/h, hv*hv/h + (g/2)*h*h)\<close>, where
  \<open>1/h\<close> is computed first.\<close>

definition flux_f :: "central2d \<Rightarrow> real list \<Rightarrow> int \<Rightarrow> int \<Rightarrow> int \<Rightarrow> real" where
  "flux_f s V k ix iy =
     (let h = at_cell s V 0 ix iy; hu = at_cell s V 1 ix iy; hv = at_cell s V 2 ix iy
      in if k = 0 then hu
         else if k = 1 then hu * hu * (1 / h) + (0.5 * Shallow2D_g) * h * h
         else hu * hv * (1 / h))"

definition flux_g :: "central2d \<Rightarrow> real list \<Rightarrow> int \<Rightarrow> int \<Rightarrow> int \<Rightarrow> real" where
  "flux_g s V k ix iy =
     (let h = at_cell s V 0 ix iy; hu = at_cell s V 1 ix iy; hv = at_cell s V 2 ix iy
      in if k = 0 then hv
         else if k = 1 then hu * hv * (1 / h)
         else hv * hv * (1 / h) + (0.5 * Shallow2D_g) * h * h)"

text \<open>The invariant of the loop over rows that recomputes the fluxes from the scratch
  array: only \<open>f_\<close> and \<open>g_\<close> have changed, and they hold the fluxes of \<open>v_\<close> in the rows
  of \<open>S\<close>, outermost columns excepted.\<close>

definition fg_inv :: "central2d \<Rightarrow> int set \<Rightarrow> central2d \<Rightarrow> bool" where
  "fg_inv s S z \<longleftrightarrow>
     (\<exists>F G. z = s\<lparr>f_vec := F, g_vec := G\<rparr>
        \<and> length F = length (f_vec s) \<and> length G = length (g_vec s)
        \<and> (\<forall>k ix iy. padded s k ix iy \<longrightarrow>
              el F (offset s k ix iy)
                = (if iy \<in> S \<and> 1 \<le> ix \<and> ix < nx_all s - 1 then flux_f s (v_vec s) k ix iy
                   else el (f_vec s) (offset s k ix iy))
            \<and> el G (offset s k ix iy)
                = (if iy \<in> S \<and> 1 \<le> ix \<and> ix < nx_all s - 1 then flux_g s (v_vec s) k ix iy
                   else el (g_vec s) (offset s k ix iy))))"

text \<open>The invariant of the copy back: only \<open>u_\<close> has changed, and for each field of \<open>S\<close>
  the \<open>ny * nx_all\<close> elements from \<open>&u(k,nghost,nghost)\<close> on are those of \<open>v_\<close> from
  \<open>&v(k,nghost-io,nghost-io)\<close> on.\<close>

definition u_copied :: "central2d \<Rightarrow> int \<Rightarrow> int set \<Rightarrow> central2d \<Rightarrow> bool" where
  "u_copied s io S z \<longleftrightarrow>
     (\<exists>U. z = s\<lparr>u_vec := U\<rparr> \<and> length U = length (u_vec s)
        \<and> (\<forall>k\<in>S. 0 \<le> k \<and> k < nfield
              \<and> (\<forall>i. 0 \<le> i \<and> i < ny s * nx_all s \<longrightarrow>
                    el U (offset s k nghost nghost + i)
                      = el (v_vec s) (offset s k (nghost - io) (nghost - io) + i))))"

text \<open>The four loops of \<open>compute_step\<close> in a row, with what each leaves.\<close>

definition stages ::
  "central2d \<Rightarrow> int \<Rightarrow> real \<Rightarrow> real \<Rightarrow> central2d \<Rightarrow> central2d \<Rightarrow> central2d \<Rightarrow> central2d \<Rightarrow> bool" where
  "stages s io a b s1 s2 s3 s' \<longleftrightarrow>
     predictor a b s = Inr s1 \<and> v_inv s (predicted s a b) (ring_cells s) s1
     \<and> half_step_flux s1 = Inr s2 \<and> fg_inv s1 {1..<ny_all s - 1} s2
     \<and> corrector io a b s2 = Inr s3 \<and> v_inv s2 (corrected s2 a b) (window_cells s io) s3
     \<and> copy_back io s3 = Inr s' \<and> u_copied s3 io {0..<nfield} s'"

text \<open>One half-step of \<open>run\<close> that returns: its stages in a row, with the wave speeds
  \<open>cx, cy\<close> it measured on \<open>s1\<close>, the step \<open>d\<close> it used and the state it leaves.\<close>

definition half_stepped ::
  "(real \<Rightarrow> real \<Rightarrow> real \<Rightarrow> real) \<Rightarrow> int \<Rightarrow> real \<Rightarrow> bool \<Rightarrow> run_state \<Rightarrow> real \<Rightarrow> real \<Rightarrow> central2d
     \<Rightarrow> run_state \<Rightarrow> bool" where
  "half_stepped limdiff io d fin r cx cy s1 r' \<longleftrightarrow>
     (\<exists>s2 s3 s4. apply_periodic (sim r) = Inr s1 \<and> compute_fg_speeds s1 = Inr (s2, cx, cy)
        \<and> limited_derivs limdiff s2 = Inr s3 \<and> compute_step io d s3 = Inr s4
        \<and> r' = r\<lparr>finished := fin, t := t r + d, dt := d, sim := s4,
                  steps := steps r @ [(io, d)],
                  measured := measured r @ [(io, cx, cy)]\<rparr>)"

text \<open>The trace of half-steps made in pairs: an even and an odd one for each step of
  the list.\<close>

definition pairs_of :: "real list \<Rightarrow> (int \<times> real) list" where
  "pairs_of ds = concat (map (\<lambda>d. [(0, d), (1, d)]) ds)"

text \<open>The invariant of the loop of \<open>limited_derivs\<close>: only the four derivative arrays
  have changed, and entry \<open>i\<close> holds the limited difference of its neighbours if \<open>i\<close> is
  in \<open>S\<close> and its first value otherwise.\<close>

definition derivs_inv ::
  "(real \<Rightarrow> real \<Rightarrow> real \<Rightarrow> real) \<Rightarrow> central2d \<Rightarrow> int set \<Rightarrow> central2d \<Rightarrow> bool" where
  "derivs_inv limdiff s S z \<longleftrightarrow>
     (\<exists>UX FX UY GY. z = s\<lparr>ux_vec := UX, fx_vec := FX, uy_vec := UY, gy_vec := GY\<rparr>
        \<and> length UX = length (ux_vec s) \<and> length FX = length (fx_vec s)
        \<and> length UY = length (uy_vec s) \<and> length GY = length (gy_vec s)
        \<and> (\<forall>i. 0 \<le> i \<longrightarrow>
              el UX i = (if i \<in> S
                         then limdiff (el (u_vec s) (i - 1)) (el (u_vec s) i) (el (u_vec s) (i + 1))
                         else el (ux_vec s) i)
            \<and> el FX i = (if i \<in> S
                         then limdiff (el (f_vec s) (i - 1)) (el (f_vec s) i) (el (f_vec s) (i + 1))
                         else el (fx_vec s) i)
            \<and> el UY i = (if i \<in> S
                         then limdiff (el (u_vec s) (i - nx_all s)) (el (u_vec s) i)
                                (el (u_vec s) (i + nx_all s))
                         else el (uy_vec s) i)
            \<and> el GY i = (if i \<in> S
                         then limdiff (el (g_vec s) (i - nx_all s)) (el (g_vec s) i)
                                (el (g_vec s) (i + nx_all s))
                         else el (gy_vec s) i)))"

text \<open>Still water on a grid of one cell: height \<open>H\<close> and no momentum at the interior
  cell, and no derivative left anywhere inside the outermost ring.\<close>

definition still :: "central2d \<Rightarrow> real \<Rightarrow> bool" where
  "still s H \<longleftrightarrow>
     wf s \<and> nx s = 1 \<and> ny s = 1 \<and> 0 < H
     \<and> at_cell s (u_vec s) 0 3 3 = H \<and> at_cell s (u_vec s) 1 3 3 = 0
     \<and> at_cell s (u_vec s) 2 3 3 = 0
     \<and> (\<forall>k ix iy. 0 \<le> k \<and> k < 3 \<and> 1 \<le> ix \<and> ix < 6 \<and> 1 \<le> iy \<and> iy < 6 \<longrightarrow>
           at_cell s (ux_vec s) k ix iy = 0 \<and> at_cell s (uy_vec s) k ix iy = 0
         \<and> at_cell s (fx_vec s) k ix iy = 0 \<and> at_cell s (gy_vec s) k ix iy = 0)"

text \<open>A limiter for the examples: the minmod of the two one-sided differences.\<close>

definition minmod_limdiff :: "real \<Rightarrow> real \<Rightarrow> real \<Rightarrow> real" where
  "minmod_limdiff um u0 up =
     (if 0 < u0 - um \<and> 0 < up - u0 then min (u0 - um) (up - u0)
      else if u0 - um < 0 \<and> up - u0 < 0 then max (u0 - um) (up - u0)
      else 0)"

text \<open>A solver of 1 by 3 cells on a domain of width 1 and height 3 as constructed (all
  zeros, \<open>dx = dy = 1\<close>), with the heights \<open>2, 3, 1\<close> of its three interior cells set through
  the accessor.\<close>

definition column_3 :: central2d where
  "column_3 =
     \<lparr> nx = 1, ny = 3, nx_all = 7, ny_all = 9, dx = 1, dy = 1, cfl = 45 / 100,
       u_vec = (replicate 189 0)[24 := 2, 31 := 3, 38 := 1],
       f_vec = replicate 189 0, g_vec = replicate 189 0,
       ux_vec = replicate 189 0, uy_vec = replicate 189 0,
       fx_vec = replicate 189 0, gy_vec = replicate 189 0,
       v_vec = replicate 189 0 \<rparr>"

text \<open>
  A grid of one column and three rows is the same in every column of the padded grid
  once the boundary is filled, so a half-step on it is a recurrence on the rows. \<open>P k iy\<close>
  is the value of field \<open>k\<close> in the interior row \<open>iy\<close>; \<open>col_f\<close> and \<open>col_g\<close> are the fluxes of a
  row; \<open>col_dy\<close> is the limited difference in \<open>y\<close> as \<open>limited_derivs\<close> leaves it, with the
  rows of the last field that its loop does not reach, where the arrays still hold the
  zeros of the constructor; \<open>col_pred\<close> and \<open>col_corr\<close> are the predictor and the corrector,
  and \<open>col_step\<close> is the new interior row after the copy back.
\<close>

definition col_f :: "(int \<Rightarrow> int \<Rightarrow> real) \<Rightarrow> int \<Rightarrow> int \<Rightarrow> real" where
  "col_f Q k iy =
     (let h = Q 0 iy; hu = Q 1 iy; hv = Q 2 iy
      in if k = 0 then hu
         else if k = 1 then hu * hu * (1 / h) + (0.5 * Shallow2D_g) * h * h
         else hu * hv * (1 / h))"

definition col_g :: "(int \<Rightarrow> int \<Rightarrow> real) \<Rightarrow> int \<Rightarrow> int \<Rightarrow> real" where
  "col_g Q k iy =
     (let h = Q 0 iy; hu = Q 1 iy; hv = Q 2 iy
      in if k = 0 then hv
         else if k = 1 then hu * hv * (1 / h)
         else hv * hv * (1 / h) + (0.5 * Shallow2D_g) * h * h)"

definition col_dy ::
  "(real \<Rightarrow> real \<Rightarrow> real \<Rightarrow> real) \<Rightarrow> (int \<Rightarrow> int \<Rightarrow> real) \<Rightarrow> int \<Rightarrow> int \<Rightarrow> real" where
  "col_dy limdiff Q k iy =
     (if k = 2 \<and> 6 \<le> iy then 0 else limdiff (Q k (iy - 1)) (Q k iy) (Q k (iy + 1)))"

definition col_pred ::
  "(real \<Rightarrow> real \<Rightarrow> real \<Rightarrow> real) \<Rightarrow> real \<Rightarrow> (int \<Rightarrow> int \<Rightarrow> real) \<Rightarrow> int \<Rightarrow> int \<Rightarrow> real" where
  "col_pred limdiff b Q k iy = Q k iy - b * col_dy limdiff (col_g Q) k iy"

definition col_corr ::
  "(real \<Rightarrow> real \<Rightarrow> real \<Rightarrow> real) \<Rightarrow> real \<Rightarrow> (int \<Rightarrow> int \<Rightarrow> real) \<Rightarrow> int \<Rightarrow> int \<Rightarrow> real" where
  "col_corr limdiff b Q k iy =
     0.2500 * (Q k iy + Q k iy + Q k (iy + 1) + Q k (iy + 1))
     - 0.0625 * (col_dy limdiff Q k (iy + 1) - col_dy limdiff Q k iy
                 + col_dy limdiff Q k (iy + 1) - col_dy limdiff Q k iy)
     - b * (col_g (col_pred limdiff b Q) k (iy + 1) - col_g (col_pred limdiff b Q) k iy
            + col_g (col_pred limdiff b Q) k (iy + 1) - col_g (col_pred limdiff b Q) k iy)"

definition col_fill :: "(int \<Rightarrow> int \<Rightarrow> real) \<Rightarrow> int \<Rightarrow> int \<Rightarrow> real" where
  "col_fill P k iy = P k (canon 3 iy)"

definition col_step ::
  "(real \<Rightarrow> real \<Rightarrow> real \<Rightarrow> real) \<Rightarrow> real \<Rightarrow> int \<Rightarrow> (int \<Rightarrow> int \<Rightarrow> real) \<Rightarrow> int \<Rightarrow> int \<Rightarrow> real" where
  "col_step limdiff b io P k iy = col_corr limdiff b (col_fill P) k (iy - io)"

text \<open>A solver of one column and three rows with the interior rows \<open>P\<close>, whose derivative
  arrays hold zero wherever the loop of \<open>limited_derivs\<close> does not write.\<close>

definition column :: "central2d \<Rightarrow> (int \<Rightarrow> int \<Rightarrow> real) \<Rightarrow> bool" where
  "column s P \<longleftrightarrow>
     wf s \<and> nx s = 1 \<and> ny s = 3
     \<and> (\<forall>k iy. 0 \<le> k \<and> k < 3 \<and> 3 \<le> iy \<and> iy < 6 \<longrightarrow> at_cell s (u_vec s) k 3 iy = P k iy)
     \<and> (\<forall>i. 0 \<le> i \<and> i < 189 \<and> (i < 9 \<or> 168 \<le> i) \<longrightarrow>
           el (ux_vec s) i = 0 \<and> el (uy_vec s) i = 0 \<and> el (fx_vec s) i = 0 \<and> el (gy_vec s) i = 0)"

text \<open>The interior rows of \<open>column_3\<close>, and the rows after its first half-step with
  \<open>dt = 0.05\<close>.\<close>

definition rows_0 :: "int \<Rightarrow> int \<Rightarrow> real" where
  "rows_0 k iy = (if k = 0 then (if iy = 3 then 2 else if iy = 4 then 3 else 1) else 0)"

definition rows_1 :: "int \<Rightarrow> int \<Rightarrow> real" where
  "rows_1 k iy =
     (if k = 0 then (if iy = 3 then 20853 / 8000 else if iy = 4 then 2 else 11 / 8)
      else if k = 2
      then (if iy = 3 then - (7818391 / 6400000) else if iy = 4 then 49 / 25 else - (147 / 200))
      else 0)"




section \<open>Loops and array accesses\<close>

lemma rbind_Inr [simp]: "rbind (Inr x) f = f x"
  by (simp add: rbind_def)

lemma rbind_Inl [simp]: "rbind (Inl e) f = Inl e"
  by (simp add: rbind_def)

lemma rd_Inr: "0 \<le> i \<Longrightarrow> i < int (length xs) \<Longrightarrow> rd xs i = Inr (el xs i)"
  by (simp add: rd_def el_def)

lemma wr_Inr: "0 \<le> i \<Longrightarrow> i < int (length xs) \<Longrightarrow> wr xs i x = Inr (xs[nat i := x])"
  by (simp add: wr_def)

lemma el_update:
  "0 \<le> i \<Longrightarrow> 0 \<le> j \<Longrightarrow> i < int (length xs)
     \<Longrightarrow> el (xs[nat i := x]) j = (if i = j then x else el xs j)"
  by (auto simp: el_def nth_list_update)

lemma el_update_same: "0 \<le> i \<Longrightarrow> i < int (length xs) \<Longrightarrow> el (xs[nat i := x]) i = x"
  by (simp add: el_def)

lemma el_update_other: "0 \<le> i \<Longrightarrow> 0 \<le> j \<Longrightarrow> i \<noteq> j \<Longrightarrow> el (xs[nat i := x]) j = el xs j"
  by (simp add: el_def)

text \<open>A loop whose body keeps an invariant \<open>I\<close> and adds \<open>W i\<close> to the set the invariant
  speaks about runs through, and the invariant holds of everything it added.\<close>

lemma for_loop_rule:
  assumes "I S s"
    and "\<And>i S s. i \<in> set js \<Longrightarrow> I S s \<Longrightarrow> \<exists>s'. body i s = Inr s' \<and> I (S \<union> W i) s'"
  shows "\<exists>s'. for_loop js body s = Inr s' \<and> I (S \<union> (\<Union>i\<in>set js. W i)) s'"
  using assms
proof (induction js arbitrary: S s)
  case Nil
  then show ?case by simp
next
  case (Cons j js)
  from Cons.prems obtain s1 where s1: "body j s = Inr s1" "I (S \<union> W j) s1"
    by (meson list.set_intros(1))
  have "\<exists>s'. for_loop js body s1 = Inr s' \<and> I ((S \<union> W j) \<union> (\<Union>i\<in>set js. W i)) s'"
    by (rule Cons.IH [OF s1(2)]) (simp add: Cons.prems(2))
  then show ?case
    using s1(1) by (simp add: Un_assoc)
qed

lemma for_range_rule:
  assumes "I S s"
    and "\<And>i S s. lo \<le> i \<Longrightarrow> i < hi \<Longrightarrow> I S s \<Longrightarrow> \<exists>s'. body i s = Inr s' \<and> I (S \<union> W i) s'"
  shows "\<exists>s'. for_range lo hi body s = Inr s' \<and> I (S \<union> (\<Union>i\<in>{lo..<hi}. W i)) s'"
proof -
  have eq: "set [lo..hi - 1] = {lo..<hi}"
    by auto
  have "\<exists>s'. for_loop [lo..hi - 1] body s = Inr s' \<and> I (S \<union> (\<Union>i\<in>set [lo..hi - 1]. W i)) s'"
    by (rule for_loop_rule [where I = I and S = S and W = W]) (use assms in auto)
  then show ?thesis
    by (simp only: for_range_def eq)
qed

text \<open>The same for an invariant without a set.\<close>

lemma for_range_inv:
  assumes "I s"
    and "\<And>i s. lo \<le> i \<Longrightarrow> i < hi \<Longrightarrow> I s \<Longrightarrow> \<exists>s'. body i s = Inr s' \<and> I s'"
  shows "\<exists>s'. for_range lo hi body s = Inr s' \<and> I s'"
proof -
  have "\<exists>s'. for_range lo hi body s = Inr s'
          \<and> (\<lambda>(S::unit set) s. I s) ({} \<union> (\<Union>i\<in>{lo..<hi}. {})) s'"
    by (rule for_range_rule [where I = "\<lambda>(S::unit set) s. I s"]) (use assms in auto)
  then show ?thesis by simp
qed

text \<open>A loop stops with the error of the first iteration that fails.\<close>

lemma for_loop_fails:
  assumes "I s"
    and "\<And>i s. i \<in> set js \<Longrightarrow> I s \<Longrightarrow> (\<exists>s'. body i s = Inr s' \<and> I s') \<or> body i s = Inl e"
    and "j \<in> set js"
    and "\<And>s. I s \<Longrightarrow> body j s = Inl e"
  shows "for_loop js body s = Inl e"
  using assms
proof (induction js arbitrary: s)
  case Nil
  then show ?case by simp
next
  case (Cons i js)
  show ?case
  proof (cases "body i s")
    case (Inl e')
    with Cons.prems(2) [of i s] Cons.prems(1) show ?thesis by auto
  next
    case (Inr s1)
    with Cons.prems(2) [of i s] Cons.prems(1) have I1: "I s1" by auto
    have "i \<noteq> j"
      using Cons.prems(1,4) Inr by auto
    with Cons.prems(3) have "j \<in> set js" by simp
    then have "for_loop js body s1 = Inl e"
      using Cons.IH [OF I1] Cons.prems(2,4) by auto
    then show ?thesis using Inr by simp
  qed
qed

lemma for_range_fails:
  assumes "I s"
    and "\<And>i s. lo \<le> i \<Longrightarrow> i < hi \<Longrightarrow> I s
           \<Longrightarrow> (\<exists>s'. body i s = Inr s' \<and> I s') \<or> body i s = Inl e"
    and "lo \<le> j" and "j < hi"
    and "\<And>s. I s \<Longrightarrow> body j s = Inl e"
  shows "for_range lo hi body s = Inl e"
  unfolding for_range_def
  by (rule for_loop_fails [where I = I and j = j]) (use assms in auto)

section \<open>Construction\<close>

text \<open>
  C7. The claim: a non-positive cell count or a non-positive domain extent makes the
  construction fail. The constructor has no check: with \<open>nx = -1\<close>, and with a width of
  \<open>-1\<close> and a height of \<open>0\<close>, it returns a solver; with \<open>nx = 0\<close> it returns an object too.
\<close>

theorem C7_nonpositive_accepted:
  "(\<exists>s. Central2D 1 1 (-1) 1 (45 / 100) = Inr (Solver s) \<and> nx s = -1 \<and> dx s = -1)
   \<and> (\<exists>s. Central2D (-1) 0 1 1 (45 / 100) = Inr (Solver s) \<and> dx s = -1 \<and> dy s = 0)
   \<and> (\<exists>q. Central2D 1 1 0 1 (45 / 100) = Inr (Unsized q) \<and> q_nx q = 0 \<and> q_dx q = PosInf)"
  by (simp add: Central2D_def array_size_def int32_def fquot_def nghost_def nfield_def)

text \<open>
  C7, as the code has it: construction checks nothing. For every width, height and CFL
  bound, of any sign, and all cell counts that are values of \<open>int\<close>, it fails exactly
  when the size of the arrays, the product \<open>nfield * (nx + 6) * (ny + 6)\<close> as \<open>int\<close>
  arithmetic gives it (\<open>array_size\<close>), is negative, and with one error only, that of the
  allocation. Otherwise it returns: for nonzero counts the solver with the counts and
  extents as given, \<open>dx = w / nx\<close>, \<open>dy = h / ny\<close> and eight arrays of that size, all zeros;
  for a zero count an object whose cell size is an infinity or a NaN.
\<close>

theorem C7_construction_unchecked:
  assumes "int32 nx0 = nx0" and "int32 ny0 = ny0"
  shows "(Central2D w h nx0 ny0 c = Inl BadAlloc \<longleftrightarrow> array_size nx0 ny0 < 0)
    \<and> (\<forall>e. Central2D w h nx0 ny0 c = Inl e \<longrightarrow> e = BadAlloc)
    \<and> (0 \<le> array_size nx0 ny0 \<and> nx0 \<noteq> 0 \<and> ny0 \<noteq> 0 \<longrightarrow>
        (\<exists>s. Central2D w h nx0 ny0 c = Inr (Solver s)
           \<and> nx s = nx0 \<and> ny s = ny0
           \<and> nx_all s = int32 (nx0 + 2 * nghost) \<and> ny_all s = int32 (ny0 + 2 * nghost)
           \<and> dx s = w / of_int nx0 \<and> dy s = h / of_int ny0 \<and> cfl s = c
           \<and> u_vec s = replicate (nat (array_size nx0 ny0)) 0
           \<and> f_vec s = u_vec s \<and> g_vec s = u_vec s \<and> ux_vec s = u_vec s
           \<and> uy_vec s = u_vec s \<and> fx_vec s = u_vec s \<and> gy_vec s = u_vec s
           \<and> v_vec s = u_vec s))
    \<and> (0 \<le> array_size nx0 ny0 \<and> (nx0 = 0 \<or> ny0 = 0) \<longrightarrow>
        (\<exists>q. Central2D w h nx0 ny0 c = Inr (Unsized q)
           \<and> q_nx q = nx0 \<and> q_ny q = ny0
           \<and> q_nx_all q = int32 (nx0 + 2 * nghost) \<and> q_ny_all q = int32 (ny0 + 2 * nghost)
           \<and> q_dx q = fquot w nx0 \<and> q_dy q = fquot h ny0 \<and> q_cfl q = c
           \<and> q_size q = nat (array_size nx0 ny0)))"
  by (auto simp: Central2D_def Let_def fquot_def split: quotient.splits)

theorem C7_construction_unchecked_witness:
  "int32 (-1) = -1 \<and> int32 1 = 1 \<and> int32 32762 = 32762 \<and> int32 65530 = 65530 \<and> int32 0 = 0
   \<and> (Central2D (-2) 0 (-1) 1 1 = Inl BadAlloc \<longleftrightarrow> array_size (-1) 1 < 0)
   \<and> array_size (-1) 1 = 105
   \<and> (\<exists>s. Central2D (-2) 0 (-1) 1 1 = Inr (Solver s) \<and> nx s = -1 \<and> dx s = 2 \<and> dy s = 0
          \<and> length (u_vec s) = 105)
   \<and> array_size 32762 32762 < 0 \<and> Central2D 1 1 32762 32762 1 = Inl BadAlloc
   \<and> array_size 65530 65530 = 0
   \<and> (\<exists>s. Central2D 1 1 65530 65530 1 = Inr (Solver s) \<and> u_vec s = [])
   \<and> array_size 0 0 = 108
   \<and> (\<exists>q. Central2D 1 (-1) 0 0 1 = Inr (Unsized q) \<and> q_dx q = PosInf \<and> q_dy q = NegInf
          \<and> q_size q = 108)"
proof -
  have i: "int32 (-1) = -1" "int32 1 = 1" "int32 32762 = 32762" "int32 65530 = 65530"
    "int32 0 = 0"
    by (simp_all add: int32_def)
  have a: "array_size (-1) 1 = 105" "array_size 32762 32762 < 0" "array_size 65530 65530 = 0"
    "array_size 0 0 = 108"
    by (simp_all add: array_size_def int32_def nghost_def nfield_def)
  have 1: "(Central2D (-2) 0 (-1) 1 1 = Inl BadAlloc \<longleftrightarrow> array_size (-1) 1 < 0)"
    "\<exists>s. Central2D (-2) 0 (-1) 1 1 = Inr (Solver s) \<and> nx s = -1 \<and> dx s = 2 \<and> dy s = 0
          \<and> length (u_vec s) = 105"
    using C7_construction_unchecked [OF i(1) i(2), of "-2" 0 1] by (auto simp: a)
  have 2: "Central2D 1 1 32762 32762 1 = Inl BadAlloc"
    using C7_construction_unchecked [OF i(3) i(3), of 1 1 1] a by simp
  have 3: "\<exists>s. Central2D 1 1 65530 65530 1 = Inr (Solver s) \<and> u_vec s = []"
    using C7_construction_unchecked [OF i(4) i(4), of 1 1 1] by (auto simp: a)
  have 4: "\<exists>q. Central2D 1 (-1) 0 0 1 = Inr (Unsized q) \<and> q_dx q = PosInf \<and> q_dy q = NegInf
          \<and> q_size q = 108"
    using C7_construction_unchecked [OF i(5) i(5), of 1 "-1" 1] by (auto simp: a fquot_def)
  show ?thesis
    using i 1 2 3 4 a by blast
qed

section \<open>The physics on a run of cells\<close>

lemma copy_cells_ok:
  assumes "0 \<le> sb" "sb + n \<le> int (length src)" "0 \<le> db" "db + n \<le> int (length dst)"
  shows "\<exists>d. copy_cells src sb n dst db = Inr d \<and> length d = length dst
           \<and> (\<forall>i. 0 \<le> i \<and> i < n \<longrightarrow> el d (db + i) = el src (sb + i))
           \<and> (\<forall>j. 0 \<le> j \<and> (j < db \<or> db + n \<le> j) \<longrightarrow> el d j = el dst j)"
proof -
  let ?I = "\<lambda>S d. length d = length dst
              \<and> (\<forall>i\<in>S. 0 \<le> i \<and> el d (db + i) = el src (sb + i))
              \<and> (\<forall>j. 0 \<le> j \<and> (j < db \<or> db + n \<le> j) \<longrightarrow> el d j = el dst j)"
  have "\<exists>d. for_range 0 n (\<lambda>i d. rbind (rd src (sb + i)) (\<lambda>x. wr d (db + i) x)) dst = Inr d
          \<and> ?I ({} \<union> (\<Union>i\<in>{0..<n}. {i})) d"
  proof (rule for_range_rule [where I = ?I])
    show "?I {} dst" by simp
  next
    fix i S d
    assume i: "0 \<le> i" "i < n" and I: "?I S d"
    have r: "rd src (sb + i) = Inr (el src (sb + i))"
      using assms i by (intro rd_Inr) auto
    have w: "wr d (db + i) x = Inr (d[nat (db + i) := x])" for x
      using assms i I by (intro wr_Inr) auto
    have "?I (S \<union> {i}) (d[nat (db + i) := el src (sb + i)])"
      using assms i I by (auto simp: el_update)
    then show "\<exists>s'. rbind (rd src (sb + i)) (\<lambda>x. wr d (db + i) x) = Inr s' \<and> ?I (S \<union> {i}) s'"
      by (simp add: r w)
  qed
  then show ?thesis
    by (auto simp: copy_cells_def)
qed

lemma flux_cell_ok:
  assumes b: "0 \<le> ub" "0 \<le> fb" "0 \<le> gb" "0 \<le> i" "i < n" "n \<le> st"
      "ub + 2 * st + n \<le> int (length U)"
      "fb + 2 * st + n \<le> int (length F)" "gb + 2 * st + n \<le> int (length G)"
    and h: "el U (ub + i) \<noteq> 0"
  shows "\<exists>F' G'. flux_cell fb gb U ub st i (F, G) = Inr (F', G')
     \<and> length F' = length F \<and> length G' = length G
     \<and> el F' (fb + st + i) = el U (ub + st + i) * el U (ub + st + i) * (1 / el U (ub + i))
                               + (0.5 * Shallow2D_g) * el U (ub + i) * el U (ub + i)
     \<and> el F' (fb + 2 * st + i) = el U (ub + st + i) * el U (ub + 2 * st + i) * (1 / el U (ub + i))
     \<and> el G' (gb + st + i) = el U (ub + st + i) * el U (ub + 2 * st + i) * (1 / el U (ub + i))
     \<and> el G' (gb + 2 * st + i) = el U (ub + 2 * st + i) * el U (ub + 2 * st + i) * (1 / el U (ub + i))
                               + (0.5 * Shallow2D_g) * el U (ub + i) * el U (ub + i)
     \<and> (\<forall>j. 0 \<le> j \<and> j \<noteq> fb + st + i \<and> j \<noteq> fb + 2 * st + i \<longrightarrow> el F' j = el F j)
     \<and> (\<forall>j. 0 \<le> j \<and> j \<noteq> gb + st + i \<and> j \<noteq> gb + 2 * st + i \<longrightarrow> el G' j = el G j)"
proof -
  have r: "rd U (ub + i) = Inr (el U (ub + i))"
    "rd U (ub + st + i) = Inr (el U (ub + st + i))"
    "rd U (ub + 2 * st + i) = Inr (el U (ub + 2 * st + i))"
    using b by (auto intro!: rd_Inr)
  have w: "wr F (fb + st + i) x = Inr (F[nat (fb + st + i) := x])"
    "wr (F[nat (fb + st + i) := x]) (fb + 2 * st + i) y
       = Inr (F[nat (fb + st + i) := x, nat (fb + 2 * st + i) := y])"
    "wr G (gb + st + i) x = Inr (G[nat (gb + st + i) := x])"
    "wr (G[nat (gb + st + i) := x]) (gb + 2 * st + i) y
       = Inr (G[nat (gb + st + i) := x, nat (gb + 2 * st + i) := y])" for x y
    using b by (auto intro!: wr_Inr)
  show ?thesis
    using b h by (simp add: flux_cell_def r w fdiv_def el_update)
qed

lemma Shallow2D_flux_ok:
  assumes b: "0 \<le> ub" "0 \<le> fb" "0 \<le> gb" "0 \<le> n" "n \<le> st"
      "ub + 2 * st + n \<le> int (length U)"
      "fb + 2 * st + n \<le> int (length FU)" "gb + 2 * st + n \<le> int (length GU)"
    and h: "\<forall>i. 0 \<le> i \<and> i < n \<longrightarrow> el U (ub + i) \<noteq> 0"
  shows "\<exists>F G. Shallow2D_flux FU fb GU gb U ub n st = Inr (F, G)
     \<and> (\<forall>i. 0 \<le> i \<and> i < n \<longrightarrow> flux_values F G fb gb U ub st i)
     \<and> flux_frame F FU fb st n \<and> flux_frame G GU gb st n"
proof -
  obtain F0 where F0: "copy_cells U (ub + st) n FU fb = Inr F0" "length F0 = length FU"
      "\<forall>i. 0 \<le> i \<and> i < n \<longrightarrow> el F0 (fb + i) = el U (ub + st + i)"
      "\<forall>j. 0 \<le> j \<and> (j < fb \<or> fb + n \<le> j) \<longrightarrow> el F0 j = el FU j"
    using copy_cells_ok [of "ub + st" n U fb FU] b by auto
  obtain G0 where G0: "copy_cells U (ub + 2 * st) n GU gb = Inr G0" "length G0 = length GU"
      "\<forall>i. 0 \<le> i \<and> i < n \<longrightarrow> el G0 (gb + i) = el U (ub + 2 * st + i)"
      "\<forall>j. 0 \<le> j \<and> (j < gb \<or> gb + n \<le> j) \<longrightarrow> el G0 j = el GU j"
    using copy_cells_ok [of "ub + 2 * st" n U gb GU] b by auto
  let ?I = "\<lambda>S FG. case FG of (F, G) \<Rightarrow>
      length F = length FU \<and> length G = length GU
    \<and> (\<forall>i. 0 \<le> i \<and> i < n \<longrightarrow> el F (fb + i) = el U (ub + st + i)
                               \<and> el G (gb + i) = el U (ub + 2 * st + i))
    \<and> (\<forall>i\<in>S. 0 \<le> i \<and> i < n \<and> flux_values F G fb gb U ub st i)
    \<and> flux_frame F FU fb st n \<and> flux_frame G GU gb st n"
  have "\<exists>FG. for_range 0 n (flux_cell fb gb U ub st) (F0, G0) = Inr FG
          \<and> ?I ({} \<union> (\<Union>i\<in>{0..<n}. {i})) FG"
  proof (rule for_range_rule [where I = ?I])
    show "?I {} (F0, G0)"
      using F0 G0 by (auto simp: flux_frame_def)
  next
    fix i S FG
    assume i: "0 \<le> i" "i < n" and I: "?I S FG"
    obtain F G where FG: "FG = (F, G)" by (cases FG)
    from I FG have len: "length F = length FU" "length G = length GU" by auto
    obtain F' G' where c: "flux_cell fb gb U ub st i (F, G) = Inr (F', G')"
      "length F' = length F" "length G' = length G"
      "el F' (fb + st + i) = el U (ub + st + i) * el U (ub + st + i) * (1 / el U (ub + i))
                               + (0.5 * Shallow2D_g) * el U (ub + i) * el U (ub + i)"
      "el F' (fb + 2 * st + i) = el U (ub + st + i) * el U (ub + 2 * st + i) * (1 / el U (ub + i))"
      "el G' (gb + st + i) = el U (ub + st + i) * el U (ub + 2 * st + i) * (1 / el U (ub + i))"
      "el G' (gb + 2 * st + i) = el U (ub + 2 * st + i) * el U (ub + 2 * st + i) * (1 / el U (ub + i))
                               + (0.5 * Shallow2D_g) * el U (ub + i) * el U (ub + i)"
      "\<forall>j. 0 \<le> j \<and> j \<noteq> fb + st + i \<and> j \<noteq> fb + 2 * st + i \<longrightarrow> el F' j = el F j"
      "\<forall>j. 0 \<le> j \<and> j \<noteq> gb + st + i \<and> j \<noteq> gb + 2 * st + i \<longrightarrow> el G' j = el G j"
      using flux_cell_ok [of ub fb gb i n st U F G] b i h len by auto
    have copy: "el F' (fb + k) = el U (ub + st + k) \<and> el G' (gb + k) = el U (ub + 2 * st + k)"
      if "0 \<le> k" "k < n" for k
    proof -
      have "el F' (fb + k) = el F (fb + k)" "el G' (gb + k) = el G (gb + k)"
        using c(8,9) that b i by auto
      then show ?thesis using I FG that by auto
    qed
    have new: "flux_values F' G' fb gb U ub st i"
      using c(4-7) copy [OF i] by (simp add: flux_values_def Let_def)
    have old: "flux_values F' G' fb gb U ub st k" if "k \<in> S" for k
    proof (cases "k = i")
      case True
      then show ?thesis using new by simp
    next
      case False
      from I FG that have k: "0 \<le> k" "k < n" "flux_values F G fb gb U ub st k" by auto
      have "el F' (fb + k) = el F (fb + k)" "el F' (fb + st + k) = el F (fb + st + k)"
        "el F' (fb + 2 * st + k) = el F (fb + 2 * st + k)"
        "el G' (gb + k) = el G (gb + k)" "el G' (gb + st + k) = el G (gb + st + k)"
        "el G' (gb + 2 * st + k) = el G (gb + 2 * st + k)"
        using c(8,9) k(1,2) b i False by auto
      then show ?thesis using k(3) by (simp add: flux_values_def)
    qed
    have fr: "flux_frame F' FU fb st n" "flux_frame G' GU gb st n"
      using I FG c(2,3,8,9) i b unfolding flux_frame_def by auto
    have "?I (S \<union> {i}) (F', G')"
      using len c(2,3) copy new old fr I FG i by auto
    then show "\<exists>s'. flux_cell fb gb U ub st i FG = Inr s' \<and> ?I (S \<union> {i}) s'"
      using c(1) FG by blast
  qed
  then obtain F G where "for_range 0 n (flux_cell fb gb U ub st) (F0, G0) = Inr (F, G)"
      "?I ({} \<union> (\<Union>i\<in>{0..<n}. {i})) (F, G)"
    by auto
  then show ?thesis
    using F0(1) G0(1) by (auto simp: Shallow2D_flux_def)
qed

lemma Shallow2D_wave_speed_ok:
  assumes b: "0 \<le> ub" "0 \<le> n" "n \<le> st" "ub + 2 * st + n \<le> int (length U)"
    and h: "\<forall>i. 0 \<le> i \<and> i < n \<longrightarrow> 0 < el U (ub + i)"
  shows "\<exists>cx cy. Shallow2D_wave_speed (cx0, cy0) U ub n st = Inr (cx, cy) \<and> cx0 \<le> cx \<and> cy0 \<le> cy"
proof -
  let ?I = "\<lambda>c. case c of (cx, cy) \<Rightarrow> cx0 \<le> cx \<and> cy0 \<le> (cy::real)"
  have "\<exists>c. for_range 0 n (wave_speed_cell U ub st) (cx0, cy0) = Inr c \<and> ?I c"
  proof (rule for_range_inv [where I = ?I])
    show "?I (cx0, cy0)" by simp
  next
    fix i c
    assume i: "0 \<le> i" "i < n" and I: "?I c"
    have r: "rd U (ub + i) = Inr (el U (ub + i))"
      "rd U (ub + st + i) = Inr (el U (ub + st + i))"
      "rd U (ub + 2 * st + i) = Inr (el U (ub + 2 * st + i))"
      using b i by (auto intro!: rd_Inr)
    have pos: "0 < el U (ub + i)" using h i by simp
    then have "0 \<le> Shallow2D_g * el U (ub + i)"
      by (simp add: Shallow2D_g_def)
    then show "\<exists>s'. wave_speed_cell U ub st i c = Inr s' \<and> ?I s'"
      using I pos by (auto simp: wave_speed_cell_def r fsqrt_def fdiv_def split: prod.splits)
  qed
  then show ?thesis
    by (auto simp: Shallow2D_wave_speed_def)
qed

lemma flux_cell_zero:
  assumes "0 \<le> ub" "0 \<le> i" "i < n" "n \<le> st" "ub + 2 * st + n \<le> int (length U)"
    and "el U (ub + i) = 0"
  shows "flux_cell fb gb U ub st i FG = Inl DivByZero"
proof -
  have r: "rd U (ub + i) = Inr (el U (ub + i))"
    "rd U (ub + st + i) = Inr (el U (ub + st + i))"
    "rd U (ub + 2 * st + i) = Inr (el U (ub + 2 * st + i))"
    using assms(1-5) by (auto intro!: rd_Inr)
  show ?thesis
    using assms(6) r by (simp add: flux_cell_def fdiv_def split: prod.splits)
qed

lemma Shallow2D_flux_zero:
  assumes b: "0 \<le> ub" "0 \<le> fb" "0 \<le> gb" "0 \<le> n" "n \<le> st"
      "ub + 2 * st + n \<le> int (length U)"
      "fb + 2 * st + n \<le> int (length FU)" "gb + 2 * st + n \<le> int (length GU)"
    and z: "0 \<le> j" "j < n" "el U (ub + j) = 0"
  shows "Shallow2D_flux FU fb GU gb U ub n st = Inl DivByZero"
proof -
  obtain F0 where F0: "copy_cells U (ub + st) n FU fb = Inr F0" "length F0 = length FU"
    using copy_cells_ok [of "ub + st" n U fb FU] b by auto
  obtain G0 where G0: "copy_cells U (ub + 2 * st) n GU gb = Inr G0" "length G0 = length GU"
    using copy_cells_ok [of "ub + 2 * st" n U gb GU] b by auto
  let ?I = "\<lambda>FG::real list \<times> real list.
      case FG of (F, G) \<Rightarrow> length F = length FU \<and> length G = length GU"
  have "for_range 0 n (flux_cell fb gb U ub st) (F0, G0) = Inl DivByZero"
  proof (rule for_range_fails [where I = ?I and j = j])
    show "?I (F0, G0)" using F0 G0 by simp
  next
    fix i FG
    assume i: "0 \<le> i" "i < n" and I: "?I FG"
    obtain F G where FG: "FG = (F, G)" by (cases FG)
    show "(\<exists>s'. flux_cell fb gb U ub st i FG = Inr s' \<and> ?I s')
            \<or> flux_cell fb gb U ub st i FG = Inl DivByZero"
    proof (cases "el U (ub + i) = 0")
      case True
      then show ?thesis using flux_cell_zero [of ub i n st U fb gb FG] b i by simp
    next
      case False
      then show ?thesis
        using flux_cell_ok [of ub fb gb i n st U F G] b i I FG by auto
    qed
  next
    show "0 \<le> j" "j < n" by fact+
  next
    fix FG
    show "flux_cell fb gb U ub st j FG = Inl DivByZero"
      using flux_cell_zero [of ub j n st U fb gb FG] b z by simp
  qed
  then show ?thesis
    using F0(1) G0(1) by (simp add: Shallow2D_flux_def)
qed

lemma wf_size:
  assumes "wf s"
  shows "0 < nx_all s * ny_all s"
    "int (length (u_vec s)) = 3 * (nx_all s * ny_all s)"
    "int (length (f_vec s)) = 3 * (nx_all s * ny_all s)"
    "int (length (g_vec s)) = 3 * (nx_all s * ny_all s)"
    "int (length (ux_vec s)) = 3 * (nx_all s * ny_all s)"
    "int (length (uy_vec s)) = 3 * (nx_all s * ny_all s)"
    "int (length (fx_vec s)) = 3 * (nx_all s * ny_all s)"
    "int (length (gy_vec s)) = 3 * (nx_all s * ny_all s)"
    "int (length (v_vec s)) = 3 * (nx_all s * ny_all s)"
  using assms by (auto simp: wf_def nghost_def nfield_def)


section \<open>Definedness of the physics\<close>

text \<open>
  C10. \<open>Shallow2D::flux\<close> and \<open>Shallow2D::wave_speed\<close> divide by the height of every
  cell of the run they are given, with no guard, and \<open>compute_fg_speeds\<close> gives them the
  whole padded grid, ghost cells included. If the height is positive at every cell of
  the padded grid, every division and square root is defined and the call returns; if the
  height is zero at some cell of the padded grid, ghost or not, the division by zero is
  reached.
\<close>

theorem C10_positive_height_defined:
  assumes "wf s"
  shows "((\<forall>i. 0 \<le> i \<and> i < nx_all s * ny_all s \<longrightarrow> 0 < el (u_vec s) i)
            \<longrightarrow> (\<exists>s' cx cy. compute_fg_speeds s = Inr (s', cx, cy)))
       \<and> ((\<exists>i. 0 \<le> i \<and> i < nx_all s * ny_all s \<and> el (u_vec s) i = 0)
            \<longrightarrow> compute_fg_speeds s = Inl DivByZero)"
proof (intro conjI impI)
  let ?n = "nx_all s * ny_all s"
  note sz = wf_size [OF assms]
  assume pos: "\<forall>i. 0 \<le> i \<and> i < ?n \<longrightarrow> 0 < el (u_vec s) i"
  then have nz: "\<forall>i. 0 \<le> i \<and> i < ?n \<longrightarrow> el (u_vec s) (0 + i) \<noteq> 0"
    by fastforce
  obtain F G where fl: "Shallow2D_flux (f_vec s) 0 (g_vec s) 0 (u_vec s) 0 ?n ?n = Inr (F, G)"
    using Shallow2D_flux_ok [OF _ _ _ _ _ _ _ _ nz, of 0 0 ?n "f_vec s" "g_vec s"] sz by auto
  obtain cx cy where
    "Shallow2D_wave_speed (1 / 10 ^ 15, 1 / 10 ^ 15) (u_vec s) 0 ?n ?n = Inr (cx, cy)"
    using Shallow2D_wave_speed_ok [of 0 ?n ?n "u_vec s" "1 / 10 ^ 15" "1 / 10 ^ 15"] pos sz(1,2)
    by fastforce
  with fl show "\<exists>s' cx cy. compute_fg_speeds s = Inr (s', cx, cy)"
    by (simp add: compute_fg_speeds_def)
next
  let ?n = "nx_all s * ny_all s"
  note sz = wf_size [OF assms]
  assume "\<exists>i. 0 \<le> i \<and> i < ?n \<and> el (u_vec s) i = 0"
  then obtain j where "0 \<le> j" "j < ?n" "el (u_vec s) (0 + j) = 0" by auto
  then have "Shallow2D_flux (f_vec s) 0 (g_vec s) 0 (u_vec s) 0 ?n ?n = Inl DivByZero"
    using Shallow2D_flux_zero [of 0 0 0 ?n ?n "u_vec s" "f_vec s" "g_vec s" j] sz by auto
  then show "compute_fg_speeds s = Inl DivByZero"
    by (simp add: compute_fg_speeds_def)
qed

theorem C10_positive_height_defined_witness:
  "wf (flat_state 1 1 1) \<and> wf (flat_state 1 1 0)
   \<and> (\<exists>s' cx cy. compute_fg_speeds (flat_state 1 1 1) = Inr (s', cx, cy))
   \<and> (\<exists>i. 0 \<le> i \<and> i < nx_all (flat_state 1 1 0) * ny_all (flat_state 1 1 0)
          \<and> el (u_vec (flat_state 1 1 0)) i = 0)
   \<and> compute_fg_speeds (flat_state 1 1 0) = Inl DivByZero"
proof -
  have w1: "wf (flat_state 1 1 1)" and w0: "wf (flat_state 1 1 0)"
    by (simp_all add: wf_def flat_state_def nghost_def nfield_def)
  have pos: "\<forall>i. 0 \<le> i \<and> i < nx_all (flat_state 1 1 1) * ny_all (flat_state 1 1 1)
          \<longrightarrow> 0 < el (u_vec (flat_state 1 1 1)) i"
    by (auto simp: flat_state_def el_def nth_append)
  have z: "\<exists>i. 0 \<le> i \<and> i < nx_all (flat_state 1 1 0) * ny_all (flat_state 1 1 0)
          \<and> el (u_vec (flat_state 1 1 0)) i = 0"
    by (rule exI [of _ 0]) (simp add: flat_state_def el_def nth_append)
  show ?thesis
    using C10_positive_height_defined [OF w1] C10_positive_height_defined [OF w0] w1 w0 pos z
    by blast
qed

text \<open>Unfolding a loop by one iteration.\<close>

lemma for_range_done: "hi \<le> lo \<Longrightarrow> for_range lo hi body s = Inr s"
  by (simp add: for_range_def)

lemma for_range_next:
  "lo < hi \<Longrightarrow> for_range lo hi body s = rbind (body lo s) (\<lambda>s'. for_range (lo + 1) hi body s')"
  by (simp add: for_range_def upto_rec1 [of lo "hi - 1"] rbind_def split: sum.splits)


section \<open>Limited derivatives\<close>

text \<open>
  C5. The claim: for all positive \<open>Nx\<close> and \<open>Ny\<close>, also different ones, every stencil read
  of \<open>limited_derivs\<close> falls inside the arrays. The loop starts at the flat index
  \<open>ny_all\<close>, while the stencil in \<open>y\<close> reaches \<open>nx_all\<close> back: whenever \<open>Ny < Nx\<close> the first
  iteration reads \<open>u_[ny_all - nx_all]\<close>, a negative index.
\<close>

theorem C5_reads_out_of_bounds:
  assumes "wf s" and "ny s < nx s"
  shows "limited_derivs limdiff s = Inl OutOfBounds"
proof -
  let ?i = "ny_all s"
  note sz = wf_size [OF assms(1)]
  have a: "7 \<le> ny_all s" "7 \<le> nx_all s" "ny_all s < nx_all s"
    using assms by (auto simp: wf_def nghost_def)
  define A where "A = (ny_all s - 1) * nx_all s"
  have "(ny_all s - 1) * 7 \<le> A"
    unfolding A_def using a by (intro mult_left_mono) auto
  then have "7 * ny_all s - 7 \<le> A"
    by simp
  with a have "ny_all s < 3 * A"
    by linarith
  then have lt: "ny_all s < 3 * (ny_all s - 1) * nx_all s"
    by (simp only: A_def mult.assoc)
  define B where "B = nx_all s * ny_all s"
  have "7 * ny_all s \<le> B"
    unfolding B_def using a by (intro mult_right_mono) auto
  then have "?i + 1 < 3 * B"
    using a by linarith
  then have big: "?i + 1 < 3 * (nx_all s * ny_all s)"
    by (simp add: B_def)
  have r: "rd (u_vec s) (?i - 1) = Inr (el (u_vec s) (?i - 1))"
    "rd (u_vec s) ?i = Inr (el (u_vec s) ?i)"
    "rd (u_vec s) (?i + 1) = Inr (el (u_vec s) (?i + 1))"
    "rd (f_vec s) (?i - 1) = Inr (el (f_vec s) (?i - 1))"
    "rd (f_vec s) ?i = Inr (el (f_vec s) ?i)"
    "rd (f_vec s) (?i + 1) = Inr (el (f_vec s) (?i + 1))"
    using a big sz by (auto intro!: rd_Inr)
  have w: "wr (ux_vec s) ?i x = Inr ((ux_vec s)[nat ?i := x])"
    "wr (fx_vec s) ?i x = Inr ((fx_vec s)[nat ?i := x])" for x
    using a big sz by (auto intro!: wr_Inr)
  have bad: "rd (u_vec s) (?i - nx_all s) = Inl OutOfBounds"
    using a by (simp add: rd_def)
  have "limited_derivs_cell limdiff ?i s = Inl OutOfBounds"
    by (simp add: limited_derivs_cell_def r w bad)
  with lt show ?thesis
    by (simp add: limited_derivs_def nfield_def for_range_next)
qed

theorem C5_reads_out_of_bounds_witness: "wf (flat_state 2 1 1) \<and> ny (flat_state 2 1 1) < nx (flat_state 2 1 1)
    \<and> limited_derivs (\<lambda>um u0 up. (up - um) / 2) (flat_state 2 1 1) = Inl OutOfBounds"
proof -
  have w: "wf (flat_state 2 1 1)"
    by (simp add: wf_def flat_state_def nghost_def nfield_def)
  have l: "ny (flat_state 2 1 1) < nx (flat_state 2 1 1)"
    by (simp add: flat_state_def)
  show ?thesis
    using C5_reads_out_of_bounds [OF w l, of "\<lambda>um u0 up. (up - um) / 2"] w l by simp
qed

lemma pair_unique:
  fixes a b a' b' N :: int
  assumes "0 \<le> b" "b < N" "0 \<le> b'" "b' < N" "a * N + b = a' * N + b'"
  shows "a = a' \<and> b = b'"
proof -
  have N: "N \<noteq> 0" using assms by auto
  have "(a * N + b) div N = a + b div N" "(a' * N + b') div N = a' + b' div N"
    using N by simp_all
  moreover have "b div N = 0" "b' div N = 0"
    using assms by (simp_all add: div_pos_pos_trivial)
  ultimately have "a = a'" using assms(5) by simp
  with assms(5) show ?thesis by simp
qed

lemma offset_bounds:
  assumes "wf s" "0 \<le> k" "k < 3" "0 \<le> ix" "ix < nx_all s" "0 \<le> iy" "iy < ny_all s"
  shows "0 \<le> offset s k ix iy" "offset s k ix iy < 3 * (nx_all s * ny_all s)"
proof -
  define r where "r = k * ny_all s + iy"
  have k: "0 \<le> k * ny_all s" "k * ny_all s \<le> 2 * ny_all s"
    using assms by (auto intro!: mult_right_mono)
  have r: "0 \<le> r" "r + 1 \<le> 3 * ny_all s"
    unfolding r_def using k assms(6,7) by linarith+
  have nxp: "0 < nx_all s" using assms by simp
  have "0 \<le> r * nx_all s" using r nxp by simp
  then show "0 \<le> offset s k ix iy"
    using assms by (simp add: offset_def r_def)
  have "(r + 1) * nx_all s \<le> (3 * ny_all s) * nx_all s"
    using r nxp by (intro mult_right_mono) auto
  then have "r * nx_all s + nx_all s \<le> 3 * (nx_all s * ny_all s)"
    by (simp add: algebra_simps)
  then show "offset s k ix iy < 3 * (nx_all s * ny_all s)"
    using assms by (simp add: offset_def r_def)
qed

lemma offset_inj:
  assumes "0 \<le> ix" "ix < nx_all s" "0 \<le> iy" "iy < ny_all s"
    "0 \<le> ix'" "ix' < nx_all s" "0 \<le> iy'" "iy' < ny_all s"
    "offset s k ix iy = offset s k' ix' iy'"
  shows "k = k' \<and> ix = ix' \<and> iy = iy'"
proof -
  have "k * ny_all s + iy = k' * ny_all s + iy' \<and> ix = ix'"
    using assms by (intro pair_unique [of ix "nx_all s" ix']) (auto simp: offset_def)
  moreover from this have "k = k' \<and> iy = iy'"
    using assms by (intro pair_unique [of iy "ny_all s" iy']) auto
  ultimately show ?thesis by simp
qed

lemma c_rem_nonneg: "0 \<le> a \<Longrightarrow> 0 < b \<Longrightarrow> c_rem a b = a mod b"
  by (cases "a = 0") (simp_all add: c_rem_def)

lemma wrap_canon:
  assumes "0 < n" "n \<noteq> 2" "0 \<le> c"
  shows "c_rem (c + n - nghost) n + nghost = canon n c"
proof (cases "n = 1")
  case True
  then show ?thesis by (simp add: c_rem_def canon_def)
next
  case False
  with assms have "0 \<le> c + n - nghost" by (simp add: nghost_def)
  then show ?thesis
    using assms(1) by (simp add: c_rem_nonneg canon_def algebra_simps)
qed

lemma canon_range: "0 < n \<Longrightarrow> nghost \<le> canon n c \<and> canon n c < n + nghost"
  by (simp add: canon_def)

lemma canon_interior: "0 < n \<Longrightarrow> nghost \<le> c \<Longrightarrow> c < n + nghost \<Longrightarrow> canon n c = c"
  by (simp add: canon_def nghost_def mod_pos_pos_trivial)

lemma wrap_range:
  assumes "0 < n" "0 \<le> c"
  shows "0 \<le> c_rem (c + n - nghost) n + nghost" "c_rem (c + n - nghost) n + nghost < n + 2 * nghost"
proof -
  let ?a = "c + n - nghost"
  have m: "0 \<le> \<bar>?a\<bar> mod \<bar>n\<bar>" "\<bar>?a\<bar> mod \<bar>n\<bar> < n"
    using assms by simp_all
  have up: "c_rem ?a n \<le> \<bar>?a\<bar> mod \<bar>n\<bar>"
    using m by (cases "?a" "0::int" rule: linorder_cases) (simp_all add: c_rem_def)
  then show "c_rem ?a n + nghost < n + 2 * nghost"
    using m by (simp add: nghost_def)
  show "0 \<le> c_rem ?a n + nghost"
  proof (cases "0 \<le> ?a")
    case True
    then show ?thesis using assms by (simp add: c_rem_nonneg nghost_def)
  next
    case False
    then have "n \<le> 2" using assms by (simp add: nghost_def)
    with m have "\<bar>?a\<bar> mod \<bar>n\<bar> \<le> 1" by simp
    moreover have "c_rem ?a n = - (\<bar>?a\<bar> mod \<bar>n\<bar>)"
      using False by (simp add: c_rem_def)
    ultimately show ?thesis by (simp add: nghost_def)
  qed
qed

lemma periodic_cell_ok:
  assumes "wf s" "length U = length (u_vec s)"
    "0 \<le> k" "k < 3" "0 \<le> ix" "ix < nx_all s" "0 \<le> iy" "iy < ny_all s"
  shows "periodic_cell k ix iy (s\<lparr>u_vec := U\<rparr>)
         = Inr (s\<lparr>u_vec := U[nat (offset s k ix iy) := el U (ioffset s k ix iy)]\<rparr>)"
proof -
  have all: "nx_all s = nx s + 2 * nghost" "ny_all s = ny s + 2 * nghost" "0 < nx s" "0 < ny s"
    using assms(1) by (auto simp: wf_def)
  let ?wx = "c_rem (ix + nx s - nghost) (nx s) + nghost"
  let ?wy = "c_rem (iy + ny s - nghost) (ny s) + nghost"
  have wx: "0 \<le> ?wx" "?wx < nx_all s"
    using wrap_range [of "nx s" ix] all assms by auto
  have wy: "0 \<le> ?wy" "?wy < ny_all s"
    using wrap_range [of "ny s" iy] all assms by auto
  have io: "ioffset (s\<lparr>u_vec := U\<rparr>) k ix iy = offset s k ?wx ?wy" "ioffset s k ix iy = offset s k ?wx ?wy"
    "offset (s\<lparr>u_vec := U\<rparr>) k ix iy = offset s k ix iy"
    by (simp_all add: ioffset_def offset_def)
  note sz = wf_size [OF assms(1)]
  have b1: "0 \<le> offset s k ?wx ?wy" "offset s k ?wx ?wy < int (length U)"
    using offset_bounds [OF assms(1,3,4) wx wy] assms(2) sz by auto
  have b2: "0 \<le> offset s k ix iy" "offset s k ix iy < int (length U)"
    using offset_bounds [OF assms(1,3-8)] assms(2) sz by auto
  show ?thesis
    unfolding periodic_cell_def io using b1 b2 by (simp add: rd_Inr wr_Inr)
qed

lemma periodic_inv_step:
  assumes wf: "wf s0" and n2: "nx s0 \<noteq> 2" "ny s0 \<noteq> 2"
    and inv: "periodic_inv s0 S s"
    and c: "padded s0 k ix iy" "\<not> interior s0 ix iy"
  shows "\<exists>s'. periodic_cell k ix iy s = Inr s' \<and> periodic_inv s0 (S \<union> {(k, ix, iy)}) s'"
proof -
  from inv obtain U where U: "s = s0\<lparr>u_vec := U\<rparr>" "length U = length (u_vec s0)"
    and keep: "\<And>k ix iy. padded s0 k ix iy \<Longrightarrow> interior s0 ix iy
              \<Longrightarrow> el U (offset s0 k ix iy) = el (u_vec s0) (offset s0 k ix iy)"
    and dn: "\<And>k ix iy. (k, ix, iy) \<in> S \<Longrightarrow> padded s0 k ix iy
              \<and> el U (offset s0 k ix iy)
                  = el (u_vec s0) (offset s0 k (canon (nx s0) ix) (canon (ny s0) iy))"
    unfolding periodic_inv_def by fast
  have all: "nx_all s0 = nx s0 + 2 * nghost" "ny_all s0 = ny s0 + 2 * nghost" "0 < nx s0" "0 < ny s0"
    using wf by (auto simp: wf_def)
  have kb: "0 \<le> k" "k < 3" "0 \<le> ix" "ix < nx_all s0" "0 \<le> iy" "iy < ny_all s0"
    using c(1) by (auto simp: padded_def nfield_def)
  let ?cx = "canon (nx s0) ix" and ?cy = "canon (ny s0) iy"
  let ?o = "offset s0 k ix iy"
  let ?U' = "U[nat ?o := el U (ioffset s0 k ix iy)]"
  have step: "periodic_cell k ix iy s = Inr (s0\<lparr>u_vec := ?U'\<rparr>)"
    unfolding U(1) by (rule periodic_cell_ok [OF wf U(2) kb])
  have io: "ioffset s0 k ix iy = offset s0 k ?cx ?cy"
    using wrap_canon [of "nx s0" ix] wrap_canon [of "ny s0" iy] all n2 kb
    by (simp add: ioffset_def)
  have cr: "nghost \<le> ?cx" "?cx < nx s0 + nghost" "nghost \<le> ?cy" "?cy < ny s0 + nghost"
    using canon_range [of "nx s0" ix] canon_range [of "ny s0" iy] all by auto
  then have cint: "interior s0 ?cx ?cy" "padded s0 k ?cx ?cy"
    using kb all by (auto simp: interior_def padded_def nghost_def nfield_def)
  have val: "el U (ioffset s0 k ix iy) = el (u_vec s0) (offset s0 k ?cx ?cy)"
    unfolding io using keep [OF cint(2,1)] .
  note sz = wf_size [OF wf]
  have ob: "0 \<le> ?o" "?o < int (length U)"
    using offset_bounds [OF wf kb] U(2) sz by auto
  have other: "el ?U' (offset s0 k' ix' iy') = el U (offset s0 k' ix' iy')"
    if "padded s0 k' ix' iy'" "(k', ix', iy') \<noteq> (k, ix, iy)" for k' ix' iy'
  proof -
    have "offset s0 k' ix' iy' \<noteq> ?o"
      using offset_inj [of ix' s0 iy' ix iy k' k] that kb by (auto simp: padded_def)
    moreover have "0 \<le> offset s0 k' ix' iy'"
      using offset_bounds(1) [OF wf, of k' ix' iy'] that(1) by (simp add: padded_def nfield_def)
    ultimately show ?thesis
      using ob by (simp add: el_update)
  qed
  have same: "el ?U' ?o = el (u_vec s0) (offset s0 k ?cx ?cy)"
    using ob val by (simp add: el_update)
  have "periodic_inv s0 (S \<union> {(k, ix, iy)}) (s0\<lparr>u_vec := ?U'\<rparr>)"
    unfolding periodic_inv_def
  proof (intro exI [of _ ?U'] conjI allI impI ballI)
    show "s0\<lparr>u_vec := ?U'\<rparr> = s0\<lparr>u_vec := ?U'\<rparr>" by simp
    show "length ?U' = length (u_vec s0)" using U(2) by simp
  next
    fix k' ix' iy'
    assume a: "padded s0 k' ix' iy' \<and> interior s0 ix' iy'"
    then have "(k', ix', iy') \<noteq> (k, ix, iy)" using c(2) by auto
    then show "el ?U' (offset s0 k' ix' iy') = el (u_vec s0) (offset s0 k' ix' iy')"
      using other [of k' ix' iy'] keep [of k' ix' iy'] a by simp
  next
    fix c'
    assume c': "c' \<in> S \<union> {(k, ix, iy)}"
    obtain k' ix' iy' where e: "c' = (k', ix', iy')" by (cases c') auto
    show "case c' of (k, ix, iy) \<Rightarrow> padded s0 k ix iy
              \<and> el ?U' (offset s0 k ix iy)
                  = el (u_vec s0) (offset s0 k (canon (nx s0) ix) (canon (ny s0) iy))"
    proof (cases "c' = (k, ix, iy)")
      case True
      then show ?thesis using same c(1) by simp
    next
      case False
      then have "(k', ix', iy') \<in> S" using c' e by auto
      from dn [OF this] other [of k' ix' iy'] False e show ?thesis by simp
    qed
  qed
  with step show ?thesis by blast
qed

lemma periodic_inv_grid:
  assumes "periodic_inv s0 S s"
  shows "nx s = nx s0" "ny s = ny s0" "nx_all s = nx_all s0" "ny_all s = ny_all s0"
  using assms by (auto simp: periodic_inv_def)

lemma periodic_cols_step:
  assumes wf: "wf s0" and n2: "nx s0 \<noteq> 2" "ny s0 \<noteq> 2"
    and inv: "periodic_inv s0 S s"
    and r: "0 \<le> k" "k < nfield" "0 \<le> iy" "iy < ny_all s0" "0 \<le> ix" "ix < nghost"
  shows "\<exists>s'. rbind (periodic_cell k ix iy s) (periodic_cell k (nx s + nghost + ix) iy) = Inr s'
           \<and> periodic_inv s0 (S \<union> cols_written s0 k iy ix) s'"
proof -
  have all: "nx_all s0 = nx s0 + 2 * nghost" "0 < nx s0"
    using wf by (auto simp: wf_def)
  have c1: "padded s0 k ix iy" "\<not> interior s0 ix iy"
    using r all by (auto simp: padded_def interior_def nghost_def)
  have c2: "padded s0 k (nx s0 + nghost + ix) iy" "\<not> interior s0 (nx s0 + nghost + ix) iy"
    using r all by (auto simp: padded_def interior_def nghost_def)
  obtain s1 where s1: "periodic_cell k ix iy s = Inr s1" "periodic_inv s0 (S \<union> {(k, ix, iy)}) s1"
    using periodic_inv_step [OF wf n2 inv c1] by blast
  obtain s2 where s2: "periodic_cell k (nx s0 + nghost + ix) iy s1 = Inr s2"
      "periodic_inv s0 (S \<union> {(k, ix, iy)} \<union> {(k, nx s0 + nghost + ix, iy)}) s2"
    using periodic_inv_step [OF wf n2 s1(2) c2] by blast
  have "S \<union> {(k, ix, iy)} \<union> {(k, nx s0 + nghost + ix, iy)} = S \<union> cols_written s0 k iy ix"
    by (auto simp: cols_written_def)
  with s1 s2 show ?thesis
    by (simp add: periodic_inv_grid [OF inv])
qed

lemma periodic_rows_step:
  assumes wf: "wf s0" and n2: "nx s0 \<noteq> 2" "ny s0 \<noteq> 2"
    and inv: "periodic_inv s0 S s"
    and r: "0 \<le> k" "k < nfield" "0 \<le> iy" "iy < nghost" "0 \<le> ix" "ix < nx_all s0"
  shows "\<exists>s'. rbind (periodic_cell k ix iy s) (periodic_cell k ix (ny s + nghost + iy)) = Inr s'
           \<and> periodic_inv s0 (S \<union> rows_written s0 k iy ix) s'"
proof -
  have all: "ny_all s0 = ny s0 + 2 * nghost" "0 < ny s0"
    using wf by (auto simp: wf_def)
  have c1: "padded s0 k ix iy" "\<not> interior s0 ix iy"
    using r all by (auto simp: padded_def interior_def nghost_def)
  have c2: "padded s0 k ix (ny s0 + nghost + iy)" "\<not> interior s0 ix (ny s0 + nghost + iy)"
    using r all by (auto simp: padded_def interior_def nghost_def)
  obtain s1 where s1: "periodic_cell k ix iy s = Inr s1" "periodic_inv s0 (S \<union> {(k, ix, iy)}) s1"
    using periodic_inv_step [OF wf n2 inv c1] by blast
  obtain s2 where s2: "periodic_cell k ix (ny s0 + nghost + iy) s1 = Inr s2"
      "periodic_inv s0 (S \<union> {(k, ix, iy)} \<union> {(k, ix, ny s0 + nghost + iy)}) s2"
    using periodic_inv_step [OF wf n2 s1(2) c2] by blast
  have "S \<union> {(k, ix, iy)} \<union> {(k, ix, ny s0 + nghost + iy)} = S \<union> rows_written s0 k iy ix"
    by (auto simp: rows_written_def)
  with s1 s2 show ?thesis
    by (simp add: periodic_inv_grid [OF inv])
qed

lemma periodic_field_step:
  assumes wf: "wf s0" and n2: "nx s0 \<noteq> 2" "ny s0 \<noteq> 2"
    and inv: "periodic_inv s0 S s"
    and r: "0 \<le> k" "k < nfield"
  shows "\<exists>s'. rbind (for_range 0 (ny_all s) (\<lambda>iy.
                for_range 0 nghost (\<lambda>ix s.
                  rbind (periodic_cell k ix iy s)
                        (periodic_cell k (nx s + nghost + ix) iy))) s)
             (for_range 0 nghost (\<lambda>iy s.
                for_range 0 (nx_all s) (\<lambda>ix s.
                  rbind (periodic_cell k ix iy s)
                        (periodic_cell k ix (ny s + nghost + iy))) s)) = Inr s'
           \<and> periodic_inv s0 (S \<union> field_written s0 k) s'"
proof -
  let ?A = "\<Union>iy\<in>{0..<ny_all s0}. \<Union>ix\<in>{0..<nghost}. cols_written s0 k iy ix"
  let ?B = "\<Union>iy\<in>{0..<nghost}. \<Union>ix\<in>{0..<nx_all s0}. rows_written s0 k iy ix"
  have "\<exists>s1. for_range 0 (ny_all s0) (\<lambda>iy.
                for_range 0 nghost (\<lambda>ix s.
                  rbind (periodic_cell k ix iy s)
                        (periodic_cell k (nx s + nghost + ix) iy))) s = Inr s1
          \<and> periodic_inv s0 (S \<union> ?A) s1"
  proof (rule for_range_rule [where I = "periodic_inv s0", OF inv])
    fix iy S' s'
    assume iy: "0 \<le> iy" "iy < ny_all s0" and inv': "periodic_inv s0 S' s'"
    show "\<exists>s''. for_range 0 nghost (\<lambda>ix s.
                  rbind (periodic_cell k ix iy s)
                        (periodic_cell k (nx s + nghost + ix) iy)) s' = Inr s''
          \<and> periodic_inv s0 (S' \<union> (\<Union>ix\<in>{0..<nghost}. cols_written s0 k iy ix)) s''"
      by (rule for_range_rule [where I = "periodic_inv s0", OF inv'])
        (rule periodic_cols_step [OF wf n2 _ r iy])
  qed
  then obtain s1 where s1: "for_range 0 (ny_all s0) (\<lambda>iy.
                for_range 0 nghost (\<lambda>ix s.
                  rbind (periodic_cell k ix iy s)
                        (periodic_cell k (nx s + nghost + ix) iy))) s = Inr s1"
      "periodic_inv s0 (S \<union> ?A) s1"
    by blast
  have "\<exists>s2. for_range 0 nghost (\<lambda>iy s.
                for_range 0 (nx_all s) (\<lambda>ix s.
                  rbind (periodic_cell k ix iy s)
                        (periodic_cell k ix (ny s + nghost + iy))) s) s1 = Inr s2
          \<and> periodic_inv s0 (S \<union> ?A \<union> ?B) s2"
  proof (rule for_range_rule [where I = "periodic_inv s0", OF s1(2)])
    fix iy S' s'
    assume iy: "0 \<le> iy" "iy < nghost" and inv': "periodic_inv s0 S' s'"
    have "\<exists>s''. for_range 0 (nx_all s0) (\<lambda>ix s.
                  rbind (periodic_cell k ix iy s)
                        (periodic_cell k ix (ny s + nghost + iy))) s' = Inr s''
          \<and> periodic_inv s0 (S' \<union> (\<Union>ix\<in>{0..<nx_all s0}. rows_written s0 k iy ix)) s''"
      by (rule for_range_rule [where I = "periodic_inv s0", OF inv'])
        (rule periodic_rows_step [OF wf n2 _ r iy])
    then show "\<exists>s''. for_range 0 (nx_all s') (\<lambda>ix s.
                  rbind (periodic_cell k ix iy s)
                        (periodic_cell k ix (ny s + nghost + iy))) s' = Inr s''
          \<and> periodic_inv s0 (S' \<union> (\<Union>ix\<in>{0..<nx_all s0}. rows_written s0 k iy ix)) s''"
      by (simp add: periodic_inv_grid [OF inv'])
  qed
  then show ?thesis
    using s1(1) by (simp add: periodic_inv_grid [OF inv] field_written_def Un_assoc)
qed

lemma apply_periodic_inv:
  assumes wf: "wf s0" and n2: "nx s0 \<noteq> 2" "ny s0 \<noteq> 2"
  shows "\<exists>s'. apply_periodic s0 = Inr s'
           \<and> periodic_inv s0 ({} \<union> (\<Union>k\<in>{0..<nfield}. field_written s0 k)) s'"
  unfolding apply_periodic_def
proof (rule for_range_rule [where I = "periodic_inv s0"])
  show "periodic_inv s0 {} s0"
    unfolding periodic_inv_def by (rule exI [of _ "u_vec s0"]) simp
next
  fix k S s
  assume "0 \<le> k" "k < nfield" "periodic_inv s0 S s"
  then show "\<exists>s'. rbind (for_range 0 (ny_all s) (\<lambda>iy.
                for_range 0 nghost (\<lambda>ix s.
                  rbind (periodic_cell k ix iy s)
                        (periodic_cell k (nx s + nghost + ix) iy))) s)
             (for_range 0 nghost (\<lambda>iy s.
                for_range 0 (nx_all s) (\<lambda>ix s.
                  rbind (periodic_cell k ix iy s)
                        (periodic_cell k ix (ny s + nghost + iy))) s)) = Inr s'
           \<and> periodic_inv s0 (S \<union> field_written s0 k) s'"
    by (intro periodic_field_step [OF wf n2])
qed

lemma for_range_counted:
  assumes "I lo s" and "lo \<le> hi"
    and "\<And>i s. lo \<le> i \<Longrightarrow> i < hi \<Longrightarrow> I i s \<Longrightarrow> \<exists>s'. body i s = Inr s' \<and> I (i + 1) s'"
  shows "\<exists>s'. for_range lo hi body s = Inr s' \<and> I hi s'"
  using assms
proof (induction "nat (hi - lo)" arbitrary: lo s)
  case 0
  then have "lo = hi" by simp
  with "0.prems"(1) show ?case by (simp add: for_range_done)
next
  case (Suc n)
  then have lt: "lo < hi" by simp
  from Suc.prems(3) [OF _ lt Suc.prems(1)] obtain s1
    where s1: "body lo s = Inr s1" "I (lo + 1) s1" by auto
  have "\<exists>s'. for_range (lo + 1) hi body s1 = Inr s' \<and> I hi s'"
  proof (rule Suc.hyps(1))
    show "n = nat (hi - (lo + 1))" using Suc.hyps(2) by simp
    show "I (lo + 1) s1" by fact
    show "lo + 1 \<le> hi" using lt by simp
    show "\<exists>s'. body i s = Inr s' \<and> I (i + 1) s'" if "lo + 1 \<le> i" "i < hi" "I i s" for i s
      using Suc.prems(3) [of i s] that by simp
  qed
  then show ?case
    using lt s1(1) by (simp add: for_range_next)
qed

lemma periodic_cell_keeps:
  assumes "wf s0" "length U = length (u_vec s0)" "padded s0 k ix iy"
  shows "\<exists>U'. periodic_cell k ix iy (s0\<lparr>u_vec := U\<rparr>) = Inr (s0\<lparr>u_vec := U'\<rparr>)
           \<and> length U' = length U
           \<and> (\<forall>j. 0 \<le> j \<and> j \<noteq> offset s0 k ix iy \<longrightarrow> el U' j = el U j)
           \<and> el U' (offset s0 k ix iy) = el U (ioffset s0 k ix iy)"
proof -
  have kb: "0 \<le> k" "k < 3" "0 \<le> ix" "ix < nx_all s0" "0 \<le> iy" "iy < ny_all s0"
    using assms(3) by (auto simp: padded_def nfield_def)
  note sz = wf_size [OF assms(1)]
  have ob: "0 \<le> offset s0 k ix iy" "offset s0 k ix iy < int (length U)"
    using offset_bounds [OF assms(1) kb] assms(2) sz by auto
  show ?thesis
    unfolding periodic_cell_ok [OF assms(1,2) kb]
    using ob by (auto simp: el_update)
qed

lemma holds3_grid:
  assumes "holds3 s0 a b c s"
  shows "nx s = nx s0" "ny s = ny s0" "nx_all s = nx_all s0" "ny_all s = ny_all s0"
  using assms by (auto simp: holds3_def)

lemma holds3_cell:
  assumes wf: "wf s0" and h: "holds3 s0 a b c s" and p: "padded s0 k ix iy"
    and o: "offset s0 k ix iy \<noteq> 24" "offset s0 k ix iy \<noteq> 26" "offset s0 k ix iy \<noteq> 28"
  shows "\<exists>s'. periodic_cell k ix iy s = Inr s' \<and> holds3 s0 a b c s'"
proof -
  from h obtain U where U: "s = s0\<lparr>u_vec := U\<rparr>" "length U = length (u_vec s0)"
      "el U 24 = a" "el U 26 = b" "el U 28 = c"
    by (auto simp: holds3_def)
  from periodic_cell_keeps [OF wf U(2) p] obtain U' where
    U': "periodic_cell k ix iy (s0\<lparr>u_vec := U\<rparr>) = Inr (s0\<lparr>u_vec := U'\<rparr>)"
      "length U' = length U" "\<forall>j. 0 \<le> j \<and> j \<noteq> offset s0 k ix iy \<longrightarrow> el U' j = el U j"
    by blast
  have "el U' 24 = a" "el U' 26 = b" "el U' 28 = c"
    using U' o U(3-5) by auto
  then have "holds3 s0 a b c (s0\<lparr>u_vec := U'\<rparr>)"
    using U'(2) U(2) by (auto simp: holds3_def)
  with U'(1) U(1) show ?thesis by auto
qed

lemma holds3_two_cells:
  assumes wf: "wf s0" and h: "holds3 s0 a b c s"
    and p: "padded s0 k ix iy" "padded s0 k ix' iy'"
    and o: "offset s0 k ix iy \<notin> {24, 26, 28}" "offset s0 k ix' iy' \<notin> {24, 26, 28}"
  shows "\<exists>s'. rbind (periodic_cell k ix iy s) (periodic_cell k ix' iy') = Inr s' \<and> holds3 s0 a b c s'"
proof -
  obtain s1 where s1: "periodic_cell k ix iy s = Inr s1" "holds3 s0 a b c s1"
    using holds3_cell [OF wf h p(1)] o(1) by auto
  obtain s2 where "periodic_cell k ix' iy' s1 = Inr s2" "holds3 s0 a b c s2"
    using holds3_cell [OF wf s1(2) p(2)] o(2) by auto
  with s1(1) show ?thesis by simp
qed

lemma el_list_update:
  "0 \<le> j \<Longrightarrow> el (xs[n := x]) j = (if n = nat j \<and> n < length xs then x else el xs j)"
  by (cases "n < length xs") (auto simp: el_def list_update_beyond)

lemma rbind_weak_cong: "m = m' \<Longrightarrow> rbind m f = rbind m' f"
  by simp

lemma for_range_weak_cong:
  "lo = lo' \<Longrightarrow> hi = hi' \<Longrightarrow> s = s' \<Longrightarrow> for_range lo hi body s = for_range lo' hi' body s'"
  by simp

lemma c_rem_numeral [simp]:
  "c_rem (numeral a) (numeral b) = numeral a mod numeral b"
  "c_rem (- numeral a) (numeral b) = - (numeral a mod numeral b)"
  "c_rem 0 y = 0"
  "c_rem 1 (numeral b) = 1 mod numeral b"
  "c_rem (- 1) (numeral b) = - (1 mod numeral b)"
  "c_rem x 1 = 0"
  by (simp_all add: c_rem_def)

lemma ex_u_vec_update:
  "(\<exists>U'. s\<lparr>u_vec := A\<rparr> = s\<lparr>u_vec := U'\<rparr> \<and> P U') \<longleftrightarrow> P A"
proof
  assume "\<exists>U'. s\<lparr>u_vec := A\<rparr> = s\<lparr>u_vec := U'\<rparr> \<and> P U'"
  then obtain U' where e: "s\<lparr>u_vec := A\<rparr> = s\<lparr>u_vec := U'\<rparr>" and p: "P U'" by blast
  from e have "u_vec (s\<lparr>u_vec := A\<rparr>) = u_vec (s\<lparr>u_vec := U'\<rparr>)" by simp
  then show "P A" using p by simp
next
  assume "P A"
  then show "\<exists>U'. s\<lparr>u_vec := A\<rparr> = s\<lparr>u_vec := U'\<rparr> \<and> P U'" by blast
qed

lemma periodic_2x1:
  assumes wf: "wf s" and d: "nx s = 2" "ny s = 1"
  shows "\<exists>s'. apply_periodic s = Inr s'
           \<and> holds3 s (el (u_vec s) 26) (el (u_vec s) 28) (el (u_vec s) 28) s'"
proof -
  have a: "nx_all s = 8" "ny_all s = 7" "length (u_vec s) = 168"
    using wf d by (auto simp: wf_def nghost_def nfield_def)
  let ?a = "el (u_vec s) 24" and ?b = "el (u_vec s) 26" and ?c = "el (u_vec s) 28"
  let ?colsbody = "\<lambda>k iy ix s. rbind (periodic_cell k ix iy s) (periodic_cell k (nx s + nghost + ix) iy)"
  let ?rowsbody = "\<lambda>k iy ix s. rbind (periodic_cell k ix iy s) (periodic_cell k ix (ny s + nghost + iy))"
  \<comment> \<open>a pair of cells away from row 3 of field 0\<close>
  have cols_frame: "\<exists>s''. for_range 0 nghost (?colsbody k iy) s' = Inr s'' \<and> holds3 s x y z s''"
    if pre: "holds3 s x y z s'" "0 \<le> k" "k < 3" "0 \<le> iy" "iy < 7" "k \<noteq> 0 \<or> iy \<noteq> 3" for k iy s' x y z
  proof (rule for_range_inv [where I = "holds3 s x y z", OF pre(1)])
    fix ix t
    assume ix: "0 \<le> ix" "ix < nghost" and h: "holds3 s x y z t"
    have p: "padded s k ix iy" "padded s k (nx s + nghost + ix) iy"
      using pre ix by (auto simp: padded_def a d nghost_def nfield_def)
    have ix3: "ix < 3" using ix by (simp add: nghost_def)
    consider "k = 0" "iy \<le> 2" | "k = 0" "4 \<le> iy" | "1 \<le> k"
      using pre(2,6) by force
    then have "(k * 7 + iy) * 8 \<le> 16 \<or> 32 \<le> (k * 7 + iy) * 8"
      by cases (use pre(2,4,5) in auto)
    then have "(k * 7 + iy) * 8 + ix \<notin> {24, 26, 28}" "(k * 7 + iy) * 8 + (2 + 3 + ix) \<notin> {24, 26, 28}"
      using ix(1) ix3 by auto
    then have o: "offset s k ix iy \<notin> {24, 26, 28}" "offset s k (nx s + nghost + ix) iy \<notin> {24, 26, 28}"
      by (simp_all add: offset_def a d nghost_def)
    show "\<exists>s'. ?colsbody k iy ix t = Inr s' \<and> holds3 s x y z s'"
      using holds3_two_cells [OF wf h p o] by (simp add: holds3_grid [OF h])
  qed
  have rows_frame: "\<exists>s''. for_range 0 (nx_all s') (?rowsbody k iy) s' = Inr s'' \<and> holds3 s x y z s''"
    if pre: "holds3 s x y z s'" "0 \<le> k" "k < 3" "0 \<le> iy" "iy < nghost" for k iy s' x y z
    unfolding holds3_grid [OF pre(1)]
  proof (rule for_range_inv [where I = "holds3 s x y z", OF pre(1)])
    fix ix t
    assume ix: "0 \<le> ix" "ix < nx_all s" and h: "holds3 s x y z t"
    have p: "padded s k ix iy" "padded s k ix (ny s + nghost + iy)"
      using pre ix by (auto simp: padded_def a d nghost_def nfield_def)
    have r: "iy < 3" "ix < 8" using pre(5) ix by (simp_all add: nghost_def a)
    consider "k = 0" | "1 \<le> k"
      using pre(2) by force
    then have "(k * 7 + iy) * 8 + ix < 24 \<or> 56 \<le> (k * 7 + iy) * 8 + ix"
        "32 \<le> (k * 7 + (1 + 3 + iy)) * 8 + ix"
      by cases (use pre(2,4) r ix(1) in auto)
    then have "(k * 7 + iy) * 8 + ix \<notin> {24, 26, 28}" "(k * 7 + (1 + 3 + iy)) * 8 + ix \<notin> {24, 26, 28}"
      by auto
    then have o: "offset s k ix iy \<notin> {24, 26, 28}" "offset s k ix (ny s + nghost + iy) \<notin> {24, 26, 28}"
      by (simp_all add: offset_def a d nghost_def)
    show "\<exists>s'. ?rowsbody k iy ix t = Inr s' \<and> holds3 s x y z s'"
      using holds3_two_cells [OF wf h p o] by (simp add: holds3_grid [OF h])
  qed
  \<comment> \<open>row 3 of field 0, cell by cell\<close>
  have row3: "\<exists>s''. for_range 0 nghost (?colsbody 0 3) s' = Inr s'' \<and> holds3 s y z z s''"
    if "holds3 s x y z s'" for s' x y z
  proof -
    from that obtain U where U: "s' = s\<lparr>u_vec := U\<rparr>" "length U = 168"
      "el U 24 = x" "el U 26 = y" "el U 28 = z"
      by (auto simp: holds3_def a)
    have "\<exists>U'. for_range 0 nghost (?colsbody 0 3) (s\<lparr>u_vec := U\<rparr>) = Inr (s\<lparr>u_vec := U'\<rparr>)
            \<and> length U' = 168 \<and> el U' 24 = el U 26 \<and> el U' 26 = el U 28 \<and> el U' 28 = el U 28"
      by (simp add: for_range_next for_range_done nghost_def periodic_cell_ok wf a d U(2)
          offset_def ioffset_def el_list_update ex_u_vec_update
          cong: rbind_weak_cong for_range_weak_cong)
    then show ?thesis
      using U by (auto simp: holds3_def a)
  qed
  \<comment> \<open>the columns of field \<open>k\<close>\<close>
  let ?I = "\<lambda>k (iy::int) s'. if k = 0 \<and> iy \<le> 3 then holds3 s ?a ?b ?c s' else holds3 s ?b ?c ?c s'"
  have grid: "ny_all s' = 7 \<and> nx s' = 2" if "holds3 s x y z s'" for x y z s'
    using holds3_grid [OF that] a d by simp
  have cols: "\<exists>s''. for_range 0 (ny_all s') (\<lambda>iy. for_range 0 nghost (?colsbody k iy)) s' = Inr s''
                  \<and> holds3 s ?b ?c ?c s''"
    if "?I k 0 s'" "0 \<le> k" "k < 3" for k s'
  proof -
    have g: "ny_all s' = 7" using that(1) grid by (auto split: if_splits)
    have "\<exists>s''. for_range 0 7 (\<lambda>iy. for_range 0 nghost (?colsbody k iy)) s' = Inr s'' \<and> ?I k 7 s''"
    proof (rule for_range_counted [where I = "?I k"])
      show "?I k 0 s'" by fact
      show "(0::int) \<le> 7" by simp
    next
      fix iy t
      assume iy: "0 \<le> iy" "iy < 7" and I: "?I k iy t"
      show "\<exists>s'. for_range 0 nghost (?colsbody k iy) t = Inr s' \<and> ?I k (iy + 1) s'"
      proof (cases "k = 0 \<and> iy = 3")
        case True
        then show ?thesis using row3 [of ?a ?b ?c t] I by simp
      next
        case False
        then have ne: "k \<noteq> 0 \<or> iy \<noteq> 3" by auto
        show ?thesis
        proof (cases "k = 0 \<and> iy \<le> 3")
          case True
          with False have lt: "k = 0 \<and> iy + 1 \<le> 3" by auto
          from True I have "holds3 s ?a ?b ?c t" by simp
          from cols_frame [OF this that(2,3) iy ne] obtain t' where
            t': "for_range 0 nghost (?colsbody k iy) t = Inr t'" "holds3 s ?a ?b ?c t'" by blast
          from t'(2) lt have "?I k (iy + 1) t'" by simp
          with t'(1) show ?thesis by blast
        next
          case F2: False
          then have nlt: "\<not> (k = 0 \<and> iy + 1 \<le> 3)" by auto
          from F2 I have "holds3 s ?b ?c ?c t" by simp
          from cols_frame [OF this that(2,3) iy ne] obtain t' where
            t': "for_range 0 nghost (?colsbody k iy) t = Inr t'" "holds3 s ?b ?c ?c t'" by blast
          from t'(2) nlt have "?I k (iy + 1) t'" by auto
          with t'(1) show ?thesis by blast
        qed
      qed
    qed
    then show ?thesis by (simp add: g)
  qed
  have rows: "\<exists>s''. for_range 0 nghost (\<lambda>iy s. for_range 0 (nx_all s) (?rowsbody k iy) s) s' = Inr s''
                  \<and> holds3 s ?b ?c ?c s''"
    if "holds3 s ?b ?c ?c s'" "0 \<le> k" "k < 3" for k s'
    by (rule for_range_inv [where I = "holds3 s ?b ?c ?c", OF that(1)])
      (rule rows_frame [OF _ that(2,3)])
  have field: "\<exists>s''. rbind (for_range 0 (ny_all s') (\<lambda>iy. for_range 0 nghost (?colsbody k iy)) s')
                   (for_range 0 nghost (\<lambda>iy s. for_range 0 (nx_all s) (?rowsbody k iy) s)) = Inr s''
                  \<and> ?I (k + 1) 0 s''"
    if "?I k 0 s'" "0 \<le> k" "k < 3" for k s'
  proof -
    from cols [OF that] obtain s1 where
      s1: "for_range 0 (ny_all s') (\<lambda>iy. for_range 0 nghost (?colsbody k iy)) s' = Inr s1"
        "holds3 s ?b ?c ?c s1" by blast
    from rows [OF s1(2) that(2,3)] obtain s2 where
      "for_range 0 nghost (\<lambda>iy s. for_range 0 (nx_all s) (?rowsbody k iy) s) s1 = Inr s2"
        "holds3 s ?b ?c ?c s2" by blast
    with s1(1) that(2) show ?thesis by simp
  qed
  have start: "?I 0 0 s"
    unfolding holds3_def by (simp, rule exI [of _ "u_vec s"]) simp
  have "\<exists>s'. apply_periodic s = Inr s' \<and> ?I nfield 0 s'"
    unfolding apply_periodic_def
    by (rule for_range_counted [where I = "\<lambda>k. ?I k 0"])
      (use start field in \<open>auto simp: nfield_def\<close>)
  then show ?thesis by (simp add: nfield_def)
qed

lemma covered:
  assumes wf: "wf s0" and p: "padded s0 k ix iy" and g: "\<not> interior s0 ix iy"
  shows "(k, ix, iy) \<in> field_written s0 k"
proof -
  have all: "nx_all s0 = nx s0 + 2 * nghost" "ny_all s0 = ny s0 + 2 * nghost"
    using wf by (auto simp: wf_def)
  have r: "0 \<le> ix" "ix < nx_all s0" "0 \<le> iy" "iy < ny_all s0"
    using p by (auto simp: padded_def)
  consider "ix < nghost" | "nx s0 + nghost \<le> ix" | "iy < nghost" | "ny s0 + nghost \<le> iy"
    using g r by (auto simp: interior_def)
  then show ?thesis
  proof cases
    case 1
    then have "(k, ix, iy) \<in> cols_written s0 k iy ix" "ix \<in> {0..<nghost}" "iy \<in> {0..<ny_all s0}"
      using r by (auto simp: cols_written_def)
    then show ?thesis unfolding field_written_def by blast
  next
    case 2
    then have "(k, ix, iy) \<in> cols_written s0 k iy (ix - nx s0 - nghost)"
      "ix - nx s0 - nghost \<in> {0..<nghost}" "iy \<in> {0..<ny_all s0}"
      using r all by (auto simp: cols_written_def)
    then show ?thesis unfolding field_written_def by blast
  next
    case 3
    then have "(k, ix, iy) \<in> rows_written s0 k iy ix" "ix \<in> {0..<nx_all s0}" "iy \<in> {0..<nghost}"
      using r by (auto simp: rows_written_def)
    then show ?thesis unfolding field_written_def by blast
  next
    case 4
    then have "(k, ix, iy) \<in> rows_written s0 k (iy - ny s0 - nghost) ix"
      "ix \<in> {0..<nx_all s0}" "iy - ny s0 - nghost \<in> {0..<nghost}"
      using r all by (auto simp: rows_written_def)
    then show ?thesis unfolding field_written_def by blast
  qed
qed

text \<open>For cell counts other than 2 the boundary is exact: \<open>apply_periodic\<close> returns,
  changes the state array only, and leaves at every padded cell the value that its
  canonical interior cell had (so interior cells keep theirs).\<close>

lemma apply_periodic_ok:
  assumes wf: "wf s0" and n2: "nx s0 \<noteq> 2" "ny s0 \<noteq> 2"
  shows "\<exists>U. apply_periodic s0 = Inr (s0\<lparr>u_vec := U\<rparr>) \<and> length U = length (u_vec s0)
           \<and> (\<forall>k ix iy. padded s0 k ix iy \<longrightarrow>
                 el U (offset s0 k ix iy)
                   = el (u_vec s0) (offset s0 k (canon (nx s0) ix) (canon (ny s0) iy)))"
proof -
  let ?S = "{} \<union> (\<Union>k\<in>{0..<nfield}. field_written s0 k)"
  from apply_periodic_inv [OF wf n2] obtain s' where
    s': "apply_periodic s0 = Inr s'" "periodic_inv s0 ?S s'" by blast
  from s'(2) obtain U where U: "s' = s0\<lparr>u_vec := U\<rparr>" "length U = length (u_vec s0)"
    and keep: "\<And>k ix iy. padded s0 k ix iy \<Longrightarrow> interior s0 ix iy
              \<Longrightarrow> el U (offset s0 k ix iy) = el (u_vec s0) (offset s0 k ix iy)"
    and dn: "\<And>k ix iy. (k, ix, iy) \<in> ?S \<Longrightarrow>
               el U (offset s0 k ix iy)
                  = el (u_vec s0) (offset s0 k (canon (nx s0) ix) (canon (ny s0) iy))"
    unfolding periodic_inv_def by fast
  have pos: "0 < nx s0" "0 < ny s0" using wf by (auto simp: wf_def)
  have "el U (offset s0 k ix iy)
          = el (u_vec s0) (offset s0 k (canon (nx s0) ix) (canon (ny s0) iy))"
    if p: "padded s0 k ix iy" for k ix iy
  proof (cases "interior s0 ix iy")
    case True
    then have "canon (nx s0) ix = ix" "canon (ny s0) iy = iy"
      using pos by (auto simp: interior_def canon_interior)
    then show ?thesis using keep [OF p True] by simp
  next
    case False
    have "(k, ix, iy) \<in> ?S"
      using covered [OF wf p False] p by (auto simp: padded_def)
    then show ?thesis by (rule dn)
  qed
  with s'(1) U show ?thesis by blast
qed

section \<open>The periodic boundary\<close>

text \<open>
  C2. The claim: after \<open>apply_periodic\<close> every ghost cell holds the value of its canonical
  interior cell, for all positive \<open>Nx\<close>, \<open>Ny\<close>, also below the ghost width 3. With
  \<open>Nx = 2\<close> the dividend \<open>ix + nx - nghost\<close> of \<open>ioffset\<close> is \<open>-1\<close> at \<open>ix = 0\<close>, the
  remainder of C++ is \<open>-1\<close>, and the cell read is the ghost cell \<open>ix = 2\<close>: on every solver
  of 2 by 1 cells the ghost cell \<open>(0, 3)\<close> of the height ends with what the ghost cell
  \<open>(2, 3)\<close> held before, while its canonical cell \<open>(4, 3)\<close> keeps its own value.
\<close>

theorem C2_ghost_not_canonical:
  assumes "wf s" and "nx s = 2" and "ny s = 1"
  shows "\<exists>s'. apply_periodic s = Inr s'
           \<and> el (u_vec s') (offset s' 0 0 3) = el (u_vec s) (offset s 0 2 3)
           \<and> el (u_vec s') (offset s' 0 (canon (nx s') 0) (canon (ny s') 3))
               = el (u_vec s) (offset s 0 4 3)"
proof -
  have a: "nx_all s = 8" "ny_all s = 7"
    using assms by (auto simp: wf_def nghost_def)
  from periodic_2x1 [OF assms] obtain s' where
    s': "apply_periodic s = Inr s'"
      "holds3 s (el (u_vec s) 26) (el (u_vec s) 28) (el (u_vec s) 28) s'" by blast
  from s'(2) obtain U where U: "s' = s\<lparr>u_vec := U\<rparr>" "el U 24 = el (u_vec s) 26"
      "el U 28 = el (u_vec s) 28"
    by (auto simp: holds3_def)
  have c: "canon 2 0 = 4" "canon 1 3 = 3"
    by (simp_all add: canon_def nghost_def)
  show ?thesis
    using s'(1) U by (simp add: offset_def a assms c)
qed

theorem C2_ghost_not_canonical_witness:
  "wf dam_2x1 \<and> nx dam_2x1 = 2 \<and> ny dam_2x1 = 1
   \<and> (\<exists>s'. apply_periodic dam_2x1 = Inr s'
          \<and> el (u_vec s') (offset s' 0 0 3) = 0
          \<and> el (u_vec s') (offset s' 0 (canon (nx s') 0) (canon (ny s') 3)) = 1)"
proof -
  have w: "wf dam_2x1" and d: "nx dam_2x1 = 2" "ny dam_2x1 = 1"
    by (simp_all add: wf_def dam_2x1_def flat_state_def nghost_def nfield_def)
  have v: "el (u_vec dam_2x1) (offset dam_2x1 0 2 3) = 0"
    "el (u_vec dam_2x1) (offset dam_2x1 0 4 3) = 1"
    by (simp_all add: dam_2x1_def flat_state_def offset_def el_def)
  show ?thesis
    using C2_ghost_not_canonical [OF w d] w d v by simp
qed

lemma finite_cells_before [simp]: "finite (cells_before s j i)"
  by (simp add: cells_before_def)

lemma cells_before_next:
  "nghost \<le> i \<Longrightarrow> cells_before s j (i + 1) = insert (i, j) (cells_before s j i)"
  "(i, j) \<notin> cells_before s j i"
  by (auto simp: cells_before_def)

lemma cells_before_row:
  "nghost \<le> j \<Longrightarrow> cells_before s j (nx s + nghost) = cells_before s (j + 1) nghost"
  by (auto simp: cells_before_def)

lemma cells_before_all:
  "cells_before s (ny s + nghost) nghost = interior_cells s"
  "cells_before s nghost nghost = {}"
  by (auto simp: cells_before_def interior_cells_def)

lemma interior_reads:
  assumes "wf s" "nghost \<le> i" "i < nx s + nghost" "nghost \<le> j" "j < ny s + nghost" "0 \<le> k" "k < 3"
  shows "rd (u_vec s) (offset s k i j) = Inr (ucell s k i j)"
proof -
  have "0 \<le> i" "i < nx_all s" "0 \<le> j" "j < ny_all s"
    using assms by (auto simp: wf_def nghost_def)
  from offset_bounds [OF assms(1,6,7) this] show ?thesis
    using wf_size(2) [OF assms(1)] by (simp add: rd_Inr ucell_def)
qed

lemma solution_check_cell_ok:
  assumes "wf s" "nghost \<le> i" "i < nx s + nghost" "nghost \<le> j" "j < ny s + nghost"
    and "check_inv s (cells_before s j i) c"
  shows "0 < ucell s 0 i j \<Longrightarrow>
           \<exists>c'. solution_check_cell s j i c = Inr c' \<and> check_inv s (cells_before s j (i + 1)) c'"
    and "\<not> 0 < ucell s 0 i j \<Longrightarrow> solution_check_cell s j i c = Inl AssertFailed"
proof -
  note r = interior_reads [OF assms(1-5)]
  have rds: "rd (u_vec s) (offset s 0 i j) = Inr (ucell s 0 i j)"
    "rd (u_vec s) (offset s 1 i j) = Inr (ucell s 1 i j)"
    "rd (u_vec s) (offset s 2 i j) = Inr (ucell s 2 i j)"
    by (rule r; simp)+
  show "solution_check_cell s j i c = Inl AssertFailed" if "\<not> 0 < ucell s 0 i j"
    using that by (simp add: solution_check_cell_def rds Let_def)
  assume pos: "0 < ucell s 0 i j"
  let ?P = "cells_before s j i"
  let ?c' = "\<lparr> h_sum = h_sum c + ucell s 0 i j, hu_sum = hu_sum c + ucell s 1 i j,
               hv_sum = hv_sum c + ucell s 2 i j,
               hmin = min (ucell s 0 i j) (hmin c), hmax = max (ucell s 0 i j) (hmax c) \<rparr>"
  have step: "solution_check_cell s j i c = Inr ?c'"
    using pos by (simp add: solution_check_cell_def rds Let_def)
  have nx: "cells_before s j (i + 1) = insert (i, j) ?P" "(i, j) \<notin> ?P"
    using cells_before_next [where i = i and s = s and j = j] assms(2) by auto
  let ?H = "insert (ucell s 0 nghost nghost) ((\<lambda>(i, j). ucell s 0 i j) ` ?P)"
  have fin: "finite ?H" "?H \<noteq> {}" by simp_all
  have img: "insert (ucell s 0 nghost nghost) ((\<lambda>(i, j). ucell s 0 i j) ` insert (i, j) ?P)
               = insert (ucell s 0 i j) ?H"
    by auto
  have "check_inv s (insert (i, j) ?P) ?c'"
    using assms(6) nx(2) fin unfolding check_inv_def img
    by (simp add: add.commute)
  with step nx(1) show "\<exists>c'. solution_check_cell s j i c = Inr c' \<and> check_inv s (cells_before s j (i + 1)) c'"
    by simp
qed

lemma for_loop_total:
  assumes "\<And>i s. i \<in> set js \<Longrightarrow> (\<exists>s'. body i s = Inr s') \<or> body i s = Inl e"
  shows "(\<exists>s'. for_loop js body s = Inr s') \<or> for_loop js body s = Inl e"
  using assms
proof (induction js arbitrary: s)
  case Nil
  then show ?case by simp
next
  case (Cons j js)
  show ?case
  proof (cases "body j s")
    case (Inl e')
    with Cons.prems [of j s] show ?thesis by simp
  next
    case (Inr s1)
    with Cons.IH [of s1] Cons.prems show ?thesis by simp
  qed
qed

lemma for_range_total:
  assumes "\<And>i s. lo \<le> i \<Longrightarrow> i < hi \<Longrightarrow> (\<exists>s'. body i s = Inr s') \<or> body i s = Inl e"
  shows "(\<exists>s'. for_range lo hi body s = Inr s') \<or> for_range lo hi body s = Inl e"
  unfolding for_range_def by (rule for_loop_total) (use assms in auto)

lemma solution_check_cell_total:
  assumes "wf s" "nghost \<le> i" "i < nx s + nghost" "nghost \<le> j" "j < ny s + nghost"
  shows "0 < ucell s 0 i j \<Longrightarrow> \<exists>c'. solution_check_cell s j i c = Inr c'"
    and "\<not> 0 < ucell s 0 i j \<Longrightarrow> solution_check_cell s j i c = Inl AssertFailed"
proof -
  note r = interior_reads [OF assms(1-5)]
  have rds: "rd (u_vec s) (offset s 0 i j) = Inr (ucell s 0 i j)"
    "rd (u_vec s) (offset s 1 i j) = Inr (ucell s 1 i j)"
    "rd (u_vec s) (offset s 2 i j) = Inr (ucell s 2 i j)"
    by (rule r; simp)+
  show "\<exists>c'. solution_check_cell s j i c = Inr c'" if "0 < ucell s 0 i j"
    using that by (simp add: solution_check_cell_def rds Let_def)
  show "solution_check_cell s j i c = Inl AssertFailed" if "\<not> 0 < ucell s 0 i j"
    using that by (simp add: solution_check_cell_def rds Let_def)
qed

lemma solution_check_row_total:
  assumes "wf s" "nghost \<le> j" "j < ny s + nghost"
  shows "(\<exists>c'. for_range nghost (nx s + nghost) (solution_check_cell s j) c = Inr c')
       \<or> for_range nghost (nx s + nghost) (solution_check_cell s j) c = Inl AssertFailed"
proof (rule for_range_total)
  fix i c
  assume "nghost \<le> i" "i < nx s + nghost"
  then show "(\<exists>c'. solution_check_cell s j i c = Inr c') \<or> solution_check_cell s j i c = Inl AssertFailed"
    using solution_check_cell_total [OF assms(1) _ _ assms(2,3), of i c] by blast
qed

lemma solution_check_row_fails:
  assumes "wf s" "nghost \<le> j" "j < ny s + nghost" "nghost \<le> i" "i < nx s + nghost"
    and "\<not> 0 < ucell s 0 i j"
  shows "for_range nghost (nx s + nghost) (solution_check_cell s j) c = Inl AssertFailed"
proof (rule for_range_fails [where I = "\<lambda>c. True" and j = i])
  fix i' c'
  assume "nghost \<le> i'" "i' < nx s + nghost"
  then show "(\<exists>s'. solution_check_cell s j i' c' = Inr s' \<and> True)
              \<or> solution_check_cell s j i' c' = Inl AssertFailed"
    using solution_check_cell_total [OF assms(1) _ _ assms(2,3), of i' c'] by auto
next
  fix c'
  show "solution_check_cell s j i c' = Inl AssertFailed"
    using solution_check_cell_total(2) [OF assms(1,4,5,2,3,6)] .
qed (use assms in auto)

lemma solution_check_row_ok:
  assumes "wf s" "nghost \<le> j" "j < ny s + nghost"
    and "\<forall>i. nghost \<le> i \<and> i < nx s + nghost \<longrightarrow> 0 < ucell s 0 i j"
    and "check_inv s (cells_before s j nghost) c"
  shows "\<exists>c'. for_range nghost (nx s + nghost) (solution_check_cell s j) c = Inr c'
            \<and> check_inv s (cells_before s (j + 1) nghost) c'"
proof -
  have "0 < nx s" using assms(1) by (simp add: wf_def)
  then have le: "nghost \<le> nx s + nghost" by simp
  have "\<exists>c'. for_range nghost (nx s + nghost) (solution_check_cell s j) c = Inr c'
            \<and> check_inv s (cells_before s j (nx s + nghost)) c'"
  proof (rule for_range_counted [where I = "\<lambda>i. check_inv s (cells_before s j i)", OF assms(5) le])
    fix i c'
    assume "nghost \<le> i" "i < nx s + nghost" "check_inv s (cells_before s j i) c'"
    then show "\<exists>s'. solution_check_cell s j i c' = Inr s' \<and> check_inv s (cells_before s j (i + 1)) s'"
      using solution_check_cell_ok(1) [OF assms(1) _ _ assms(2,3)] assms(4) by blast
  qed
  then show ?thesis
    by (simp add: cells_before_row [OF assms(2)])
qed

section \<open>Diagnostics: \<open>solution_check\<close>\<close>

text \<open>The report of \<open>solution_check\<close> on a well-formed solver, in both cases.\<close>

lemma solution_check_report:
  assumes "wf s"
  shows "((\<forall>(i, j)\<in>interior_cells s. 0 < ucell s 0 i j) \<longrightarrow>
            (\<exists>r. solution_check s = Inr r
               \<and> volume r = (\<Sum>(i, j)\<in>interior_cells s. ucell s 0 i j) * (dx s * dy s)
               \<and> momentum_x r = (\<Sum>(i, j)\<in>interior_cells s. ucell s 1 i j) * (dx s * dy s)
               \<and> momentum_y r = (\<Sum>(i, j)\<in>interior_cells s. ucell s 2 i j) * (dx s * dy s)
               \<and> range_lo r = Min ((\<lambda>(i, j). ucell s 0 i j) ` interior_cells s)
               \<and> range_hi r = Max ((\<lambda>(i, j). ucell s 0 i j) ` interior_cells s)))
       \<and> ((\<exists>(i, j)\<in>interior_cells s. ucell s 0 i j \<le> 0) \<longrightarrow>
            solution_check s = Inl AssertFailed)"
proof (intro conjI impI)
  have pos: "0 < nx s" "0 < ny s" using assms by (auto simp: wf_def)
  have r0: "rd (u_vec s) (offset s 0 nghost nghost) = Inr (ucell s 0 nghost nghost)"
    using interior_reads [OF assms, of nghost nghost 0] pos by simp
  let ?c0 = "\<lparr> h_sum = 0, hu_sum = 0, hv_sum = 0,
               hmin = ucell s 0 nghost nghost, hmax = ucell s 0 nghost nghost \<rparr>"
  {
    assume all: "\<forall>(i, j)\<in>interior_cells s. 0 < ucell s 0 i j"
    have start: "check_inv s (cells_before s nghost nghost) ?c0"
      by (simp add: check_inv_def cells_before_all)
    have le: "nghost \<le> ny s + nghost" using pos by simp
    have "\<exists>c. for_range nghost (ny s + nghost)
                (\<lambda>j. for_range nghost (nx s + nghost) (solution_check_cell s j)) ?c0 = Inr c
            \<and> check_inv s (cells_before s (ny s + nghost) nghost) c"
    proof (rule for_range_counted [where I = "\<lambda>j. check_inv s (cells_before s j nghost)", OF start le])
      fix j c
      assume j: "nghost \<le> j" "j < ny s + nghost" and c: "check_inv s (cells_before s j nghost) c"
      have "\<forall>i. nghost \<le> i \<and> i < nx s + nghost \<longrightarrow> 0 < ucell s 0 i j"
        using all j by (auto simp: interior_cells_def)
      from solution_check_row_ok [OF assms j this c]
      show "\<exists>s'. for_range nghost (nx s + nghost) (solution_check_cell s j) c = Inr s'
               \<and> check_inv s (cells_before s (j + 1) nghost) s'" .
    qed
    then obtain c where c: "for_range nghost (ny s + nghost)
                (\<lambda>j. for_range nghost (nx s + nghost) (solution_check_cell s j)) ?c0 = Inr c"
        "check_inv s (interior_cells s) c"
      by (auto simp: cells_before_all)
    have "(nghost, nghost) \<in> interior_cells s"
      using pos by (simp add: interior_cells_def)
    then have "ucell s 0 nghost nghost \<in> (\<lambda>(i, j). ucell s 0 i j) ` interior_cells s"
      by force
    then have ins: "insert (ucell s 0 nghost nghost) ((\<lambda>(i, j). ucell s 0 i j) ` interior_cells s)
                 = (\<lambda>(i, j). ucell s 0 i j) ` interior_cells s"
      by (rule insert_absorb)
    show "\<exists>r. solution_check s = Inr r
               \<and> volume r = (\<Sum>(i, j)\<in>interior_cells s. ucell s 0 i j) * (dx s * dy s)
               \<and> momentum_x r = (\<Sum>(i, j)\<in>interior_cells s. ucell s 1 i j) * (dx s * dy s)
               \<and> momentum_y r = (\<Sum>(i, j)\<in>interior_cells s. ucell s 2 i j) * (dx s * dy s)
               \<and> range_lo r = Min ((\<lambda>(i, j). ucell s 0 i j) ` interior_cells s)
               \<and> range_hi r = Max ((\<lambda>(i, j). ucell s 0 i j) ` interior_cells s)"
      using c(2) unfolding check_inv_def ins
      by (simp add: solution_check_def r0 c(1) Let_def)
  }
  {
    assume "\<exists>(i, j)\<in>interior_cells s. ucell s 0 i j \<le> 0"
    then obtain i j where ij: "nghost \<le> i" "i < nx s + nghost" "nghost \<le> j" "j < ny s + nghost"
        "\<not> 0 < ucell s 0 i j"
      by (auto simp: interior_cells_def)
    have "for_range nghost (ny s + nghost)
            (\<lambda>j. for_range nghost (nx s + nghost) (solution_check_cell s j)) ?c0 = Inl AssertFailed"
    proof (rule for_range_fails [where I = "\<lambda>c. True" and j = j])
      fix j' c'
      assume "nghost \<le> j'" "j' < ny s + nghost"
      then show "(\<exists>s'. for_range nghost (nx s + nghost) (solution_check_cell s j') c' = Inr s' \<and> True)
              \<or> for_range nghost (nx s + nghost) (solution_check_cell s j') c' = Inl AssertFailed"
        using solution_check_row_total [OF assms, of j' c'] by auto
    next
      fix c'
      show "for_range nghost (nx s + nghost) (solution_check_cell s j) c' = Inl AssertFailed"
        by (rule solution_check_row_fails [OF assms ij(3,4,1,2,5)])
    qed (use ij in auto)
    then show "solution_check s = Inl AssertFailed"
      by (simp add: solution_check_def r0)
  }
qed

text \<open>
  C8. \<open>solution_check\<close> reads the interior cells only. If the height is positive at every
  interior cell it returns the report: the sums of the three fields over the interior
  cells, each times \<open>dx * dy\<close>, and the least and greatest interior height. If the height
  is not positive at some interior cell, the assertion fails. (The assertion is taken as
  compiled in, that is without \<open>NDEBUG\<close>.)
\<close>

theorem C8_solution_check:
  assumes "wf s"
  shows "((\<forall>(i, j)\<in>interior_cells s. 0 < ucell s 0 i j) \<longrightarrow>
            (\<exists>r. solution_check s = Inr r
               \<and> volume r = (\<Sum>(i, j)\<in>interior_cells s. ucell s 0 i j) * (dx s * dy s)
               \<and> momentum_x r = (\<Sum>(i, j)\<in>interior_cells s. ucell s 1 i j) * (dx s * dy s)
               \<and> momentum_y r = (\<Sum>(i, j)\<in>interior_cells s. ucell s 2 i j) * (dx s * dy s)
               \<and> range_lo r = Min ((\<lambda>(i, j). ucell s 0 i j) ` interior_cells s)
               \<and> range_hi r = Max ((\<lambda>(i, j). ucell s 0 i j) ` interior_cells s)))
       \<and> ((\<exists>(i, j)\<in>interior_cells s. ucell s 0 i j \<le> 0) \<longrightarrow>
            solution_check s = Inl AssertFailed)"
  using solution_check_report [OF assms] .

theorem C8_solution_check_witness:
  "wf (flat_state 1 1 1) \<and> wf (flat_state 1 1 0)
   \<and> (\<exists>r. solution_check (flat_state 1 1 1) = Inr r \<and> volume r = 1 \<and> momentum_x r = 0
          \<and> momentum_y r = 0 \<and> range_lo r = 1 \<and> range_hi r = 1)
   \<and> solution_check (flat_state 1 1 0) = Inl AssertFailed"
proof -
  have w: "wf (flat_state 1 1 h)" for h
    by (simp add: wf_def flat_state_def nghost_def nfield_def)
  have ic: "interior_cells (flat_state 1 1 h) = {(3, 3)}" for h
    by (auto simp: interior_cells_def flat_state_def nghost_def)
  have v: "ucell (flat_state 1 1 h) 0 3 3 = h" "ucell (flat_state 1 1 h) 1 3 3 = 0"
    "ucell (flat_state 1 1 h) 2 3 3 = 0" for h
    by (simp_all add: ucell_def flat_state_def offset_def el_def nth_append)
  have d: "dx (flat_state 1 1 h) = 1" "dy (flat_state 1 1 h) = 1" for h
    by (simp_all add: flat_state_def)
  show ?thesis
    using C8_solution_check [OF w [of 1]] C8_solution_check [OF w [of 0]] w
    by (simp add: ic v d)
qed

lemma for_range3_rule:
  assumes start: "I S z"
    and bnd: "\<And>S z. I S z \<Longrightarrow> xlo z = XL \<and> xhi z = XH"
    and cell: "\<And>iy ix k S z. ylo \<le> iy \<Longrightarrow> iy < yhi \<Longrightarrow> XL \<le> ix \<Longrightarrow> ix < XH
                 \<Longrightarrow> 0 \<le> k \<Longrightarrow> k < nfield \<Longrightarrow> I S z
                 \<Longrightarrow> \<exists>z'. cell iy ix k z = Inr z' \<and> I (S \<union> {(k, ix, iy)}) z'"
  shows "\<exists>z'. for_range ylo yhi (\<lambda>iy z.
                 for_range (xlo z) (xhi z) (\<lambda>ix z.
                   for_range 0 nfield (cell iy ix) z) z) z = Inr z'
           \<and> I (S \<union> (\<Union>iy\<in>{ylo..<yhi}. \<Union>ix\<in>{XL..<XH}. \<Union>k\<in>{0..<nfield}. {(k, ix, iy)})) z'"
proof (rule for_range_rule [where I = I, OF start])
  fix iy S z
  assume iy: "ylo \<le> iy" "iy < yhi" and I: "I S z"
  have "\<exists>z'. for_range XL XH (\<lambda>ix z. for_range 0 nfield (cell iy ix) z) z = Inr z'
           \<and> I (S \<union> (\<Union>ix\<in>{XL..<XH}. \<Union>k\<in>{0..<nfield}. {(k, ix, iy)})) z'"
  proof (rule for_range_rule [where I = I, OF I])
    fix ix S z
    assume ix: "XL \<le> ix" "ix < XH" and I: "I S z"
    show "\<exists>z'. for_range 0 nfield (cell iy ix) z = Inr z'
           \<and> I (S \<union> (\<Union>k\<in>{0..<nfield}. {(k, ix, iy)})) z'"
      by (rule for_range_rule [where I = I, OF I]) (rule cell [OF iy ix])
  qed
  then show "\<exists>z'. for_range (xlo z) (xhi z) (\<lambda>ix z. for_range 0 nfield (cell iy ix) z) z = Inr z'
           \<and> I (S \<union> (\<Union>ix\<in>{XL..<XH}. \<Union>k\<in>{0..<nfield}. {(k, ix, iy)})) z'"
    using bnd [OF I] by simp
qed

lemma v_inv_start: "v_inv s0 F {} s0"
  unfolding v_inv_def by (rule exI [of _ "v_vec s0"]) simp

lemma v_inv_write:
  assumes wf: "wf s0" and inv: "v_inv s0 F S z" and p: "padded s0 k ix iy"
    and op: "\<And>V. length V = length (v_vec s0) \<Longrightarrow>
               cell (s0\<lparr>v_vec := V\<rparr>)
                 = Inr (s0\<lparr>v_vec := V[nat (offset s0 k ix iy) := F k ix iy]\<rparr>)"
  shows "\<exists>z'. cell z = Inr z' \<and> v_inv s0 F (S \<union> {(k, ix, iy)}) z'"
proof -
  from inv obtain V where V: "z = s0\<lparr>v_vec := V\<rparr>" "length V = length (v_vec s0)"
    and val: "\<And>k ix iy. padded s0 k ix iy \<Longrightarrow>
              el V (offset s0 k ix iy)
                = (if (k, ix, iy) \<in> S then F k ix iy else el (v_vec s0) (offset s0 k ix iy))"
    unfolding v_inv_def by blast
  let ?o = "offset s0 k ix iy"
  let ?V' = "V[nat ?o := F k ix iy]"
  have kb: "0 \<le> k" "k < 3" "0 \<le> ix" "ix < nx_all s0" "0 \<le> iy" "iy < ny_all s0"
    using p by (auto simp: padded_def nfield_def)
  note sz = wf_size [OF wf]
  have ob: "0 \<le> ?o" "?o < int (length V)"
    using offset_bounds [OF wf kb] V(2) sz by auto
  have "el ?V' (offset s0 k' ix' iy')
          = (if (k', ix', iy') \<in> S \<union> {(k, ix, iy)} then F k' ix' iy'
             else el (v_vec s0) (offset s0 k' ix' iy'))"
    if p': "padded s0 k' ix' iy'" for k' ix' iy'
  proof (cases "(k', ix', iy') = (k, ix, iy)")
    case True
    then show ?thesis using ob by (simp add: el_update)
  next
    case False
    have "offset s0 k' ix' iy' \<noteq> ?o"
      using offset_inj [of ix' s0 iy' ix iy k' k] p' kb False by (auto simp: padded_def)
    moreover have "0 \<le> offset s0 k' ix' iy'"
      using offset_bounds(1) [OF wf, of k' ix' iy'] p' by (simp add: padded_def nfield_def)
    ultimately have "el ?V' (offset s0 k' ix' iy') = el V (offset s0 k' ix' iy')"
      using ob by (simp add: el_update)
    then show ?thesis using val [OF p'] False by auto
  qed
  then have "v_inv s0 F (S \<union> {(k, ix, iy)}) (s0\<lparr>v_vec := ?V'\<rparr>)"
    unfolding v_inv_def using V(2) by (intro exI [of _ ?V']) simp
  then show ?thesis
    using op [OF V(2)] V(1) by auto
qed

lemma padded_bounds:
  assumes "wf s" "padded s k ix iy"
  shows "0 \<le> offset s k ix iy" "offset s k ix iy < 3 * (nx_all s * ny_all s)"
  using offset_bounds [OF assms(1), of k ix iy] assms(2) by (auto simp: padded_def nfield_def)

lemma padded_rd:
  assumes "wf s" "padded s k ix iy" "int (length A) = 3 * (nx_all s * ny_all s)"
  shows "rd A (offset s k ix iy) = Inr (at_cell s A k ix iy)"
  using padded_bounds [OF assms(1,2)] assms(3) by (simp add: rd_Inr at_cell_def)

lemma padded_wr:
  assumes "wf s" "padded s k ix iy" "int (length A) = 3 * (nx_all s * ny_all s)"
  shows "wr A (offset s k ix iy) x = Inr (A[nat (offset s k ix iy) := x])"
  using padded_bounds [OF assms(1,2)] assms(3) by (simp add: wr_Inr)

lemma predictor_cell_eq:
  assumes wf: "wf s" and p: "padded s k ix iy" and len: "length V = length (v_vec s)"
  shows "predictor_cell a b iy ix k (s\<lparr>v_vec := V\<rparr>)
           = Inr (s\<lparr>v_vec := V[nat (offset s k ix iy) := predicted s a b k ix iy]\<rparr>)"
proof -
  note sz = wf_size [OF wf]
  have o: "offset (s\<lparr>v_vec := V\<rparr>) k ix iy = offset s k ix iy"
    by (simp add: offset_def)
  have lv: "int (length V) = 3 * (nx_all s * ny_all s)" using len sz by simp
  show ?thesis
    by (simp add: predictor_cell_def o padded_rd [OF wf p] padded_wr [OF wf p] sz lv predicted_def)
qed

lemma predictor_ok:
  assumes wf: "wf s"
  shows "\<exists>z. predictor a b s = Inr z \<and> v_inv s (predicted s a b) ({} \<union> ring_cells s) z"
  unfolding predictor_def ring_cells_def
proof (rule for_range3_rule [where I = "v_inv s (predicted s a b)"
      and xlo = "\<lambda>s. 1" and xhi = "\<lambda>s. nx_all s - 1"])
  show "v_inv s (predicted s a b) {} s" by (rule v_inv_start)
next
  fix S z
  assume "v_inv s (predicted s a b) S z"
  then show "1 = 1 \<and> nx_all z - 1 = nx_all s - 1"
    by (auto simp: v_inv_def)
next
  fix iy ix k S z
  assume r: "1 \<le> iy" "iy < ny_all s - 1" "1 \<le> ix" "ix < nx_all s - 1" "0 \<le> k" "k < nfield"
    and inv: "v_inv s (predicted s a b) S z"
  have p: "padded s k ix iy" using r by (simp add: padded_def)
  show "\<exists>z'. predictor_cell a b iy ix k z = Inr z' \<and> v_inv s (predicted s a b) (S \<union> {(k, ix, iy)}) z'"
    by (rule v_inv_write [OF wf inv p]) (rule predictor_cell_eq [OF wf p])
qed

lemma corrector_cell_eq:
  assumes wf: "wf s" and len: "length V = length (v_vec s)"
    and p: "padded s m ix iy" "padded s m (ix + 1) iy" "padded s m ix (iy + 1)"
      "padded s m (ix + 1) (iy + 1)"
  shows "corrector_cell a b iy ix m (s\<lparr>v_vec := V\<rparr>)
           = Inr (s\<lparr>v_vec := V[nat (offset s m ix iy) := corrected s a b m ix iy]\<rparr>)"
proof -
  note sz = wf_size [OF wf]
  have o: "offset (s\<lparr>v_vec := V\<rparr>) k x y = offset s k x y" for k x y
    by (simp add: offset_def)
  have lv: "int (length V) = 3 * (nx_all s * ny_all s)" using len sz by simp
  note rds = padded_rd [OF wf p(1)] padded_rd [OF wf p(2)] padded_rd [OF wf p(3)]
    padded_rd [OF wf p(4)]
  show ?thesis
    by (simp add: corrector_cell_def o rds padded_wr [OF wf p(1)] sz lv corrected_def)
qed

lemma corrector_ok:
  assumes wf: "wf s" and io: "io = 0 \<or> io = 1"
  shows "\<exists>z. corrector io a b s = Inr z \<and> v_inv s (corrected s a b) ({} \<union> window_cells s io) z"
  unfolding corrector_def window_cells_def
proof (rule for_range3_rule [where I = "v_inv s (corrected s a b)"
      and xlo = "\<lambda>s. nghost - io" and xhi = "\<lambda>s. nx s + nghost - io"])
  show "v_inv s (corrected s a b) {} s" by (rule v_inv_start)
next
  fix S z
  assume "v_inv s (corrected s a b) S z"
  then show "nghost - io = nghost - io \<and> nx z + nghost - io = nx s + nghost - io"
    by (auto simp: v_inv_def)
next
  fix iy ix k S z
  assume r: "nghost - io \<le> iy" "iy < ny s + nghost - io" "nghost - io \<le> ix"
      "ix < nx s + nghost - io" "0 \<le> k" "k < nfield"
    and inv: "v_inv s (corrected s a b) S z"
  have all: "nx_all s = nx s + 2 * nghost" "ny_all s = ny s + 2 * nghost"
    using wf by (auto simp: wf_def)
  have p: "padded s k ix iy" "padded s k (ix + 1) iy" "padded s k ix (iy + 1)"
      "padded s k (ix + 1) (iy + 1)"
    using r io all by (auto simp: padded_def nghost_def)
  show "\<exists>z'. corrector_cell a b iy ix k z = Inr z' \<and> v_inv s (corrected s a b) (S \<union> {(k, ix, iy)}) z'"
    by (rule v_inv_write [OF wf inv p(1)]) (rule corrector_cell_eq [OF wf _ p])
qed

lemma run_offset: "offset s 0 1 iy + k * (nx_all s * ny_all s) + i = offset s k (1 + i) iy"
  by (simp add: offset_def algebra_simps)

lemma row_run_bounds:
  assumes wf: "wf s" and iy: "1 \<le> iy" "iy < ny_all s - 1"
  shows "0 \<le> offset s 0 1 iy" "0 \<le> nx_all s - 2" "nx_all s - 2 \<le> nx_all s * ny_all s"
    "offset s 0 1 iy + 2 * (nx_all s * ny_all s) + (nx_all s - 2) \<le> 3 * (nx_all s * ny_all s)"
proof -
  have a: "7 \<le> nx_all s" "7 \<le> ny_all s" using wf by (auto simp: wf_def nghost_def)
  define st where "st = nx_all s * ny_all s"
  define r where "r = iy * nx_all s"
  have r0: "0 \<le> r" unfolding r_def using iy a by simp
  have "(iy + 1) * nx_all s \<le> ny_all s * nx_all s"
    using iy a by (intro mult_right_mono) auto
  then have r1: "r + nx_all s \<le> st"
    by (simp add: r_def st_def algebra_simps)
  have o: "offset s 0 1 iy = r + 1" by (simp add: offset_def r_def)
  show "0 \<le> offset s 0 1 iy" using o r0 by simp
  show "0 \<le> nx_all s - 2" using a by simp
  show "nx_all s - 2 \<le> nx_all s * ny_all s" using r0 r1 by (simp add: st_def)
  have "r + 1 + 2 * st + (nx_all s - 2) \<le> 3 * st" using r1 by simp
  then show "offset s 0 1 iy + 2 * (nx_all s * ny_all s) + (nx_all s - 2) \<le> 3 * (nx_all s * ny_all s)"
    by (simp only: o st_def)
qed

lemma in_run_iff:
  assumes wf: "wf s" and iy: "1 \<le> iy" "iy < ny_all s - 1" and p: "padded s k ix iy'"
  shows "(\<exists>m i. m \<in> {0, 1, 2} \<and> 0 \<le> i \<and> i < nx_all s - 2
            \<and> offset s k ix iy' = offset s 0 1 iy + m * (nx_all s * ny_all s) + i)
         \<longleftrightarrow> iy' = iy \<and> 1 \<le> ix \<and> ix < nx_all s - 1"
proof
  assume "\<exists>m i. m \<in> {0, 1, 2} \<and> 0 \<le> i \<and> i < nx_all s - 2
            \<and> offset s k ix iy' = offset s 0 1 iy + m * (nx_all s * ny_all s) + i"
  then obtain m i where mi: "m \<in> {0, 1, 2}" "0 \<le> i" "i < nx_all s - 2"
      "offset s k ix iy' = offset s m (1 + i) iy"
    by (auto simp: run_offset)
  have "k = m \<and> ix = 1 + i \<and> iy' = iy"
    using offset_inj [of ix s iy' "1 + i" iy k m] p mi iy by (auto simp: padded_def)
  then show "iy' = iy \<and> 1 \<le> ix \<and> ix < nx_all s - 1" using mi by auto
next
  assume a: "iy' = iy \<and> 1 \<le> ix \<and> ix < nx_all s - 1"
  have "k \<in> {0, 1, 2}" using p by (auto simp: padded_def nfield_def)
  moreover have "offset s k ix iy' = offset s 0 1 iy + k * (nx_all s * ny_all s) + (ix - 1)"
    using a by (simp add: run_offset)
  ultimately show "\<exists>m i. m \<in> {0, 1, 2} \<and> 0 \<le> i \<and> i < nx_all s - 2
            \<and> offset s k ix iy' = offset s 0 1 iy + m * (nx_all s * ny_all s) + i"
    using a by (intro exI [of _ k] exI [of _ "ix - 1"]) auto
qed

lemma half_step_flux_row_ok:
  assumes wf: "wf s" and iy: "1 \<le> iy" "iy < ny_all s - 1" and inv: "fg_inv s S z"
    and nz: "\<forall>ix. 1 \<le> ix \<and> ix < nx_all s - 1 \<longrightarrow> at_cell s (v_vec s) 0 ix iy \<noteq> 0"
  shows "\<exists>z'. half_step_flux_row iy z = Inr z' \<and> fg_inv s (S \<union> {iy}) z'"
proof -
  from inv obtain F G where z: "z = s\<lparr>f_vec := F, g_vec := G\<rparr>"
    and len: "length F = length (f_vec s)" "length G = length (g_vec s)"
    and old: "\<And>k ix iy. padded s k ix iy \<Longrightarrow>
              el F (offset s k ix iy)
                = (if iy \<in> S \<and> 1 \<le> ix \<and> ix < nx_all s - 1 then flux_f s (v_vec s) k ix iy
                   else el (f_vec s) (offset s k ix iy))
            \<and> el G (offset s k ix iy)
                = (if iy \<in> S \<and> 1 \<le> ix \<and> ix < nx_all s - 1 then flux_g s (v_vec s) k ix iy
                   else el (g_vec s) (offset s k ix iy))"
    unfolding fg_inv_def by blast
  let ?V = "v_vec s" and ?jj = "offset s 0 1 iy" and ?st = "nx_all s * ny_all s"
  let ?n = "nx_all s - 2"
  note sz = wf_size [OF wf]
  note rb = row_run_bounds [OF wf iy]
  have nz': "\<forall>i. 0 \<le> i \<and> i < ?n \<longrightarrow> el ?V (?jj + i) \<noteq> 0"
  proof (intro allI impI)
    fix i assume i: "0 \<le> i \<and> i < ?n"
    have "el ?V (?jj + i) = at_cell s ?V 0 (1 + i) iy"
      using run_offset [of s iy 0 i] by (simp add: at_cell_def)
    then show "el ?V (?jj + i) \<noteq> 0" using nz i by simp
  qed
  have "\<exists>F' G'. Shallow2D_flux F ?jj G ?jj ?V ?jj ?n ?st = Inr (F', G')
     \<and> (\<forall>i. 0 \<le> i \<and> i < ?n \<longrightarrow> flux_values F' G' ?jj ?jj ?V ?jj ?st i)
     \<and> flux_frame F' F ?jj ?st ?n \<and> flux_frame G' G ?jj ?st ?n"
    using rb sz len by (intro Shallow2D_flux_ok nz') auto
  then obtain F' G' where fl: "Shallow2D_flux F ?jj G ?jj ?V ?jj ?n ?st = Inr (F', G')"
    and vals: "\<And>i. 0 \<le> i \<Longrightarrow> i < ?n \<Longrightarrow> flux_values F' G' ?jj ?jj ?V ?jj ?st i"
    and frF: "flux_frame F' F ?jj ?st ?n" and frG: "flux_frame G' G ?jj ?st ?n"
    by blast
  have oz: "offset (s\<lparr>f_vec := F, g_vec := G\<rparr>) 0 1 iy = offset s 0 1 iy"
    by (simp add: offset_def)
  have step: "half_step_flux_row iy z = Inr (s\<lparr>f_vec := F', g_vec := G'\<rparr>)"
    unfolding z half_step_flux_row_def Let_def by (simp add: oz fl)
  have new: "el F' (offset s k ix iy) = flux_f s ?V k ix iy
           \<and> el G' (offset s k ix iy) = flux_g s ?V k ix iy"
    if p: "padded s k ix iy" and c: "1 \<le> ix" "ix < nx_all s - 1" for k ix
  proof -
    let ?i = "ix - 1"
    have fv: "flux_values F' G' ?jj ?jj ?V ?jj ?st ?i"
      using vals [of ?i] c by simp
    have o: "?jj + ?i = offset s 0 ix iy" "?jj + ?st + ?i = offset s 1 ix iy"
      "?jj + 2 * ?st + ?i = offset s 2 ix iy"
      using run_offset [of s iy 0 ?i] run_offset [of s iy 1 ?i] run_offset [of s iy 2 ?i]
      by simp_all
    have k: "k = 0 \<or> k = 1 \<or> k = 2" using p by (auto simp: padded_def nfield_def)
    from fv show ?thesis
      unfolding flux_values_def o Let_def using k
      by (auto simp: flux_f_def flux_g_def at_cell_def Let_def)
  qed
  have same: "el F' (offset s k ix iy') = el F (offset s k ix iy')
           \<and> el G' (offset s k ix iy') = el G (offset s k ix iy')"
    if p: "padded s k ix iy'" and c: "\<not> (iy' = iy \<and> 1 \<le> ix \<and> ix < nx_all s - 1)" for k ix iy'
  proof -
    let ?j = "offset s k ix iy'"
    have no: "\<not> (\<exists>m i. m \<in> {0, 1, 2} \<and> 0 \<le> i \<and> i < ?n \<and> ?j = ?jj + m * ?st + i)"
      using in_run_iff [OF wf iy p] c by simp
    have a: "\<not> (?jj \<le> ?j \<and> ?j < ?jj + ?n)"
    proof
      assume "?jj \<le> ?j \<and> ?j < ?jj + ?n"
      then have "(0::int) \<in> {0, 1, 2} \<and> 0 \<le> ?j - ?jj \<and> ?j - ?jj < ?n \<and> ?j = ?jj + 0 * ?st + (?j - ?jj)"
        by simp
      with no show False by blast
    qed
    have b: "\<not> (?jj + ?st \<le> ?j \<and> ?j < ?jj + ?st + ?n)"
    proof
      assume "?jj + ?st \<le> ?j \<and> ?j < ?jj + ?st + ?n"
      then have "(1::int) \<in> {0, 1, 2} \<and> 0 \<le> ?j - ?jj - ?st \<and> ?j - ?jj - ?st < ?n
                 \<and> ?j = ?jj + 1 * ?st + (?j - ?jj - ?st)"
        by simp
      with no show False by blast
    qed
    have c': "\<not> (?jj + 2 * ?st \<le> ?j \<and> ?j < ?jj + 2 * ?st + ?n)"
    proof
      assume "?jj + 2 * ?st \<le> ?j \<and> ?j < ?jj + 2 * ?st + ?n"
      then have "(2::int) \<in> {0, 1, 2} \<and> 0 \<le> ?j - ?jj - 2 * ?st \<and> ?j - ?jj - 2 * ?st < ?n
                 \<and> ?j = ?jj + 2 * ?st + (?j - ?jj - 2 * ?st)"
        by simp
      with no show False by blast
    qed
    have j0: "0 \<le> ?j" using padded_bounds(1) [OF wf p] .
    show ?thesis
      using frF frG a b c' j0 unfolding flux_frame_def by blast
  qed
  have "fg_inv s (S \<union> {iy}) (s\<lparr>f_vec := F', g_vec := G'\<rparr>)"
    unfolding fg_inv_def
  proof (rule exI [of _ F'], rule exI [of _ G'], intro conjI allI impI)
    show "s\<lparr>f_vec := F', g_vec := G'\<rparr> = s\<lparr>f_vec := F', g_vec := G'\<rparr>" by simp
    show "length F' = length (f_vec s)" using frF len by (simp add: flux_frame_def)
    show "length G' = length (g_vec s)" using frG len by (simp add: flux_frame_def)
  next
    fix k ix iy'
    assume p: "padded s k ix iy'"
    show "el F' (offset s k ix iy')
            = (if iy' \<in> S \<union> {iy} \<and> 1 \<le> ix \<and> ix < nx_all s - 1 then flux_f s ?V k ix iy'
               else el (f_vec s) (offset s k ix iy'))"
      using new [of k ix] same [OF p] old [OF p] p by (cases "iy' = iy") auto
    show "el G' (offset s k ix iy')
            = (if iy' \<in> S \<union> {iy} \<and> 1 \<le> ix \<and> ix < nx_all s - 1 then flux_g s ?V k ix iy'
               else el (g_vec s) (offset s k ix iy'))"
      using new [of k ix] same [OF p] old [OF p] p by (cases "iy' = iy") auto
  qed
  with step show ?thesis by blast
qed

lemma fg_inv_start: "fg_inv s {} s"
  unfolding fg_inv_def by (rule exI [of _ "f_vec s"], rule exI [of _ "g_vec s"]) simp

lemma half_step_flux_ok:
  assumes wf: "wf s"
    and nz: "\<forall>ix iy. 1 \<le> ix \<and> ix < nx_all s - 1 \<and> 1 \<le> iy \<and> iy < ny_all s - 1
               \<longrightarrow> at_cell s (v_vec s) 0 ix iy \<noteq> 0"
  shows "\<exists>z. half_step_flux s = Inr z \<and> fg_inv s ({} \<union> (\<Union>iy\<in>{1..<ny_all s - 1}. {iy})) z"
  unfolding half_step_flux_def
proof (rule for_range_rule [where I = "fg_inv s", OF fg_inv_start])
  fix iy S z
  assume iy: "1 \<le> iy" "iy < ny_all s - 1" and inv: "fg_inv s S z"
  show "\<exists>z'. half_step_flux_row iy z = Inr z' \<and> fg_inv s (S \<union> {iy}) z'"
    using nz iy by (intro half_step_flux_row_ok [OF wf iy inv]) auto
qed

lemma half_step_flux_row_zero:
  assumes wf: "wf s" and iy: "1 \<le> iy" "iy < ny_all s - 1" and inv: "fg_inv s S z"
    and ix: "1 \<le> ix" "ix < nx_all s - 1" and zero: "at_cell s (v_vec s) 0 ix iy = 0"
  shows "half_step_flux_row iy z = Inl DivByZero"
proof -
  from inv obtain F G where z: "z = s\<lparr>f_vec := F, g_vec := G\<rparr>"
    and len: "length F = length (f_vec s)" "length G = length (g_vec s)"
    unfolding fg_inv_def by blast
  let ?V = "v_vec s" and ?jj = "offset s 0 1 iy" and ?st = "nx_all s * ny_all s"
  let ?n = "nx_all s - 2"
  note sz = wf_size [OF wf]
  note rb = row_run_bounds [OF wf iy]
  have "el ?V (?jj + (ix - 1)) = at_cell s ?V 0 ix iy"
    using run_offset [of s iy 0 "ix - 1"] by (simp add: at_cell_def)
  then have z0: "el ?V (?jj + (ix - 1)) = 0" using zero by simp
  have fl: "Shallow2D_flux F ?jj G ?jj ?V ?jj ?n ?st = Inl DivByZero"
    using rb sz len ix by (intro Shallow2D_flux_zero [where j = "ix - 1"] z0) auto
  have oz: "offset (s\<lparr>f_vec := F, g_vec := G\<rparr>) 0 1 iy = offset s 0 1 iy"
    by (simp add: offset_def)
  show ?thesis
    unfolding z half_step_flux_row_def Let_def by (simp add: oz fl)
qed

lemma half_step_flux_zero:
  assumes wf: "wf s"
    and c: "1 \<le> ix" "ix < nx_all s - 1" "1 \<le> iy" "iy < ny_all s - 1"
    and zero: "at_cell s (v_vec s) 0 ix iy = 0"
  shows "half_step_flux s = Inl DivByZero"
  unfolding half_step_flux_def
proof (rule for_range_fails [where I = "\<lambda>z. \<exists>S. fg_inv s S z" and j = iy])
  show "\<exists>S. fg_inv s S s" using fg_inv_start by blast
next
  fix iy' z
  assume iy': "1 \<le> iy'" "iy' < ny_all s - 1" and "\<exists>S. fg_inv s S z"
  then obtain S where inv: "fg_inv s S z" by blast
  show "(\<exists>s'. half_step_flux_row iy' z = Inr s' \<and> (\<exists>S. fg_inv s S s'))
          \<or> half_step_flux_row iy' z = Inl DivByZero"
  proof (cases "\<forall>ix. 1 \<le> ix \<and> ix < nx_all s - 1 \<longrightarrow> at_cell s (v_vec s) 0 ix iy' \<noteq> 0")
    case True
    from half_step_flux_row_ok [OF wf iy' inv True] show ?thesis by blast
  next
    case False
    then obtain ix' where "1 \<le> ix'" "ix' < nx_all s - 1" "at_cell s (v_vec s) 0 ix' iy' = 0"
      by blast
    from half_step_flux_row_zero [OF wf iy' inv this] show ?thesis by simp
  qed
next
  fix z
  assume "\<exists>S. fg_inv s S z"
  then obtain S where inv: "fg_inv s S z" by blast
  show "half_step_flux_row iy z = Inl DivByZero"
    by (rule half_step_flux_row_zero [OF wf c(3,4) inv c(1,2) zero])
qed (use c in auto)

lemma copy_region:
  assumes wf: "wf s" and io: "io = 0 \<or> io = 1" and k: "0 \<le> k" "k < 3"
  shows "k * (nx_all s * ny_all s) \<le> offset s k (nghost - io) (nghost - io)"
    "offset s k nghost nghost + ny s * nx_all s \<le> (k + 1) * (nx_all s * ny_all s)"
    "offset s k (nghost - io) (nghost - io) \<le> offset s k nghost nghost"
    "0 \<le> ny s * nx_all s"
proof -
  have a: "nx_all s = nx s + 6" "ny_all s = ny s + 6" "0 < nx s" "0 < ny s"
    using wf by (auto simp: wf_def nghost_def)
  define st where "st = nx_all s * ny_all s"
  define N where "N = ny s * nx_all s"
  have st: "st = N + 6 * nx_all s"
    by (simp add: st_def N_def a algebra_simps)
  have N0: "0 \<le> N" unfolding N_def using a by simp
  have o: "offset s k x y = k * st + y * nx_all s + x" for x y
    by (simp add: offset_def st_def algebra_simps)
  show "k * (nx_all s * ny_all s) \<le> offset s k (nghost - io) (nghost - io)"
    unfolding o st_def [symmetric] using io a by (auto simp: nghost_def)
  show "offset s k nghost nghost + ny s * nx_all s \<le> (k + 1) * (nx_all s * ny_all s)"
    unfolding o st_def [symmetric] N_def [symmetric] using st a
    by (simp add: nghost_def algebra_simps)
  show "offset s k (nghost - io) (nghost - io) \<le> offset s k nghost nghost"
    unfolding o using io a by (auto simp: nghost_def)
  show "0 \<le> ny s * nx_all s" using N0 by (simp add: N_def)
qed

lemma copy_back_step:
  assumes wf: "wf s" and io: "io = 0 \<or> io = 1" and k: "0 \<le> k" "k < nfield"
    and inv: "u_copied s io S z"
  shows "\<exists>z'. rbind (copy_cells (v_vec z) (offset z k (nghost - io) (nghost - io)) (ny z * nx_all z)
                      (u_vec z) (offset z k nghost nghost)) (\<lambda>U. Inr (z\<lparr>u_vec := U\<rparr>)) = Inr z'
           \<and> u_copied s io (S \<union> {k}) z'"
proof -
  from inv obtain U where z: "z = s\<lparr>u_vec := U\<rparr>" and len: "length U = length (u_vec s)"
    and rng: "\<And>k'. k' \<in> S \<Longrightarrow> 0 \<le> k' \<and> k' < nfield"
    and old: "\<And>k' i. k' \<in> S \<Longrightarrow> 0 \<le> i \<Longrightarrow> i < ny s * nx_all s \<Longrightarrow>
              el U (offset s k' nghost nghost + i)
                = el (v_vec s) (offset s k' (nghost - io) (nghost - io) + i)"
    unfolding u_copied_def by blast
  have k3: "k < 3" using k by (simp add: nfield_def)
  define st where "st = nx_all s * ny_all s"
  define n where "n = ny s * nx_all s"
  define sb where "sb = offset s k (nghost - io) (nghost - io)"
  define db where "db = offset s k nghost nghost"
  note sz = wf_size [OF wf]
  have st0: "0 < st" using sz(1) by (simp add: st_def)
  note cr = copy_region [OF wf io k(1) k3, folded st_def n_def sb_def db_def]
  have kst: "0 \<le> k * st" "(k + 1) * st \<le> 3 * st"
    using k k3 st0 by (auto intro!: mult_right_mono)
  have b: "0 \<le> sb" "sb + n \<le> int (length (v_vec s))" "0 \<le> db" "db + n \<le> int (length U)"
    using cr kst sz len by (auto simp: st_def)
  from copy_cells_ok [OF b] obtain U' where
    cp: "copy_cells (v_vec s) sb n U db = Inr U'" and len': "length U' = length U"
    and new: "\<And>i. 0 \<le> i \<Longrightarrow> i < n \<Longrightarrow> el U' (db + i) = el (v_vec s) (sb + i)"
    and keep: "\<And>j. 0 \<le> j \<Longrightarrow> j < db \<or> db + n \<le> j \<Longrightarrow> el U' j = el U j"
    by blast
  have oz: "offset z k' x y = offset s k' x y" for k' x y
    by (simp add: z offset_def)
  have step: "rbind (copy_cells (v_vec z) (offset z k (nghost - io) (nghost - io)) (ny z * nx_all z)
                      (u_vec z) (offset z k nghost nghost)) (\<lambda>U. Inr (z\<lparr>u_vec := U\<rparr>))
                = Inr (s\<lparr>u_vec := U'\<rparr>)"
    unfolding oz using cp by (simp add: z sb_def db_def n_def)
  have "el U' (offset s k' nghost nghost + i)
          = el (v_vec s) (offset s k' (nghost - io) (nghost - io) + i)"
    if k': "k' \<in> S \<union> {k}" and i: "0 \<le> i" "i < ny s * nx_all s" for k' i
  proof (cases "k' = k")
    case True
    then show ?thesis using new [of i] i by (simp add: db_def sb_def n_def)
  next
    case False
    then have kS: "k' \<in> S" using k' by simp
    have k'r: "0 \<le> k'" "k' < 3" using rng [OF kS] by (auto simp: nfield_def)
    define db' where "db' = offset s k' nghost nghost"
    have reg: "k' * st \<le> db'" "db' + n \<le> (k' + 1) * st"
      using copy_region [OF wf io k'r, folded st_def n_def] by (auto simp: db'_def)
    have k'0: "0 \<le> k' * st" using k'r st0 by simp
    have out: "db' + i < db \<or> db + n \<le> db' + i"
    proof (cases "k' < k")
      case True
      then have "(k' + 1) * st \<le> k * st" using st0 by (intro mult_right_mono) auto
      then show ?thesis using reg cr i by (simp add: n_def)
    next
      case F: False
      with False have "(k + 1) * st \<le> k' * st" using st0 by (intro mult_right_mono) auto
      then show ?thesis using reg cr i by (simp add: n_def)
    qed
    have j0: "0 \<le> db' + i" using reg k'0 i by simp
    show ?thesis
      using keep [OF j0 out] old [OF kS i] by (simp add: db'_def)
  qed
  moreover have "0 \<le> k' \<and> k' < nfield" if "k' \<in> S \<union> {k}" for k'
    using that rng k by auto
  ultimately have "u_copied s io (S \<union> {k}) (s\<lparr>u_vec := U'\<rparr>)"
    unfolding u_copied_def using len len' by (intro exI [of _ U']) simp
  with step show ?thesis by blast
qed

lemma copy_back_ok:
  assumes wf: "wf s" and io: "io = 0 \<or> io = 1"
  shows "\<exists>z. copy_back io s = Inr z \<and> u_copied s io ({} \<union> (\<Union>k\<in>{0..<nfield}. {k})) z"
  unfolding copy_back_def
proof (rule for_range_rule [where I = "u_copied s io"])
  show "u_copied s io {} s"
    unfolding u_copied_def by (rule exI [of _ "u_vec s"]) simp
next
  fix k S z
  assume "0 \<le> k" "k < nfield" "u_copied s io S z"
  then show "\<exists>z'. rbind (copy_cells (v_vec z) (offset z k (nghost - io) (nghost - io)) (ny z * nx_all z)
                      (u_vec z) (offset z k nghost nghost)) (\<lambda>U. Inr (z\<lparr>u_vec := U\<rparr>)) = Inr z'
           \<and> u_copied s io (S \<union> {k}) z'"
    by (intro copy_back_step [OF wf io])
qed

lemma wf_v_inv: "wf s \<Longrightarrow> v_inv s F S z \<Longrightarrow> wf z"
  by (auto simp: v_inv_def wf_def)

lemma wf_fg_inv: "wf s \<Longrightarrow> fg_inv s S z \<Longrightarrow> wf z"
  by (auto simp: fg_inv_def wf_def)

lemma ring_cells_iff:
  "(k, ix, iy) \<in> ring_cells s \<longleftrightarrow>
     0 \<le> k \<and> k < nfield \<and> 1 \<le> ix \<and> ix < nx_all s - 1 \<and> 1 \<le> iy \<and> iy < ny_all s - 1"
  by (auto simp: ring_cells_def)

lemma window_cells_iff:
  "(k, ix, iy) \<in> window_cells s io \<longleftrightarrow>
     0 \<le> k \<and> k < nfield \<and> nghost - io \<le> ix \<and> ix < nx s + nghost - io
     \<and> nghost - io \<le> iy \<and> iy < ny s + nghost - io"
  by (auto simp: window_cells_def)

lemma ring_padded: "wf s \<Longrightarrow> (k, ix, iy) \<in> ring_cells s \<Longrightarrow> padded s k ix iy"
  by (auto simp: ring_cells_iff padded_def)

lemma v_inv_value:
  assumes "wf s" "v_inv s F S z" "padded s k ix iy" "(k, ix, iy) \<in> S"
  shows "at_cell s (v_vec z) k ix iy = F k ix iy"
  using assms by (auto simp: v_inv_def at_cell_def)

lemma half_step_flux_cases:
  assumes wf: "wf s"
  shows "(\<exists>z. half_step_flux s = Inr z \<and> fg_inv s ({} \<union> (\<Union>iy\<in>{1..<ny_all s - 1}. {iy})) z
            \<and> (\<forall>ix iy. 1 \<le> ix \<and> ix < nx_all s - 1 \<and> 1 \<le> iy \<and> iy < ny_all s - 1
                  \<longrightarrow> at_cell s (v_vec s) 0 ix iy \<noteq> 0))
       \<or> (half_step_flux s = Inl DivByZero
            \<and> (\<exists>ix iy. 1 \<le> ix \<and> ix < nx_all s - 1 \<and> 1 \<le> iy \<and> iy < ny_all s - 1
                  \<and> at_cell s (v_vec s) 0 ix iy = 0))"
proof (cases "\<forall>ix iy. 1 \<le> ix \<and> ix < nx_all s - 1 \<and> 1 \<le> iy \<and> iy < ny_all s - 1
                  \<longrightarrow> at_cell s (v_vec s) 0 ix iy \<noteq> 0")
  case True
  with half_step_flux_ok [OF wf True] show ?thesis by blast
next
  case False
  then obtain ix iy where c: "1 \<le> ix" "ix < nx_all s - 1" "1 \<le> iy" "iy < ny_all s - 1"
      "at_cell s (v_vec s) 0 ix iy = 0" by blast
  from half_step_flux_zero [OF wf c] c show ?thesis by blast
qed

lemma compute_step_cases:
  fixes dt :: real
  assumes wf: "wf s" and io: "io = 0 \<or> io = 1" and d: "dx s \<noteq> 0" "dy s \<noteq> 0"
  shows "((\<forall>ix iy. 1 \<le> ix \<and> ix < nx_all s - 1 \<and> 1 \<le> iy \<and> iy < ny_all s - 1
             \<longrightarrow> predicted s (0.5 * dt / dx s) (0.5 * dt / dy s) 0 ix iy \<noteq> 0)
          \<and> (\<exists>s1 s2 s3 s'. compute_step io dt s = Inr s'
                \<and> stages s io (0.5 * dt / dx s) (0.5 * dt / dy s) s1 s2 s3 s'))
       \<or> (compute_step io dt s = Inl DivByZero
           \<and> (\<exists>ix iy. 1 \<le> ix \<and> ix < nx_all s - 1 \<and> 1 \<le> iy \<and> iy < ny_all s - 1
                 \<and> predicted s (0.5 * dt / dx s) (0.5 * dt / dy s) 0 ix iy = 0))"
proof -
  define a where "a = 0.5 * dt / dx s"
  define b where "b = 0.5 * dt / dy s"
  from predictor_ok [OF wf, of a b] obtain s1 where
    s1: "predictor a b s = Inr s1" "v_inv s (predicted s a b) (ring_cells s) s1" by auto
  have wf1: "wf s1" using wf_v_inv [OF wf s1(2)] .
  have g1: "nx_all s1 = nx_all s" "ny_all s1 = ny_all s" "nx s1 = nx s" "ny s1 = ny s"
    using s1(2) by (auto simp: v_inv_def)
  have o1: "at_cell s1 A k ix iy = at_cell s A k ix iy" for A k ix iy
    using g1 by (simp add: at_cell_def offset_def)
  have pv: "at_cell s1 (v_vec s1) 0 ix iy = predicted s a b 0 ix iy"
    if "1 \<le> ix" "ix < nx_all s - 1" "1 \<le> iy" "iy < ny_all s - 1" for ix iy
  proof -
    have "(0, ix, iy) \<in> ring_cells s" using that by (simp add: ring_cells_iff nfield_def)
    from v_inv_value [OF wf s1(2) ring_padded [OF wf this] this] show ?thesis by (simp add: o1)
  qed
  have pre: "compute_step io dt s
      = rbind (half_step_flux s1) (\<lambda>s2. rbind (corrector io a b s2) (\<lambda>s3. copy_back io s3))"
    using d s1(1) by (simp add: compute_step_def fdiv_def a_def b_def)
  from half_step_flux_cases [OF wf1] show ?thesis
  proof
    assume "\<exists>z. half_step_flux s1 = Inr z \<and> fg_inv s1 ({} \<union> (\<Union>iy\<in>{1..<ny_all s1 - 1}. {iy})) z
            \<and> (\<forall>ix iy. 1 \<le> ix \<and> ix < nx_all s1 - 1 \<and> 1 \<le> iy \<and> iy < ny_all s1 - 1
                  \<longrightarrow> at_cell s1 (v_vec s1) 0 ix iy \<noteq> 0)"
    then obtain s2 where s2: "half_step_flux s1 = Inr s2" "fg_inv s1 {1..<ny_all s - 1} s2"
      and nz: "\<forall>ix iy. 1 \<le> ix \<and> ix < nx_all s - 1 \<and> 1 \<le> iy \<and> iy < ny_all s - 1
                  \<longrightarrow> at_cell s1 (v_vec s1) 0 ix iy \<noteq> 0"
      by (auto simp: g1)
    have wf2: "wf s2" using wf_fg_inv [OF wf1 s2(2)] .
    have g2: "nx s2 = nx s" "ny s2 = ny s"
      using s2(2) g1 by (auto simp: fg_inv_def)
    from corrector_ok [OF wf2 io, of a b] obtain s3 where
      s3: "corrector io a b s2 = Inr s3" "v_inv s2 (corrected s2 a b) (window_cells s2 io) s3"
      by auto
    have w: "window_cells s2 io = window_cells s io"
      by (simp add: window_cells_def g2)
    have wf3: "wf s3" using wf_v_inv [OF wf2 s3(2)] .
    from copy_back_ok [OF wf3 io] obtain s' where
      s': "copy_back io s3 = Inr s'" "u_copied s3 io {0..<nfield} s'" by auto
    have "compute_step io dt s = Inr s'"
      by (simp add: pre s2(1) s3(1) s'(1))
    moreover have "stages s io a b s1 s2 s3 s'"
      unfolding stages_def using s1 s2 s3 s' w by simp
    moreover have "\<forall>ix iy. 1 \<le> ix \<and> ix < nx_all s - 1 \<and> 1 \<le> iy \<and> iy < ny_all s - 1
             \<longrightarrow> predicted s a b 0 ix iy \<noteq> 0"
      using nz pv by auto
    ultimately show ?thesis unfolding a_def b_def by blast
  next
    assume "half_step_flux s1 = Inl DivByZero
            \<and> (\<exists>ix iy. 1 \<le> ix \<and> ix < nx_all s1 - 1 \<and> 1 \<le> iy \<and> iy < ny_all s1 - 1
                  \<and> at_cell s1 (v_vec s1) 0 ix iy = 0)"
    then obtain ix iy where z: "half_step_flux s1 = Inl DivByZero"
        "1 \<le> ix" "ix < nx_all s - 1" "1 \<le> iy" "iy < ny_all s - 1"
        "at_cell s1 (v_vec s1) 0 ix iy = 0"
      by (auto simp: g1)
    have "predicted s a b 0 ix iy = 0" using pv [OF z(2-5)] z(6) by simp
    with z show ?thesis unfolding a_def b_def by (auto simp: pre)
  qed
qed

lemma compute_step_Inr:
  fixes dt :: real
  assumes wf: "wf s" and io: "io = 0 \<or> io = 1" and ok: "compute_step io dt s = Inr s'"
  shows "dx s \<noteq> 0 \<and> dy s \<noteq> 0
       \<and> (\<exists>s1 s2 s3. stages s io (0.5 * dt / dx s) (0.5 * dt / dy s) s1 s2 s3 s')"
proof -
  have d: "dx s \<noteq> 0" "dy s \<noteq> 0"
    using ok by (auto simp: compute_step_def fdiv_def split: if_splits)
  from compute_step_cases [OF wf io d, of dt] ok d show ?thesis by auto
qed

section \<open>The half-step: \<open>compute_step\<close>\<close>

lemma flat_cells:
  assumes "0 \<le> ix" "ix < 7" "0 \<le> iy" "iy < 7"
  shows "at_cell (flat_state 1 1 h) (u_vec (flat_state 1 1 h)) 0 ix iy = h"
    "0 \<le> k \<Longrightarrow> k < 3 \<Longrightarrow> at_cell (flat_state 1 1 h) (fx_vec (flat_state 1 1 h)) k ix iy = 0"
    "0 \<le> k \<Longrightarrow> k < 3 \<Longrightarrow> at_cell (flat_state 1 1 h) (gy_vec (flat_state 1 1 h)) k ix iy = 0"
proof -
  have "nat (iy * 7 + ix) < 49" using assms by simp
  then show "at_cell (flat_state 1 1 h) (u_vec (flat_state 1 1 h)) 0 ix iy = h"
    by (simp add: at_cell_def flat_state_def offset_def el_def nth_append)
  assume k: "0 \<le> k" "k < 3"
  have "(k * 7 + iy) * 7 \<le> (2 * 7 + 6) * 7"
    using k assms by (intro mult_right_mono) auto
  then have "nat ((k * 7 + iy) * 7 + ix) < 147" using assms by simp
  then show "at_cell (flat_state 1 1 h) (fx_vec (flat_state 1 1 h)) k ix iy = 0"
    "at_cell (flat_state 1 1 h) (gy_vec (flat_state 1 1 h)) k ix iy = 0"
    by (simp_all add: at_cell_def flat_state_def offset_def el_def)
qed

lemma flat_step:
  fixes dt :: real
  assumes "io = 0 \<or> io = 1"
  shows "\<exists>s1 s2 s3 s'. compute_step io dt (flat_state 1 1 1) = Inr s'
           \<and> stages (flat_state 1 1 1) io (0.5 * dt / dx (flat_state 1 1 1))
                (0.5 * dt / dy (flat_state 1 1 1)) s1 s2 s3 s'"
proof -
  let ?s = "flat_state 1 1 1"
  have w: "wf ?s" by (simp add: wf_def flat_state_def nghost_def nfield_def)
  have d: "dx ?s \<noteq> 0" "dy ?s \<noteq> 0" by (simp_all add: flat_state_def)
  have g: "nx_all ?s = 7" "ny_all ?s = 7" by (simp_all add: flat_state_def)
  have "predicted ?s a b 0 ix iy = 1"
    if "1 \<le> ix" "ix < nx_all ?s - 1" "1 \<le> iy" "iy < ny_all ?s - 1" for a b ix iy
    using that flat_cells(1) [where ix = ix and iy = iy and h = 1]
      flat_cells(2,3) [where ix = ix and iy = iy and h = 1 and k = 0]
    by (simp add: predicted_def g)
  then have "\<not> (\<exists>ix iy. 1 \<le> ix \<and> ix < nx_all ?s - 1 \<and> 1 \<le> iy \<and> iy < ny_all ?s - 1
                 \<and> predicted ?s (0.5 * dt / dx ?s) (0.5 * dt / dy ?s) 0 ix iy = 0)"
    by auto
  with compute_step_cases [OF w assms d, of dt] show ?thesis by blast
qed

lemma at_cell_grid:
  "nx_all z = nx_all s \<Longrightarrow> ny_all z = ny_all s \<Longrightarrow> at_cell z A k ix iy = at_cell s A k ix iy"
  by (simp add: at_cell_def offset_def)

lemma flux_grid:
  assumes "nx_all z = nx_all s" "ny_all z = ny_all s"
  shows "flux_f z V k ix iy = flux_f s V k ix iy" "flux_g z V k ix iy = flux_g s V k ix iy"
  by (simp_all add: flux_f_def flux_g_def at_cell_grid [OF assms])

lemma window_padded:
  assumes "wf s" "io = 0 \<or> io = 1" "(k, ix, iy) \<in> window_cells s io"
  shows "padded s k ix iy"
  using assms by (auto simp: window_cells_iff padded_def wf_def nghost_def)

text \<open>
  C1. When a half-step of parity \<open>io\<close> and step \<open>dt\<close> returns, it has gone through the four
  loops. The predictor has written \<open>u - (0.5*dt/dx) * fx - (0.5*dt/dy) * gy\<close> into the
  scratch array at every padded cell but the outermost ring; the fluxes have been
  recomputed from these values at the same cells; and the corrector has written, at every
  cell of the window from \<open>nghost - io\<close> to \<open>n + nghost - io\<close> in both axes, the average of
  the state over the four cells of the stencil, minus \<open>0.0625\<close> times the differences of the
  limited derivatives of the state, minus \<open>0.5*dt/dx\<close> and \<open>0.5*dt/dy\<close> times the differences
  of the recomputed fluxes. The copy back leaves the scratch array as it is.
\<close>

theorem C1_predictor_corrector:
  fixes dt :: real
  assumes "wf s" and "io = 0 \<or> io = 1" and "compute_step io dt s = Inr s'"
  shows "\<exists>s1 s2 s3.
      predictor (0.5 * dt / dx s) (0.5 * dt / dy s) s = Inr s1
    \<and> half_step_flux s1 = Inr s2
    \<and> corrector io (0.5 * dt / dx s) (0.5 * dt / dy s) s2 = Inr s3
    \<and> copy_back io s3 = Inr s'
    \<and> v_vec s' = v_vec s3
    \<and> (\<forall>k ix iy. 0 \<le> k \<and> k < nfield \<and> 1 \<le> ix \<and> ix < nx_all s - 1
                  \<and> 1 \<le> iy \<and> iy < ny_all s - 1 \<longrightarrow>
          at_cell s (v_vec s1) k ix iy
            = at_cell s (u_vec s) k ix iy
              - (0.5 * dt / dx s) * at_cell s (fx_vec s) k ix iy
              - (0.5 * dt / dy s) * at_cell s (gy_vec s) k ix iy
        \<and> at_cell s (f_vec s2) k ix iy = flux_f s (v_vec s1) k ix iy
        \<and> at_cell s (g_vec s2) k ix iy = flux_g s (v_vec s1) k ix iy)
    \<and> (\<forall>m ix iy. 0 \<le> m \<and> m < nfield \<and> nghost - io \<le> ix \<and> ix < nx s + nghost - io
                  \<and> nghost - io \<le> iy \<and> iy < ny s + nghost - io \<longrightarrow>
          at_cell s (v_vec s3) m ix iy
            = 0.2500 * (at_cell s (u_vec s) m ix iy + at_cell s (u_vec s) m (ix + 1) iy
                        + at_cell s (u_vec s) m ix (iy + 1)
                        + at_cell s (u_vec s) m (ix + 1) (iy + 1))
              - 0.0625 * (at_cell s (ux_vec s) m (ix + 1) iy - at_cell s (ux_vec s) m ix iy
                          + at_cell s (ux_vec s) m (ix + 1) (iy + 1)
                          - at_cell s (ux_vec s) m ix (iy + 1)
                          + at_cell s (uy_vec s) m ix (iy + 1) - at_cell s (uy_vec s) m ix iy
                          + at_cell s (uy_vec s) m (ix + 1) (iy + 1)
                          - at_cell s (uy_vec s) m (ix + 1) iy)
              - (0.5 * dt / dx s) * (at_cell s (f_vec s2) m (ix + 1) iy - at_cell s (f_vec s2) m ix iy
                          + at_cell s (f_vec s2) m (ix + 1) (iy + 1)
                          - at_cell s (f_vec s2) m ix (iy + 1))
              - (0.5 * dt / dy s) * (at_cell s (g_vec s2) m ix (iy + 1) - at_cell s (g_vec s2) m ix iy
                          + at_cell s (g_vec s2) m (ix + 1) (iy + 1)
                          - at_cell s (g_vec s2) m (ix + 1) iy))"
proof -
  define a where "a = 0.5 * dt / dx s"
  define b where "b = 0.5 * dt / dy s"
  note wf = assms(1)
  from compute_step_Inr [OF assms] obtain s1 s2 s3 where "stages s io a b s1 s2 s3 s'"
    unfolding a_def b_def by blast
  then have st: "predictor a b s = Inr s1" "v_inv s (predicted s a b) (ring_cells s) s1"
    "half_step_flux s1 = Inr s2" "fg_inv s1 {1..<ny_all s - 1} s2"
    "corrector io a b s2 = Inr s3" "v_inv s2 (corrected s2 a b) (window_cells s io) s3"
    "copy_back io s3 = Inr s'" "u_copied s3 io {0..<nfield} s'"
    by (auto simp: stages_def)
  have wf1: "wf s1" using wf_v_inv [OF wf st(2)] .
  have wf2: "wf s2" using wf_fg_inv [OF wf1 st(4)] .
  have g1: "nx_all s1 = nx_all s" "ny_all s1 = ny_all s"
    using st(2) by (auto simp: v_inv_def)
  have g2: "nx_all s2 = nx_all s" "ny_all s2 = ny_all s" "nx s2 = nx s" "ny s2 = ny s"
    "u_vec s2 = u_vec s" "ux_vec s2 = ux_vec s" "uy_vec s2 = uy_vec s" "v_vec s2 = v_vec s1"
    using st(2,4) by (auto simp: v_inv_def fg_inv_def)
  have vv: "v_vec s' = v_vec s3"
    using st(8) by (auto simp: u_copied_def)
  have pred: "at_cell s (v_vec s1) k ix iy
            = at_cell s (u_vec s) k ix iy - a * at_cell s (fx_vec s) k ix iy
              - b * at_cell s (gy_vec s) k ix iy
        \<and> at_cell s (f_vec s2) k ix iy = flux_f s (v_vec s1) k ix iy
        \<and> at_cell s (g_vec s2) k ix iy = flux_g s (v_vec s1) k ix iy"
    if r: "0 \<le> k \<and> k < nfield \<and> 1 \<le> ix \<and> ix < nx_all s - 1 \<and> 1 \<le> iy \<and> iy < ny_all s - 1"
    for k ix iy
  proof -
    have c: "(k, ix, iy) \<in> ring_cells s" using r by (simp add: ring_cells_iff)
    have p: "padded s k ix iy" by (rule ring_padded [OF wf c])
    have p1: "padded s1 k ix iy" using p by (simp add: padded_def g1)
    have "at_cell s (v_vec s1) k ix iy = predicted s a b k ix iy"
      by (rule v_inv_value [OF wf st(2) p c])
    moreover from st(4) p1 r have "el (f_vec s2) (offset s1 k ix iy) = flux_f s1 (v_vec s1) k ix iy"
      "el (g_vec s2) (offset s1 k ix iy) = flux_g s1 (v_vec s1) k ix iy"
      by (auto simp: fg_inv_def g1)
    ultimately show ?thesis
      by (simp add: predicted_def at_cell_def flux_grid [OF g1] offset_def g1)
  qed
  have corr: "at_cell s (v_vec s3) m ix iy = corrected s2 a b m ix iy"
    if r: "0 \<le> m \<and> m < nfield \<and> nghost - io \<le> ix \<and> ix < nx s + nghost - io
                  \<and> nghost - io \<le> iy \<and> iy < ny s + nghost - io" for m ix iy
  proof -
    have c: "(m, ix, iy) \<in> window_cells s io" using r by (simp add: window_cells_iff)
    have p: "padded s2 m ix iy"
      using window_padded [OF wf assms(2) c] by (simp add: padded_def g2)
    from v_inv_value [OF wf2 st(6) p c] show ?thesis
      by (simp add: at_cell_grid [OF g2(1,2)])
  qed
  have cexp: "corrected s2 a b m ix iy
            = 0.2500 * (at_cell s (u_vec s) m ix iy + at_cell s (u_vec s) m (ix + 1) iy
                        + at_cell s (u_vec s) m ix (iy + 1)
                        + at_cell s (u_vec s) m (ix + 1) (iy + 1))
              - 0.0625 * (at_cell s (ux_vec s) m (ix + 1) iy - at_cell s (ux_vec s) m ix iy
                          + at_cell s (ux_vec s) m (ix + 1) (iy + 1)
                          - at_cell s (ux_vec s) m ix (iy + 1)
                          + at_cell s (uy_vec s) m ix (iy + 1) - at_cell s (uy_vec s) m ix iy
                          + at_cell s (uy_vec s) m (ix + 1) (iy + 1)
                          - at_cell s (uy_vec s) m (ix + 1) iy)
              - a * (at_cell s (f_vec s2) m (ix + 1) iy - at_cell s (f_vec s2) m ix iy
                          + at_cell s (f_vec s2) m (ix + 1) (iy + 1)
                          - at_cell s (f_vec s2) m ix (iy + 1))
              - b * (at_cell s (g_vec s2) m ix (iy + 1) - at_cell s (g_vec s2) m ix iy
                          + at_cell s (g_vec s2) m (ix + 1) (iy + 1)
                          - at_cell s (g_vec s2) m (ix + 1) iy)" for m ix iy
    unfolding corrected_def at_cell_grid [OF g2(1,2)] g2(5-7) ..
  show ?thesis
    unfolding a_def [symmetric] b_def [symmetric]
    apply (rule exI [of _ s1], rule exI [of _ s2], rule exI [of _ s3])
    using st(1,3,5,7) vv pred corr unfolding cexp by blast
qed

theorem C1_predictor_corrector_witness:
  "wf (flat_state 1 1 1)
   \<and> (\<exists>s' s1 s2 s3.
         compute_step 0 (1 / 10) (flat_state 1 1 1) = Inr s'
       \<and> predictor (0.5 * (1 / 10) / dx (flat_state 1 1 1))
            (0.5 * (1 / 10) / dy (flat_state 1 1 1)) (flat_state 1 1 1) = Inr s1
       \<and> half_step_flux s1 = Inr s2
       \<and> corrector 0 (0.5 * (1 / 10) / dx (flat_state 1 1 1))
            (0.5 * (1 / 10) / dy (flat_state 1 1 1)) s2 = Inr s3
       \<and> copy_back 0 s3 = Inr s'
       \<and> v_vec s' = v_vec s3
       \<and> at_cell (flat_state 1 1 1) (v_vec s1) 0 1 1 = 1
       \<and> at_cell (flat_state 1 1 1) (v_vec s1) 1 1 1 = 0
       \<and> at_cell (flat_state 1 1 1) (f_vec s2) 0 1 1 = 0)"
proof -
  let ?s = "flat_state 1 1 1"
  have w: "wf ?s" by (simp add: wf_def flat_state_def nghost_def nfield_def)
  from flat_step [of 0 "1 / 10"] obtain s' where
    s': "compute_step 0 (1 / 10) ?s = Inr s'" by auto
  from C1_predictor_corrector [OF w _ s'] obtain s1 s2 s3 where
    st: "predictor (0.5 * (1 / 10) / dx ?s) (0.5 * (1 / 10) / dy ?s) ?s = Inr s1"
      "half_step_flux s1 = Inr s2"
      "corrector 0 (0.5 * (1 / 10) / dx ?s) (0.5 * (1 / 10) / dy ?s) s2 = Inr s3"
      "copy_back 0 s3 = Inr s'" "v_vec s' = v_vec s3"
    and pr: "\<And>k ix iy. 0 \<le> k \<and> k < nfield \<and> 1 \<le> ix \<and> ix < nx_all ?s - 1
                  \<and> 1 \<le> iy \<and> iy < ny_all ?s - 1 \<Longrightarrow>
          at_cell ?s (v_vec s1) k ix iy
            = at_cell ?s (u_vec ?s) k ix iy
              - (0.5 * (1 / 10) / dx ?s) * at_cell ?s (fx_vec ?s) k ix iy
              - (0.5 * (1 / 10) / dy ?s) * at_cell ?s (gy_vec ?s) k ix iy
        \<and> at_cell ?s (f_vec s2) k ix iy = flux_f ?s (v_vec s1) k ix iy
        \<and> at_cell ?s (g_vec s2) k ix iy = flux_g ?s (v_vec s1) k ix iy"
    by auto
  have g: "nx_all ?s = 7" "ny_all ?s = 7" by (simp_all add: flat_state_def)
  have u: "at_cell ?s (u_vec ?s) 0 1 1 = 1" "at_cell ?s (u_vec ?s) 1 1 1 = 0"
    "at_cell ?s (fx_vec ?s) 0 1 1 = 0" "at_cell ?s (fx_vec ?s) 1 1 1 = 0"
    "at_cell ?s (gy_vec ?s) 0 1 1 = 0" "at_cell ?s (gy_vec ?s) 1 1 1 = 0"
    by (simp_all add: at_cell_def flat_state_def offset_def el_def nth_append)
  have v0: "at_cell ?s (v_vec s1) 0 1 1 = 1" and f0: "at_cell ?s (f_vec s2) 0 1 1 = flux_f ?s (v_vec s1) 0 1 1"
    using pr [of 0 1 1] by (simp_all add: g nfield_def u)
  have v1: "at_cell ?s (v_vec s1) 1 1 1 = 0"
    using pr [of 1 1 1] by (simp add: g nfield_def u)
  have "at_cell ?s (f_vec s2) 0 1 1 = 0"
    using f0 v1 by (simp add: flux_f_def Let_def)
  with w s' st v0 v1 show ?thesis by blast
qed

section \<open>The turns of the loop of \<open>run\<close>\<close>

text \<open>What a sequence of stages that returns has gone through, and a loop rule for a
  loop that is known to return.\<close>

lemma rbind_eq_Inr: "rbind m f = Inr y \<longleftrightarrow> (\<exists>x. m = Inr x \<and> f x = Inr y)"
  by (cases m) simp_all

lemma for_loop_partial:
  assumes "for_loop js body s = Inr s'" and "I s"
    and "\<And>i s s'. i \<in> set js \<Longrightarrow> I s \<Longrightarrow> body i s = Inr s' \<Longrightarrow> I s'"
  shows "I s'"
  using assms
proof (induction js arbitrary: s)
  case Nil
  then show ?case by simp
next
  case (Cons j js)
  from Cons.prems(1) obtain s1 where s1: "body j s = Inr s1" "for_loop js body s1 = Inr s'"
    by (cases "body j s") simp_all
  have "I s1" using Cons.prems(3) [of j s s1] Cons.prems(2) s1(1) by simp
  show ?case
    by (rule Cons.IH [OF s1(2) \<open>I s1\<close>]) (rule Cons.prems(3), simp_all)
qed

lemma wave_speed_seed:
  assumes "Shallow2D_wave_speed (cx0, cy0) U ub n st = Inr (cx, cy)"
  shows "cx0 \<le> cx \<and> cy0 \<le> cy"
proof -
  let ?I = "\<lambda>c::real \<times> real. cx0 \<le> fst c \<and> cy0 \<le> snd c"
  have "?I (cx, cy)"
  proof (rule for_loop_partial [where I = ?I])
    show "for_loop [0..n - 1] (wave_speed_cell U ub st) (cx0, cy0) = Inr (cx, cy)"
      using assms by (simp add: Shallow2D_wave_speed_def for_range_def)
    show "?I (cx0, cy0)" by simp
  next
    fix i c c'
    assume "?I c" "wave_speed_cell U ub st i c = Inr c'"
    then show "?I c'"
      by (cases c) (auto simp: wave_speed_cell_def rbind_eq_Inr)
  qed
  then show ?thesis by simp
qed

lemma compute_fg_speeds_seed:
  assumes "compute_fg_speeds s = Inr (s', cx, cy)"
  shows "1 / 10 ^ 15 \<le> cx \<and> 1 / 10 ^ 15 \<le> cy"
proof -
  from assms have "Shallow2D_wave_speed (1 / 10 ^ 15, 1 / 10 ^ 15) (u_vec s) 0
              (nx_all s * ny_all s) (nx_all s * ny_all s) = Inr (cx, cy)"
    by (auto simp: compute_fg_speeds_def rbind_eq_Inr)
  from wave_speed_seed [OF this] show ?thesis .
qed

lemma choose_dt_Inr:
  fixes tfinal :: real
  assumes "choose_dt tfinal (cx, cy) r = Inr (d, fin)"
  shows "dx (sim r) \<noteq> 0 \<and> dy (sim r) \<noteq> 0
       \<and> max (cx / dx (sim r)) (cy / dy (sim r)) \<noteq> 0
       \<and> d = (if t r + 2 * (cfl (sim r) / max (cx / dx (sim r)) (cy / dy (sim r))) \<ge> tfinal
              then (tfinal - t r) / 2
              else cfl (sim r) / max (cx / dx (sim r)) (cy / dy (sim r)))
       \<and> fin = (t r + 2 * (cfl (sim r) / max (cx / dx (sim r)) (cy / dy (sim r))) \<ge> tfinal
                  \<or> finished r)"
  using assms by (auto simp: choose_dt_def fdiv_def rbind_eq_Inr split: if_splits)

lemma run_half_step_Inr:
  fixes tfinal :: real
  assumes "run_half_step limdiff tfinal io r = Inr r'"
  shows "\<exists>d fin cx cy s1. half_stepped limdiff io d fin r cx cy s1 r'
           \<and> (if io = 0 then choose_dt tfinal (cx, cy) r = Inr (d, fin)
               else d = dt r \<and> fin = finished r)"
proof -
  from assms obtain s1 sc s3 dd s4 where
    a: "apply_periodic (sim r) = Inr s1" "compute_fg_speeds s1 = Inr sc"
      "limited_derivs limdiff (fst sc) = Inr s3"
      "(if io = 0 then choose_dt tfinal (snd sc) r else Inr (dt r, finished r)) = Inr dd"
      "compute_step io (fst dd) s3 = Inr s4"
      "r' = r\<lparr>finished := snd dd, t := t r + fst dd, dt := fst dd, sim := s4,
                  steps := steps r @ [(io, fst dd)],
                  measured := measured r @ [(io, snd sc)]\<rparr>"
    unfolding run_half_step_def rbind_eq_Inr by auto
  obtain s2 cx cy where sc: "sc = (s2, cx, cy)" by (cases sc) auto
  obtain d fin where dd: "dd = (d, fin)" by (cases dd) auto
  have "half_stepped limdiff io d fin r cx cy s1 r'"
    unfolding half_stepped_def using a sc dd by auto
  moreover have "if io = 0 then choose_dt tfinal (cx, cy) r = Inr (d, fin)
               else d = dt r \<and> fin = finished r"
    using a(4) sc dd by (auto split: if_splits)
  ultimately show ?thesis by blast
qed

lemma macro_step_Inr:
  fixes tfinal :: real
  assumes "macro_step limdiff tfinal r = Inr r'"
  shows "\<exists>d fin cx cy s1 r1 cx1 cy1 s1'.
           half_stepped limdiff 0 d fin r cx cy s1 r1
         \<and> choose_dt tfinal (cx, cy) r = Inr (d, fin)
         \<and> half_stepped limdiff 1 d fin r1 cx1 cy1 s1' r'"
proof -
  from assms obtain r1 where r1: "run_half_step limdiff tfinal 0 r = Inr r1"
      "run_half_step limdiff tfinal 1 r1 = Inr r'"
    by (auto simp: macro_step_def for_range_next for_range_done rbind_eq_Inr)
  from run_half_step_Inr [OF r1(1)] obtain d fin cx cy s1 where
    h0: "half_stepped limdiff 0 d fin r cx cy s1 r1" "choose_dt tfinal (cx, cy) r = Inr (d, fin)"
    by auto
  have r1v: "dt r1 = d" "finished r1 = fin"
    using h0(1) by (auto simp: half_stepped_def)
  from run_half_step_Inr [OF r1(2)] obtain cx1 cy1 s1' where
    "half_stepped limdiff 1 d fin r1 cx1 cy1 s1' r'"
    by (auto simp: r1v)
  with h0 show ?thesis by blast
qed

lemma macro_step_steps:
  fixes tfinal :: real
  assumes "macro_step limdiff tfinal r = Inr r'"
  shows "\<exists>d. steps r' = steps r @ [(0, d), (1, d)]"
proof -
  from macro_step_Inr [OF assms] obtain d fin cx cy s1 r1 cx1 cy1 s1' where
    "half_stepped limdiff 0 d fin r cx cy s1 r1" "half_stepped limdiff 1 d fin r1 cx1 cy1 s1' r'"
    by blast
  then have "steps r' = steps r @ [(0, d), (1, d)]"
    by (auto simp: half_stepped_def)
  then show ?thesis ..
qed

lemma run_loop_steps:
  fixes tfinal :: real
  assumes "run_loop n limdiff tfinal r = Some (Inr r')"
  shows "\<exists>ds. steps r' = steps r @ pairs_of ds \<and> finished r' \<and> (\<not> finished r \<longrightarrow> ds \<noteq> [])"
  using assms
proof (induction n arbitrary: r)
  case 0
  then have "finished r" "r' = r" by (auto split: if_splits)
  then show ?case by (intro exI [of _ "[]"]) (simp add: pairs_of_def)
next
  case (Suc n)
  show ?case
  proof (cases "finished r")
    case True
    with Suc.prems have "r' = r" by simp
    with True show ?thesis by (intro exI [of _ "[]"]) (simp add: pairs_of_def)
  next
    case False
    with Suc.prems obtain r1 where r1: "macro_step limdiff tfinal r = Inr r1"
        "run_loop n limdiff tfinal r1 = Some (Inr r')"
      by (cases "macro_step limdiff tfinal r") auto
    from macro_step_steps [OF r1(1)] obtain d where d: "steps r1 = steps r @ [(0, d), (1, d)]" ..
    from Suc.IH [OF r1(2)] obtain ds where
      ds: "steps r' = steps r1 @ pairs_of ds" "finished r'" by blast
    have "steps r' = steps r @ pairs_of (d # ds)"
      using d ds(1) by (simp add: pairs_of_def)
    with ds(2) show ?thesis by blast
  qed
qed


section \<open>What \<open>limited_derivs\<close> computes\<close>

text \<open>With \<open>nx \<le> ny\<close> the loop stays inside the arrays; it writes the flat indices from
  \<open>ny_all\<close> to \<open>nfield * (ny_all - 1) * nx_all\<close> and leaves the last \<open>nfield\<close> rows of the
  last field as they were.\<close>

lemma derivs_inv_start: "derivs_inv limdiff s {} s"
  unfolding derivs_inv_def
  by (rule exI [of _ "ux_vec s"], rule exI [of _ "fx_vec s"], rule exI [of _ "uy_vec s"],
      rule exI [of _ "gy_vec s"]) simp

lemma limited_derivs_cell_ok:
  assumes wf: "wf s" and i: "nx_all s \<le> i" "i + nx_all s < 3 * (nx_all s * ny_all s)"
    and inv: "derivs_inv limdiff s S z"
  shows "\<exists>z'. limited_derivs_cell limdiff i z = Inr z' \<and> derivs_inv limdiff s (S \<union> {i}) z'"
proof -
  from inv obtain UX FX UY GY where
    z: "z = s\<lparr>ux_vec := UX, fx_vec := FX, uy_vec := UY, gy_vec := GY\<rparr>"
    and len: "length UX = length (ux_vec s)" "length FX = length (fx_vec s)"
      "length UY = length (uy_vec s)" "length GY = length (gy_vec s)"
    and old: "\<And>i. 0 \<le> i \<Longrightarrow>
              el UX i = (if i \<in> S
                         then limdiff (el (u_vec s) (i - 1)) (el (u_vec s) i) (el (u_vec s) (i + 1))
                         else el (ux_vec s) i)
            \<and> el FX i = (if i \<in> S
                         then limdiff (el (f_vec s) (i - 1)) (el (f_vec s) i) (el (f_vec s) (i + 1))
                         else el (fx_vec s) i)
            \<and> el UY i = (if i \<in> S
                         then limdiff (el (u_vec s) (i - nx_all s)) (el (u_vec s) i)
                                (el (u_vec s) (i + nx_all s))
                         else el (uy_vec s) i)
            \<and> el GY i = (if i \<in> S
                         then limdiff (el (g_vec s) (i - nx_all s)) (el (g_vec s) i)
                                (el (g_vec s) (i + nx_all s))
                         else el (gy_vec s) i)"
    unfolding derivs_inv_def by blast
  note sz = wf_size [OF wf]
  have a: "7 \<le> nx_all s" using wf by (simp add: wf_def nghost_def)
  let ?u = "u_vec s" and ?f = "f_vec s" and ?g = "g_vec s"
  let ?n = "nx_all s"
  define x1 where "x1 = limdiff (el ?u (i - 1)) (el ?u i) (el ?u (i + 1))"
  define x2 where "x2 = limdiff (el ?f (i - 1)) (el ?f i) (el ?f (i + 1))"
  define x3 where "x3 = limdiff (el ?u (i - ?n)) (el ?u i) (el ?u (i + ?n))"
  define x4 where "x4 = limdiff (el ?g (i - ?n)) (el ?g i) (el ?g (i + ?n))"
  have r: "rd ?u (i - 1) = Inr (el ?u (i - 1))" "rd ?u i = Inr (el ?u i)"
    "rd ?u (i + 1) = Inr (el ?u (i + 1))"
    "rd ?f (i - 1) = Inr (el ?f (i - 1))" "rd ?f i = Inr (el ?f i)"
    "rd ?f (i + 1) = Inr (el ?f (i + 1))"
    "rd ?u (i - ?n) = Inr (el ?u (i - ?n))" "rd ?u (i + ?n) = Inr (el ?u (i + ?n))"
    "rd ?g (i - ?n) = Inr (el ?g (i - ?n))" "rd ?g i = Inr (el ?g i)"
    "rd ?g (i + ?n) = Inr (el ?g (i + ?n))"
    using a i sz by (auto intro!: rd_Inr)
  have w: "wr UX i x = Inr (UX[nat i := x])" "wr FX i x = Inr (FX[nat i := x])"
    "wr UY i x = Inr (UY[nat i := x])" "wr GY i x = Inr (GY[nat i := x])" for x
    using a i sz len by (auto intro!: wr_Inr)
  have step: "limited_derivs_cell limdiff i z
      = Inr (s\<lparr>ux_vec := UX[nat i := x1], fx_vec := FX[nat i := x2],
                uy_vec := UY[nat i := x3], gy_vec := GY[nat i := x4]\<rparr>)"
    unfolding z limited_derivs_cell_def by (simp add: r w x1_def x2_def x3_def x4_def)
  have ib: "0 \<le> i" "i < int (length UX)" "i < int (length FX)" "i < int (length UY)"
    "i < int (length GY)"
    using a i sz len by auto
  have "derivs_inv limdiff s (S \<union> {i})
          (s\<lparr>ux_vec := UX[nat i := x1], fx_vec := FX[nat i := x2],
              uy_vec := UY[nat i := x3], gy_vec := GY[nat i := x4]\<rparr>)"
    unfolding derivs_inv_def
  proof (rule exI [of _ "UX[nat i := x1]"], rule exI [of _ "FX[nat i := x2]"],
      rule exI [of _ "UY[nat i := x3]"], rule exI [of _ "GY[nat i := x4]"], intro conjI allI impI)
    fix j :: int
    assume j: "0 \<le> j"
    show "el (UX[nat i := x1]) j = (if j \<in> S \<union> {i}
                         then limdiff (el (u_vec s) (j - 1)) (el (u_vec s) j) (el (u_vec s) (j + 1))
                         else el (ux_vec s) j)"
      using old [OF j] ib j by (cases "j = i") (simp_all add: el_update x1_def)
    show "el (FX[nat i := x2]) j = (if j \<in> S \<union> {i}
                         then limdiff (el (f_vec s) (j - 1)) (el (f_vec s) j) (el (f_vec s) (j + 1))
                         else el (fx_vec s) j)"
      using old [OF j] ib j by (cases "j = i") (simp_all add: el_update x2_def)
    show "el (UY[nat i := x3]) j = (if j \<in> S \<union> {i}
                         then limdiff (el (u_vec s) (j - nx_all s)) (el (u_vec s) j)
                                (el (u_vec s) (j + nx_all s))
                         else el (uy_vec s) j)"
      using old [OF j] ib j by (cases "j = i") (simp_all add: el_update x3_def)
    show "el (GY[nat i := x4]) j = (if j \<in> S \<union> {i}
                         then limdiff (el (g_vec s) (j - nx_all s)) (el (g_vec s) j)
                                (el (g_vec s) (j + nx_all s))
                         else el (gy_vec s) j)"
      using old [OF j] ib j by (cases "j = i") (simp_all add: el_update x4_def)
  qed (simp_all add: len)
  with step show ?thesis by blast
qed

lemma limited_derivs_ok:
  assumes wf: "wf s" and le: "nx s \<le> ny s"
  shows "\<exists>z. limited_derivs limdiff s = Inr z
           \<and> derivs_inv limdiff s ({} \<union> (\<Union>i\<in>{ny_all s..<nfield * (ny_all s - 1) * nx_all s}. {i})) z"
  unfolding limited_derivs_def Let_def
proof (rule for_range_rule [where I = "derivs_inv limdiff s" and W = "\<lambda>i. {i}"])
  show "derivs_inv limdiff s {} s" by (rule derivs_inv_start)
next
  fix i S z
  assume i: "ny_all s \<le> i" "i < nfield * (ny_all s - 1) * nx_all s"
    and inv: "derivs_inv limdiff s S z"
  have "nx_all s \<le> ny_all s" using wf le by (simp add: wf_def)
  then have lo: "nx_all s \<le> i" using i by simp
  have "i + nx_all s < 3 * (nx_all s * ny_all s)"
    using i wf by (simp add: nfield_def algebra_simps wf_def nghost_def)
  from limited_derivs_cell_ok [OF wf lo this inv]
  show "\<exists>s'. limited_derivs_cell limdiff i z = Inr s' \<and> derivs_inv limdiff s (S \<union> {i}) s'" .
qed

section \<open>Still water\<close>

text \<open>A run of \<open>run\<close> followed by hand: on a grid of one cell with still water the
  state stays as it is, whatever the step, so every stage returns and the steps are
  known.\<close>

lemma Shallow2D_wave_speed_uniform:
  assumes b: "0 \<le> ub" "0 < n" "n \<le> st" "ub + 2 * st + n \<le> int (length U)"
    and u: "\<forall>i. 0 \<le> i \<and> i < n \<longrightarrow>
              el U (ub + i) = h \<and> el U (ub + st + i) = hu \<and> el U (ub + 2 * st + i) = hv"
    and h: "0 < h"
  shows "Shallow2D_wave_speed (cx0, cy0) U ub n st
           = Inr (max cx0 (\<bar>hu / h\<bar> + sqrt (Shallow2D_g * h)),
                  max cy0 (\<bar>hv / h\<bar> + sqrt (Shallow2D_g * h)))"
proof -
  define v where "v = \<bar>hu / h\<bar> + sqrt (Shallow2D_g * h)"
  define w where "w = \<bar>hv / h\<bar> + sqrt (Shallow2D_g * h)"
  have cell: "wave_speed_cell U ub st i (a, c) = Inr (max a v, max c w)"
    if i: "0 \<le> i" "i < n" for i a c
  proof -
    have r: "rd U (ub + i) = Inr h" "rd U (ub + st + i) = Inr hu"
      "rd U (ub + 2 * st + i) = Inr hv"
      using b i u by (auto simp: rd_Inr)
    have "0 \<le> Shallow2D_g * h" using h by (simp add: Shallow2D_g_def)
    then show ?thesis
      using h by (simp add: wave_speed_cell_def r fsqrt_def fdiv_def v_def w_def)
  qed
  have "\<exists>c. for_range 1 n (wave_speed_cell U ub st) (max cx0 v, max cy0 w) = Inr c
          \<and> c = (max cx0 v, max cy0 w)"
  proof (rule for_range_inv [where I = "\<lambda>c. c = (max cx0 v, max cy0 w)"])
    fix i c
    assume "1 \<le> i" "i < n" "c = (max cx0 v, max cy0 w)"
    then show "\<exists>s'. wave_speed_cell U ub st i c = Inr s' \<and> s' = (max cx0 v, max cy0 w)"
      using cell [of i "max cx0 v" "max cy0 w"] by simp
  qed simp
  then have "for_range 0 n (wave_speed_cell U ub st) (cx0, cy0) = Inr (max cx0 v, max cy0 w)"
    using b(2) cell [of 0 cx0 cy0] by (simp add: for_range_next)
  then show ?thesis
    by (simp add: Shallow2D_wave_speed_def v_def w_def)
qed

lemma still_step:
  assumes st: "still s H" and d: "dx s \<noteq> 0" "dy s \<noteq> 0" and io: "io = 0 \<or> io = 1"
    and lim: "\<And>c. limdiff c c c = 0"
  shows "\<exists>s1 s2 s3 s4. apply_periodic s = Inr s1
      \<and> compute_fg_speeds s1 = Inr (s2, max (1 / 10 ^ 15) (sqrt (Shallow2D_g * H)),
                                      max (1 / 10 ^ 15) (sqrt (Shallow2D_g * H)))
      \<and> limited_derivs limdiff s2 = Inr s3 \<and> compute_step io e s3 = Inr s4
      \<and> still s4 H \<and> dx s4 = dx s \<and> dy s4 = dy s \<and> cfl s4 = cfl s"
proof -
  from st have wf: "wf s" and g: "nx s = 1" "ny s = 1" and H: "0 < H"
    and u0: "at_cell s (u_vec s) 0 3 3 = H" "at_cell s (u_vec s) 1 3 3 = 0"
      "at_cell s (u_vec s) 2 3 3 = 0"
    and dz0: "\<And>k ix iy. 0 \<le> k \<Longrightarrow> k < 3 \<Longrightarrow> 1 \<le> ix \<Longrightarrow> ix < 6 \<Longrightarrow> 1 \<le> iy \<Longrightarrow> iy < 6 \<Longrightarrow>
           at_cell s (ux_vec s) k ix iy = 0 \<and> at_cell s (uy_vec s) k ix iy = 0
         \<and> at_cell s (fx_vec s) k ix iy = 0 \<and> at_cell s (gy_vec s) k ix iy = 0"
    unfolding still_def by blast+
  define base :: "int \<Rightarrow> real" where "base k = (if k = 0 then H else 0)" for k
  define c where "c = (0.5 * Shallow2D_g) * H * H"
  define fbase :: "int \<Rightarrow> real" where "fbase k = (if k = 1 then c else 0)" for k
  define gbase :: "int \<Rightarrow> real" where "gbase k = (if k = 2 then c else 0)" for k
  have na: "nx_all s = 7" "ny_all s = 7" using wf g by (simp_all add: wf_def nghost_def)
  have n2: "nx s \<noteq> 2" "ny s \<noteq> 2" using g by simp_all
  have k3: "k = 0 \<or> k = 1 \<or> k = 2" if "0 \<le> k" "k < 3" for k :: int using that by auto
  have ofs: "offset z k ix iy = k * 49 + (iy * 7 + ix)"
    if "nx_all z = 7" "ny_all z = 7" for z k ix iy
    using that by (simp add: offset_def algebra_simps)
  have cellb: "0 \<le> iy * 7 + ix \<and> iy * 7 + ix < 49"
    if "0 \<le> ix" "ix < 7" "0 \<le> iy" "iy < 7" for ix iy :: int
    using that by auto
  from apply_periodic_ok [OF wf n2] obtain U1 where
    s1: "apply_periodic s = Inr (s\<lparr>u_vec := U1\<rparr>)" and l1: "length U1 = length (u_vec s)"
    and c1: "\<And>k ix iy. padded s k ix iy \<Longrightarrow>
               el U1 (offset s k ix iy)
                 = el (u_vec s) (offset s k (canon (nx s) ix) (canon (ny s) iy))"
    by blast
  have cn: "canon 1 x = 3" for x by (simp add: canon_def nghost_def)
  have flat: "el U1 (k * 49 + j) = base k" if "0 \<le> k" "k < 3" "0 \<le> j" "j < 49" for k j
  proof -
    have "0 \<le> j div 7" "j div 7 < 7" using that by presburger+
    then have p: "padded s k (j mod 7) (j div 7)"
      using that by (simp add: padded_def na nfield_def)
    have "offset s k (j mod 7) (j div 7) = k * 49 + j"
      by (simp add: ofs [OF na])
    with c1 [OF p] have "el U1 (k * 49 + j) = at_cell s (u_vec s) k 3 3"
      by (simp add: g cn at_cell_def)
    then show ?thesis using k3 [OF that(1,2)] u0 by (auto simp: base_def)
  qed
  let ?s1 = "s\<lparr>u_vec := U1\<rparr>"
  have wf1: "wf ?s1" using wf l1 by (simp add: wf_def)
  note sz1 = wf_size [OF wf1]
  have nz: "\<forall>i. 0 \<le> i \<and> i < 49 \<longrightarrow> el U1 (0 + i) \<noteq> 0"
    using flat [of 0] H by (auto simp: base_def)
  have un: "\<forall>i. 0 \<le> i \<and> i < 49 \<longrightarrow>
              el U1 (0 + i) = H \<and> el U1 (0 + 49 + i) = 0 \<and> el U1 (0 + 2 * 49 + i) = 0"
    using flat [of 0] flat [of 1] flat [of 2] by (auto simp: base_def)
  obtain F G where fl: "Shallow2D_flux (f_vec s) 0 (g_vec s) 0 U1 0 49 49 = Inr (F, G)"
    and lfg: "length F = length (f_vec s)" "length G = length (g_vec s)"
    and fv: "\<And>i. 0 \<le> i \<Longrightarrow> i < 49 \<Longrightarrow> flux_values F G 0 0 U1 0 49 i"
    using Shallow2D_flux_ok [OF _ _ _ _ _ _ _ _ nz, of 0 0 49 "f_vec s" "g_vec s"] sz1
    by (auto simp: na flux_frame_def)
  have fflat: "el F (k * 49 + j) = fbase k \<and> el G (k * 49 + j) = gbase k"
    if "0 \<le> k" "k < 3" "0 \<le> j" "j < 49" for k j
    using fv [OF that(3,4)] un that(3,4) k3 [OF that(1,2)]
    by (auto simp: flux_values_def Let_def fbase_def gbase_def c_def)
  have ws: "Shallow2D_wave_speed (1 / 10 ^ 15, 1 / 10 ^ 15) U1 0 49 49
              = Inr (max (1 / 10 ^ 15) (\<bar>0 / H\<bar> + sqrt (Shallow2D_g * H)),
                     max (1 / 10 ^ 15) (\<bar>0 / H\<bar> + sqrt (Shallow2D_g * H)))"
    using sz1 by (intro Shallow2D_wave_speed_uniform un H) (simp_all add: na)
  let ?s2 = "s\<lparr>u_vec := U1, f_vec := F, g_vec := G\<rparr>"
  have s2: "compute_fg_speeds ?s1 = Inr (?s2, max (1 / 10 ^ 15) (sqrt (Shallow2D_g * H)),
                                      max (1 / 10 ^ 15) (sqrt (Shallow2D_g * H)))"
    using ws by (simp add: compute_fg_speeds_def na fl)
  have wf2: "wf ?s2" using wf l1 lfg by (simp add: wf_def)
  have le: "nx ?s2 \<le> ny ?s2" by (simp add: g)
  from limited_derivs_ok [OF wf2 le, of limdiff] obtain s3 where
    s3: "limited_derivs limdiff ?s2 = Inr s3"
    and di: "derivs_inv limdiff ?s2 {7..<126} s3"
    by (auto simp: na nfield_def)
  from di obtain UX FX UY GY where
    z3: "s3 = ?s2\<lparr>ux_vec := UX, fx_vec := FX, uy_vec := UY, gy_vec := GY\<rparr>"
    and l3: "length UX = length (ux_vec s)" "length FX = length (fx_vec s)"
      "length UY = length (uy_vec s)" "length GY = length (gy_vec s)"
    and c3: "\<And>i. 0 \<le> i \<Longrightarrow>
        el UX i = (if i \<in> {7..<126} then limdiff (el U1 (i - 1)) (el U1 i) (el U1 (i + 1))
                   else el (ux_vec s) i)
      \<and> el FX i = (if i \<in> {7..<126} then limdiff (el F (i - 1)) (el F i) (el F (i + 1))
                   else el (fx_vec s) i)
      \<and> el UY i = (if i \<in> {7..<126} then limdiff (el U1 (i - 7)) (el U1 i) (el U1 (i + 7))
                   else el (uy_vec s) i)
      \<and> el GY i = (if i \<in> {7..<126} then limdiff (el G (i - 7)) (el G i) (el G (i + 7))
                   else el (gy_vec s) i)"
    unfolding derivs_inv_def by (auto simp: na)
  have dz: "el UX (k * 49 + (iy * 7 + ix)) = 0 \<and> el FX (k * 49 + (iy * 7 + ix)) = 0
          \<and> el UY (k * 49 + (iy * 7 + ix)) = 0 \<and> el GY (k * 49 + (iy * 7 + ix)) = 0"
    if r: "0 \<le> k" "k < 3" "1 \<le> ix" "ix < 6" "1 \<le> iy" "iy < 6" for k ix iy
  proof -
    let ?j = "iy * 7 + ix"
    let ?i = "k * 49 + ?j"
    have j: "8 \<le> ?j" "?j < 41" using r by auto
    have i0: "0 \<le> ?i" using r j by auto
    have nb: "?i - 1 = k * 49 + (?j - 1)" "?i + 1 = k * 49 + (?j + 1)"
      "?i - 7 = k * 49 + (?j - 7)" "?i + 7 = k * 49 + (?j + 7)"
      by simp_all
    have uu: "el U1 (?i - 1) = base k" "el U1 ?i = base k" "el U1 (?i + 1) = base k"
      "el U1 (?i - 7) = base k" "el U1 (?i + 7) = base k"
      unfolding nb using j r(1,2) by (auto intro!: flat)
    have ff: "el F (?i - 1) = fbase k" "el F ?i = fbase k" "el F (?i + 1) = fbase k"
      "el G (?i - 7) = gbase k" "el G ?i = gbase k" "el G (?i + 7) = gbase k"
      unfolding nb using j r(1,2) fflat [of k "?j - 1"] fflat [of k ?j] fflat [of k "?j + 1"]
        fflat [of k "?j - 7"] fflat [of k "?j + 7"]
      by auto
    have old: "el (ux_vec s) ?i = 0" "el (uy_vec s) ?i = 0" "el (fx_vec s) ?i = 0"
      "el (gy_vec s) ?i = 0"
      using dz0 [OF r] by (simp_all add: at_cell_def ofs [OF na])
    show ?thesis
      using c3 [OF i0] unfolding uu ff old lim by (simp split: if_splits)
  qed
  have wf3: "wf s3" using wf l1 lfg l3 by (simp add: wf_def z3)
  have g3: "nx_all s3 = 7" "ny_all s3 = 7" "nx s3 = 1" "ny s3 = 1" "u_vec s3 = U1"
    "ux_vec s3 = UX" "uy_vec s3 = UY" "fx_vec s3 = FX" "gy_vec s3 = GY"
    "f_vec s3 = F" "g_vec s3 = G" "dx s3 = dx s" "dy s3 = dy s" "cfl s3 = cfl s"
    by (simp_all add: z3 na g)
  have d3: "dx s3 \<noteq> 0" "dy s3 \<noteq> 0" using d by (simp_all add: g3)
  define a where "a = 0.5 * e / dx s3"
  define b where "b = 0.5 * e / dy s3"
  have ucell: "at_cell z U1 k ix iy = base k"
    if "nx_all z = 7" "ny_all z = 7" "0 \<le> k" "k < 3" "0 \<le> ix" "ix < 7" "0 \<le> iy" "iy < 7"
    for z k ix iy
    using that cellb [of ix iy] by (simp add: at_cell_def ofs flat)
  have fcell: "at_cell z F k ix iy = fbase k \<and> at_cell z G k ix iy = gbase k"
    if "nx_all z = 7" "ny_all z = 7" "0 \<le> k" "k < 3" "0 \<le> ix" "ix < 7" "0 \<le> iy" "iy < 7"
    for z k ix iy
    using that cellb [of ix iy] by (simp add: at_cell_def ofs fflat)
  have dcell: "at_cell z UX k ix iy = 0 \<and> at_cell z FX k ix iy = 0
             \<and> at_cell z UY k ix iy = 0 \<and> at_cell z GY k ix iy = 0"
    if "nx_all z = 7" "ny_all z = 7" "0 \<le> k" "k < 3" "1 \<le> ix" "ix < 6" "1 \<le> iy" "iy < 6"
    for z k ix iy
    using that dz [of k ix iy] by (simp add: at_cell_def ofs)
  have pv: "predicted s3 a b k ix iy = base k"
    if "0 \<le> k" "k < 3" "1 \<le> ix" "ix < 6" "1 \<le> iy" "iy < 6" for k ix iy
    using that ucell [OF g3(1,2), of k ix iy] dcell [OF g3(1,2), of k ix iy]
    by (simp add: predicted_def g3)
  have pr: "\<forall>ix iy. 1 \<le> ix \<and> ix < nx_all s3 - 1 \<and> 1 \<le> iy \<and> iy < ny_all s3 - 1
             \<longrightarrow> predicted s3 a b 0 ix iy \<noteq> 0"
    using H pv [of 0] by (auto simp: g3 base_def)
  with compute_step_cases [OF wf3 io d3, of e] obtain z1 z2 z3 s4 where
    cs: "compute_step io e s3 = Inr s4"
    and "stages s3 io a b z1 z2 z3 s4"
    unfolding a_def b_def by blast
  then have sg: "v_inv s3 (predicted s3 a b) (ring_cells s3) z1"
    "fg_inv z1 {1..<ny_all s3 - 1} z2"
    "v_inv z2 (corrected z2 a b) (window_cells s3 io) z3"
    "u_copied z3 io {0..<nfield} s4"
    by (auto simp: stages_def)
  have wz1: "wf z1" using wf_v_inv [OF wf3 sg(1)] .
  have wz2: "wf z2" using wf_fg_inv [OF wz1 sg(2)] .
  have wz3: "wf z3" using wf_v_inv [OF wz2 sg(3)] .
  have gz1: "nx_all z1 = 7" "ny_all z1 = 7" "f_vec z1 = F" "g_vec z1 = G"
    using sg(1) g3 by (auto simp: v_inv_def)
  have gz2: "nx_all z2 = 7" "ny_all z2 = 7" "nx z2 = 1" "ny z2 = 1" "u_vec z2 = U1"
    "ux_vec z2 = UX" "uy_vec z2 = UY" "fx_vec z2 = FX" "gy_vec z2 = GY"
    "dx z2 = dx s" "dy z2 = dy s" "cfl z2 = cfl s"
    using sg(1,2) g3 by (auto simp: v_inv_def fg_inv_def)
  have gz3: "nx_all z3 = 7" "ny_all z3 = 7" "nx z3 = 1" "ny z3 = 1"
    "ux_vec z3 = UX" "uy_vec z3 = UY" "fx_vec z3 = FX" "gy_vec z3 = GY"
    "dx z3 = dx s" "dy z3 = dy s" "cfl z3 = cfl s"
    using sg(3) gz2 by (auto simp: v_inv_def)
  have v1: "at_cell z1 (v_vec z1) k ix iy = base k"
    if r: "0 \<le> k" "k < 3" "1 \<le> ix" "ix < 6" "1 \<le> iy" "iy < 6" for k ix iy
  proof -
    have m: "(k, ix, iy) \<in> ring_cells s3" using r by (simp add: ring_cells_iff g3 nfield_def)
    from v_inv_value [OF wf3 sg(1) ring_padded [OF wf3 m] m] pv [OF r]
    show ?thesis by (simp add: at_cell_def ofs [OF gz1(1,2)] ofs [OF g3(1,2)])
  qed
  have f2: "at_cell z2 (f_vec z2) k ix iy = fbase k \<and> at_cell z2 (g_vec z2) k ix iy = gbase k"
    if r: "0 \<le> k" "k < 3" "0 \<le> ix" "ix < 7" "0 \<le> iy" "iy < 7" for k ix iy
  proof -
    have p: "padded z1 k ix iy" using r by (simp add: padded_def gz1 nfield_def)
    from sg(2) p have fg:
      "el (f_vec z2) (offset z1 k ix iy)
         = (if iy \<in> {1..<ny_all s3 - 1} \<and> 1 \<le> ix \<and> ix < nx_all z1 - 1
            then flux_f z1 (v_vec z1) k ix iy else el (f_vec z1) (offset z1 k ix iy))"
      "el (g_vec z2) (offset z1 k ix iy)
         = (if iy \<in> {1..<ny_all s3 - 1} \<and> 1 \<le> ix \<and> ix < nx_all z1 - 1
            then flux_g z1 (v_vec z1) k ix iy else el (g_vec z1) (offset z1 k ix iy))"
      by (auto simp: fg_inv_def)
    show ?thesis
    proof (cases "1 \<le> iy \<and> iy < 6 \<and> 1 \<le> ix \<and> ix < 6")
      case True
      then have "at_cell z1 (v_vec z1) 0 ix iy = H" "at_cell z1 (v_vec z1) 1 ix iy = 0"
        "at_cell z1 (v_vec z1) 2 ix iy = 0"
        using v1 [of 0 ix iy] v1 [of 1 ix iy] v1 [of 2 ix iy] by (simp_all add: base_def)
      then have "flux_f z1 (v_vec z1) k ix iy = fbase k" "flux_g z1 (v_vec z1) k ix iy = gbase k"
        using k3 [OF r(1,2)] by (auto simp: flux_f_def flux_g_def fbase_def gbase_def c_def)
      with fg True show ?thesis
        by (simp add: at_cell_def g3 gz1 ofs [OF gz1(1,2)] ofs [OF gz2(1,2)])
    next
      case False
      then have "el (f_vec z2) (offset z1 k ix iy) = el F (offset z1 k ix iy)"
        "el (g_vec z2) (offset z1 k ix iy) = el G (offset z1 k ix iy)"
        using fg by (auto simp: g3 gz1)
      then show ?thesis
        using fcell [OF gz1(1,2) r]
        by (simp add: at_cell_def ofs [OF gz1(1,2)] ofs [OF gz2(1,2)])
    qed
  qed
  have cv: "corrected z2 a b k ix iy = base k"
    if r: "0 \<le> k" "k < 3" and x: "1 \<le> ix" "ix < 5" "1 \<le> iy" "iy < 5" for k ix iy
  proof -
    have y: "0 \<le> ix" "ix < 7" "0 \<le> ix + 1" "ix + 1 < 7" "0 \<le> iy" "iy < 7"
      "0 \<le> iy + 1" "iy + 1 < 7" "ix < 6" "1 \<le> ix + 1" "ix + 1 < 6"
      "iy < 6" "1 \<le> iy + 1" "iy + 1 < 6"
      using x by auto
    note uc = ucell [OF gz2(1,2) r]
    note dc = dcell [OF gz2(1,2) r]
    note fc = f2 [OF r]
    show ?thesis
      unfolding corrected_def gz2(5-7)
      by (simp add: uc [OF y(1,2,5,6)] uc [OF y(3,4,5,6)] uc [OF y(1,2,7,8)] uc [OF y(3,4,7,8)]
          dc [OF x(1) y(9) x(3) y(12)] dc [OF y(10,11) x(3) y(12)]
          dc [OF x(1) y(9) y(13,14)] dc [OF y(10,11) y(13,14)]
          fc [OF y(1,2,5,6)] fc [OF y(3,4,5,6)] fc [OF y(1,2,7,8)] fc [OF y(3,4,7,8)])
  qed
  from sg(4) obtain U where U: "s4 = z3\<lparr>u_vec := U\<rparr>" "length U = length (u_vec z3)"
    and cp: "\<And>k i. 0 \<le> k \<Longrightarrow> k < 3 \<Longrightarrow> 0 \<le> i \<Longrightarrow> i < ny z3 * nx_all z3 \<Longrightarrow>
              el U (offset z3 k nghost nghost + i)
                = el (v_vec z3) (offset z3 k (nghost - io) (nghost - io) + i)"
    unfolding u_copied_def by (auto simp: nfield_def)
  have wf4: "wf s4" using wz3 U by (simp add: wf_def)
  have u4: "at_cell s4 (u_vec s4) k 3 3 = base k" if r: "0 \<le> k" "k < 3" for k
  proof -
    have m: "(k, 3 - io, 3 - io) \<in> window_cells s3 io"
      using r by (simp add: window_cells_iff g3 nghost_def nfield_def)
    have p: "padded z2 k (3 - io) (3 - io)"
      using io r by (auto simp: padded_def gz2 nfield_def)
    have "at_cell z2 (v_vec z3) k (3 - io) (3 - io) = corrected z2 a b k (3 - io) (3 - io)"
      by (rule v_inv_value [OF wz2 sg(3) p m])
    also have "\<dots> = base k"
      using io by (intro cv r) auto
    finally have v: "at_cell z2 (v_vec z3) k (3 - io) (3 - io) = base k" .
    show ?thesis
      using cp [OF r, of 0] v
      by (simp add: U at_cell_def ofs [OF gz3(1,2)] ofs [OF gz2(1,2)] ofs gz3 nghost_def)
  qed
  have g4: "nx s4 = 1" "ny s4 = 1" "nx_all s4 = 7" "ny_all s4 = 7"
    "dx s4 = dx s" "dy s4 = dy s" "cfl s4 = cfl s"
    "ux_vec s4 = UX" "uy_vec s4 = UY" "fx_vec s4 = FX" "gy_vec s4 = GY"
    using U gz3 by simp_all
  have s4s: "still s4 H"
    unfolding still_def
    using wf4 g4(1,2) H u4 [of 0] u4 [of 1] u4 [of 2] dcell [OF g4(3,4)]
    by (simp add: base_def g4)
  show ?thesis
    apply (rule exI [of _ ?s1], rule exI [of _ ?s2], rule exI [of _ s3], rule exI [of _ s4])
    using s1 s2 s3 cs g4 s4s by simp
qed

lemma still_macro_step:
  fixes tfinal :: real
  assumes st: "still (sim r) H" and d: "0 < dx (sim r)" "0 < dy (sim r)"
    and lim: "\<And>c. limdiff c c c = 0"
    and C: "C = max (1 / 10 ^ 15) (sqrt (Shallow2D_g * H))"
    and dt0: "dt0 = cfl (sim r) / max (C / dx (sim r)) (C / dy (sim r))"
    and dd: "e = (if t r + 2 * dt0 \<ge> tfinal then (tfinal - t r) / 2 else dt0)"
  shows "\<exists>r'. macro_step limdiff tfinal r = Inr r'
           \<and> finished r' = (t r + 2 * dt0 \<ge> tfinal \<or> finished r)
           \<and> steps r' = steps r @ [(0, e), (1, e)] \<and> t r' = t r + e + e
           \<and> still (sim r') H \<and> dx (sim r') = dx (sim r) \<and> dy (sim r') = dy (sim r)
           \<and> cfl (sim r') = cfl (sim r)"
proof -
  have dn: "dx (sim r) \<noteq> 0" "dy (sim r) \<noteq> 0" using d by simp_all
  define fin where "fin = (t r + 2 * dt0 \<ge> tfinal \<or> finished r)"
  from still_step [where io = 0 and e = e and limdiff = limdiff, OF st dn _ lim] obtain s1 s2 s3 s4 where
    a: "apply_periodic (sim r) = Inr s1" "compute_fg_speeds s1 = Inr (s2, C, C)"
      "limited_derivs limdiff s2 = Inr s3" "compute_step 0 e s3 = Inr s4"
    and b: "still s4 H" "dx s4 = dx (sim r)" "dy s4 = dy (sim r)" "cfl s4 = cfl (sim r)"
    unfolding C by auto
  have "0 < C" unfolding C by (simp add: less_max_iff_disj)
  then have "0 < C / dx (sim r)" using d by simp
  then have M: "max (C / dx (sim r)) (C / dy (sim r)) \<noteq> 0"
    by (simp add: less_max_iff_disj less_imp_neq [THEN not_sym])
  have cd: "choose_dt tfinal (C, C) r = Inr (e, fin)"
    using dn M by (simp add: choose_dt_def fdiv_def dt0 [symmetric] dd fin_def)
  define r1 where "r1 = r\<lparr>finished := fin, t := t r + e, dt := e, sim := s4,
             steps := steps r @ [(0, e)], measured := measured r @ [(0, C, C)]\<rparr>"
  have h0: "run_half_step limdiff tfinal 0 r = Inr r1"
    by (simp add: run_half_step_def a cd r1_def)
  have dn4: "dx s4 \<noteq> 0" "dy s4 \<noteq> 0" using b dn by simp_all
  from still_step [where io = 1 and e = e and limdiff = limdiff, OF b(1) dn4 _ lim] obtain z1 z2 z3 z4 where
    c: "apply_periodic s4 = Inr z1" "compute_fg_speeds z1 = Inr (z2, C, C)"
      "limited_derivs limdiff z2 = Inr z3" "compute_step 1 e z3 = Inr z4"
    and f: "still z4 H" "dx z4 = dx s4" "dy z4 = dy s4" "cfl z4 = cfl s4"
    unfolding C by auto
  define r2 where "r2 = r1\<lparr>finished := fin, t := t r1 + e, dt := e, sim := z4,
             steps := steps r1 @ [(1, e)], measured := measured r1 @ [(1, C, C)]\<rparr>"
  have h1: "run_half_step limdiff tfinal 1 r1 = Inr r2"
    by (simp add: run_half_step_def r1_def c r2_def)
  have "macro_step limdiff tfinal r = Inr r2"
    by (simp add: macro_step_def for_range_next for_range_done h0 h1)
  moreover have "finished r2 = fin" "steps r2 = steps r @ [(0, e), (1, e)]" "t r2 = t r + e + e"
    "sim r2 = z4"
    by (simp_all add: r2_def r1_def)
  ultimately show ?thesis
    using f b unfolding fin_def by (intro exI [of _ r2]) simp
qed

lemma flat_still: "still (flat_state 1 1 1) 1"
proof -
  let ?s = "flat_state 1 1 1"
  have z: "at_cell ?s (ux_vec ?s) k ix iy = 0 \<and> at_cell ?s (uy_vec ?s) k ix iy = 0
         \<and> at_cell ?s (fx_vec ?s) k ix iy = 0 \<and> at_cell ?s (gy_vec ?s) k ix iy = 0"
    if "0 \<le> k" "k < 3" "1 \<le> ix" "ix < 6" "1 \<le> iy" "iy < 6" for k ix iy
  proof -
    have "(k * 7 + iy) * 7 \<le> (2 * 7 + 6) * 7"
      using that by (intro mult_right_mono) auto
    then have "nat ((k * 7 + iy) * 7 + ix) < 147" using that by simp
    then show ?thesis
      by (simp add: at_cell_def flat_state_def offset_def el_def)
  qed
  have u: "at_cell ?s (u_vec ?s) 0 3 3 = 1" "at_cell ?s (u_vec ?s) 1 3 3 = 0"
    "at_cell ?s (u_vec ?s) 2 3 3 = 0"
    by (simp_all add: at_cell_def flat_state_def offset_def el_def nth_append)
  have w: "wf ?s" by (simp add: wf_def flat_state_def nghost_def nfield_def)
  have n: "nx ?s = 1" "ny ?s = 1" by (simp_all add: flat_state_def)
  show ?thesis
    unfolding still_def using w n u z by simp
qed

lemma sqrt_g_bounds: "9 / 5 < sqrt Shallow2D_g" "sqrt Shallow2D_g \<le> 18 / 5"
proof -
  have "(9 / 5 :: real)\<^sup>2 < Shallow2D_g" by (simp add: Shallow2D_g_def power2_eq_square)
  then show "9 / 5 < sqrt Shallow2D_g" by (rule real_less_rsqrt)
  have "Shallow2D_g \<le> (18 / 5 :: real)\<^sup>2" by (simp add: Shallow2D_g_def power2_eq_square)
  then show "sqrt Shallow2D_g \<le> 18 / 5" by (intro real_le_lsqrt) simp_all
qed

lemma run_loop_finished: "finished r \<Longrightarrow> run_loop n limdiff tfinal r = Some (Inr r)"
  by simp

lemma run_loop_Suc:
  "\<not> finished r \<Longrightarrow> macro_step limdiff tfinal r = Inr r'
     \<Longrightarrow> run_loop (Suc n) limdiff tfinal r = run_loop n limdiff tfinal r'"
  by simp

lemma flat_run:
  "\<exists>r1 r2 e1 e2.
      macro_step (\<lambda>um u0 up. (up - um) / 2) (1 / 2)
        \<lparr>finished = False, t = 0, dt = 0, sim = flat_state 1 1 1, steps = [], measured = []\<rparr> = Inr r1
    \<and> \<not> finished r1 \<and> steps r1 = [(0, e1), (1, e1)]
    \<and> macro_step (\<lambda>um u0 up. (up - um) / 2) (1 / 2) r1 = Inr r2
    \<and> finished r2 \<and> steps r2 = [(0, e1), (1, e1), (0, e2), (1, e2)]
    \<and> run 2 (\<lambda>um u0 up. (up - um) / 2) (1 / 2) (flat_state 1 1 1) = Some (Inr r2)"
proof -
  let ?L = "\<lambda>um u0 up :: real. (up - um) / 2"
  let ?r = "\<lparr>finished = False, t = 0, dt = 0, sim = flat_state 1 1 1, steps = [], measured = []\<rparr>"
  define C where "C = max (1 / 10 ^ 15) (sqrt (Shallow2D_g * 1))"
  have Cv: "C = sqrt Shallow2D_g"
    using sqrt_g_bounds(1) by (simp add: C_def max_def)
  have Cb: "9 / 5 < C" "C \<le> 18 / 5" using sqrt_g_bounds by (simp_all add: Cv)
  define dt0 where "dt0 = (45 / 100) / C"
  have q: "dx (flat_state 1 1 1) = 1" "dy (flat_state 1 1 1) = 1"
    "cfl (flat_state 1 1 1) = 45 / 100"
    by (simp_all add: flat_state_def)
  have lo: "2 * dt0 < 1 / 2" using Cb by (simp add: dt0_def field_simps)
  have hi: "1 / 2 \<le> 2 * dt0 + 2 * dt0" using Cb by (simp add: dt0_def field_simps)
  have lim: "?L c c c = 0" for c by simp
  have "\<exists>r'. macro_step ?L (1 / 2) ?r = Inr r'
           \<and> finished r' = (t ?r + 2 * dt0 \<ge> 1 / 2 \<or> finished ?r)
           \<and> steps r' = steps ?r @ [(0, dt0), (1, dt0)] \<and> t r' = t ?r + dt0 + dt0
           \<and> still (sim r') 1 \<and> dx (sim r') = dx (sim ?r) \<and> dy (sim r') = dy (sim ?r)
           \<and> cfl (sim r') = cfl (sim ?r)"
  proof (rule still_macro_step [where C = C and H = 1])
    show "still (sim ?r) 1" using flat_still by simp
    show "dt0 = cfl (sim ?r) / max (C / dx (sim ?r)) (C / dy (sim ?r))"
      by (simp add: q dt0_def)
    show "dt0 = (if t ?r + 2 * dt0 \<ge> 1 / 2 then (1 / 2 - t ?r) / 2 else dt0)"
      using lo by simp
  qed (simp_all add: q C_def)
  then obtain r1 where r1: "macro_step ?L (1 / 2) ?r = Inr r1" "\<not> finished r1"
    "steps r1 = [(0, dt0), (1, dt0)]" "t r1 = dt0 + dt0" "still (sim r1) 1"
    "dx (sim r1) = 1" "dy (sim r1) = 1" "cfl (sim r1) = 45 / 100"
    using lo by (auto simp: q)
  define e2 where "e2 = (1 / 2 - t r1) / 2"
  have "\<exists>r'. macro_step ?L (1 / 2) r1 = Inr r'
           \<and> finished r' = (t r1 + 2 * dt0 \<ge> 1 / 2 \<or> finished r1)
           \<and> steps r' = steps r1 @ [(0, e2), (1, e2)] \<and> t r' = t r1 + e2 + e2
           \<and> still (sim r') 1 \<and> dx (sim r') = dx (sim r1) \<and> dy (sim r') = dy (sim r1)
           \<and> cfl (sim r') = cfl (sim r1)"
  proof (rule still_macro_step [where C = C and H = 1])
    show "still (sim r1) 1" by (rule r1(5))
    show "dt0 = cfl (sim r1) / max (C / dx (sim r1)) (C / dy (sim r1))"
      by (simp add: r1 dt0_def)
    show "e2 = (if t r1 + 2 * dt0 \<ge> 1 / 2 then (1 / 2 - t r1) / 2 else dt0)"
      using hi by (simp add: r1(4) e2_def)
  qed (simp_all add: r1 C_def)
  then obtain r2 where r2: "macro_step ?L (1 / 2) r1 = Inr r2" "finished r2"
    "steps r2 = [(0, dt0), (1, dt0), (0, e2), (1, e2)]"
    using hi by (auto simp: r1)
  have "run 2 ?L (1 / 2) (flat_state 1 1 1) = run_loop (Suc (Suc 0)) ?L (1 / 2) ?r"
    by (simp add: run_def numeral_2_eq_2)
  also have "\<dots> = run_loop (Suc 0) ?L (1 / 2) r1"
    by (rule run_loop_Suc [OF _ r1(1)]) simp
  also have "\<dots> = run_loop 0 ?L (1 / 2) r2"
    by (rule run_loop_Suc [OF r1(2) r2(1)])
  also have "\<dots> = Some (Inr r2)"
    by (rule run_loop_finished [OF r2(2)])
  finally have "run 2 ?L (1 / 2) (flat_state 1 1 1) = Some (Inr r2)" .
  with r1 r2 show ?thesis by blast
qed

section \<open>Conservation\<close>

lemma wave_speed_le:
  assumes ok: "Shallow2D_wave_speed (cx0, cy0) U ub n st = Inr (cx, cy)"
    and b: "0 \<le> ub" "0 \<le> st" "ub + 2 * st + n \<le> int (length U)"
    and v: "\<forall>i. 0 \<le> i \<and> i < n \<longrightarrow>
              \<bar>el U (ub + st + i) / el U (ub + i)\<bar> + sqrt (Shallow2D_g * el U (ub + i)) \<le> B
            \<and> \<bar>el U (ub + 2 * st + i) / el U (ub + i)\<bar> + sqrt (Shallow2D_g * el U (ub + i)) \<le> B"
    and s: "cx0 \<le> B" "cy0 \<le> B"
  shows "cx \<le> B \<and> cy \<le> B"
proof -
  let ?I = "\<lambda>c::real \<times> real. fst c \<le> B \<and> snd c \<le> B"
  have "?I (cx, cy)"
  proof (rule for_loop_partial [where I = ?I])
    show "for_loop [0..n - 1] (wave_speed_cell U ub st) (cx0, cy0) = Inr (cx, cy)"
      using ok by (simp add: Shallow2D_wave_speed_def for_range_def)
    show "?I (cx0, cy0)" using s by simp
  next
    fix i c c'
    assume i: "i \<in> set [0..n - 1]" and I: "?I c" and c': "wave_speed_cell U ub st i c = Inr c'"
    have ib: "0 \<le> i" "i < n" using i by auto
    have r: "rd U (ub + i) = Inr (el U (ub + i))"
      "rd U (ub + st + i) = Inr (el U (ub + st + i))"
      "rd U (ub + 2 * st + i) = Inr (el U (ub + 2 * st + i))"
      using b ib by (auto intro!: rd_Inr)
    from c' I v ib show "?I c'"
      by (cases c) (auto simp: wave_speed_cell_def r fsqrt_def fdiv_def split: if_splits)
  qed
  then show ?thesis by simp
qed

lemma column_step:
  assumes col: "column s P" and d: "dx s \<noteq> 0" "dy s \<noteq> 0" and io: "io = 0 \<or> io = 1"
    and lim: "\<And>c. limdiff c c c = 0"
    and b: "b = 0.5 * e / dy s"
    and pos: "\<And>iy. 3 \<le> iy \<Longrightarrow> iy < 6 \<Longrightarrow> 0 < P 0 iy"
    and nzp: "\<And>iy. 1 \<le> iy \<Longrightarrow> iy < 8 \<Longrightarrow> col_pred limdiff b (col_fill P) 0 iy \<noteq> 0"
  shows "\<exists>s1 s2 s3 s4 cx cy. apply_periodic s = Inr s1 \<and> compute_fg_speeds s1 = Inr (s2, cx, cy)
      \<and> limited_derivs limdiff s2 = Inr s3 \<and> compute_step io e s3 = Inr s4
      \<and> ((\<forall>iy. 3 \<le> iy \<and> iy < 6 \<longrightarrow>
              \<bar>P 1 iy / P 0 iy\<bar> + sqrt (Shallow2D_g * P 0 iy) \<le> B
            \<and> \<bar>P 2 iy / P 0 iy\<bar> + sqrt (Shallow2D_g * P 0 iy) \<le> B) \<and> 1 / 10 ^ 15 \<le> B
           \<longrightarrow> cx \<le> B \<and> cy \<le> B)
      \<and> column s4 (col_step limdiff b io P)
      \<and> dx s4 = dx s \<and> dy s4 = dy s \<and> cfl s4 = cfl s"
proof -
  from col have wf: "wf s" and g: "nx s = 1" "ny s = 3"
    and prof: "\<And>k iy. 0 \<le> k \<Longrightarrow> k < 3 \<Longrightarrow> 3 \<le> iy \<Longrightarrow> iy < 6 \<Longrightarrow>
                 at_cell s (u_vec s) k 3 iy = P k iy"
    and stale: "\<And>i. 0 \<le> i \<Longrightarrow> i < 189 \<Longrightarrow> i < 9 \<or> 168 \<le> i \<Longrightarrow>
           el (ux_vec s) i = 0 \<and> el (uy_vec s) i = 0 \<and> el (fx_vec s) i = 0 \<and> el (gy_vec s) i = 0"
    unfolding column_def by blast+
  define Q where "Q = col_fill P"
  define V where "V = col_pred limdiff b Q"
  have cr: "3 \<le> canon 3 y \<and> canon 3 y < 6" for y
    using canon_range [of 3 y] by (simp add: nghost_def)
  have Qv: "Q k iy = P k (canon 3 iy)" for k iy by (simp add: Q_def col_fill_def)
  have Qpos: "0 < Q 0 iy" for iy using pos cr by (simp add: Qv)
  have na: "nx_all s = 7" "ny_all s = 9" using wf g by (simp_all add: wf_def nghost_def)
  have n2: "nx s \<noteq> 2" "ny s \<noteq> 2" using g by simp_all
  have k3: "k = 0 \<or> k = 1 \<or> k = 2" if "0 \<le> k" "k < 3" for k :: int using that by auto
  have ofs: "offset z k ix iy = k * 63 + (iy * 7 + ix)"
    if "nx_all z = 7" "ny_all z = 9" for z k ix iy
    using that by (simp add: offset_def algebra_simps)
  have cellb: "0 \<le> iy * 7 + ix \<and> iy * 7 + ix < 63"
    if "0 \<le> ix" "ix < 7" "0 \<le> iy" "iy < 9" for ix iy :: int
    using that by auto
  from apply_periodic_ok [OF wf n2] obtain U1 where
    s1: "apply_periodic s = Inr (s\<lparr>u_vec := U1\<rparr>)" and l1: "length U1 = length (u_vec s)"
    and c1: "\<And>k ix iy. padded s k ix iy \<Longrightarrow>
               el U1 (offset s k ix iy)
                 = el (u_vec s) (offset s k (canon (nx s) ix) (canon (ny s) iy))"
    by blast
  have cn: "canon 1 x = 3" for x by (simp add: canon_def nghost_def)
  have ucl: "el U1 (k * 63 + (iy * 7 + ix)) = Q k iy"
    if r: "0 \<le> k" "k < 3" "0 \<le> ix" "ix < 7" "0 \<le> iy" "iy < 9" for k ix iy
  proof -
    have p: "padded s k ix iy" using r by (simp add: padded_def na nfield_def)
    from c1 [OF p] have "el U1 (k * 63 + (iy * 7 + ix)) = at_cell s (u_vec s) k 3 (canon 3 iy)"
      by (simp add: g cn at_cell_def ofs [OF na])
    then show ?thesis using prof [OF r(1,2), of "canon 3 iy"] cr [of iy] by (simp add: Qv)
  qed
  have split7: "j = (j div 7) * 7 + j mod 7 \<and> 0 \<le> j mod 7 \<and> j mod 7 < 7
                \<and> 0 \<le> j div 7 \<and> j div 7 < 9"
    if "0 \<le> j" "j < 63" for j :: int
    using that by presburger
  have flat: "el U1 (k * 63 + j) = Q k (j div 7)" if "0 \<le> k" "k < 3" "0 \<le> j" "j < 63" for k j
    using ucl [OF that(1,2), of "j mod 7" "j div 7"] split7 [OF that(3,4)] by simp
  let ?s1 = "s\<lparr>u_vec := U1\<rparr>"
  have wf1: "wf ?s1" using wf l1 by (simp add: wf_def)
  note sz1 = wf_size [OF wf1]
  have nz: "\<forall>i. 0 \<le> i \<and> i < 63 \<longrightarrow> el U1 (0 + i) \<noteq> 0"
    using flat [of 0] Qpos by (auto simp: less_imp_neq [THEN not_sym])
  have ps: "\<forall>i. 0 \<le> i \<and> i < 63 \<longrightarrow> 0 < el U1 (0 + i)"
    using flat [of 0] Qpos by auto
  have un: "el U1 (0 + i) = Q 0 (i div 7) \<and> el U1 (0 + 63 + i) = Q 1 (i div 7)
          \<and> el U1 (0 + 2 * 63 + i) = Q 2 (i div 7)" if "0 \<le> i" "i < 63" for i
    using flat [of 0 i] flat [of 1 i] flat [of 2 i] that by simp
  obtain F G where fl: "Shallow2D_flux (f_vec s) 0 (g_vec s) 0 U1 0 63 63 = Inr (F, G)"
    and lfg: "length F = length (f_vec s)" "length G = length (g_vec s)"
    and fv: "\<And>i. 0 \<le> i \<Longrightarrow> i < 63 \<Longrightarrow> flux_values F G 0 0 U1 0 63 i"
    using Shallow2D_flux_ok [OF _ _ _ _ _ _ _ _ nz, of 0 0 63 "f_vec s" "g_vec s"] sz1
    by (auto simp: na flux_frame_def)
  have fflat: "el F (k * 63 + j) = col_f Q k (j div 7) \<and> el G (k * 63 + j) = col_g Q k (j div 7)"
    if "0 \<le> k" "k < 3" "0 \<le> j" "j < 63" for k j
    using fv [OF that(3,4)] un [OF that(3,4)] k3 [OF that(1,2)]
    by (auto simp: flux_values_def Let_def col_f_def col_g_def)
  have fcl: "el F (k * 63 + (iy * 7 + ix)) = col_f Q k iy
           \<and> el G (k * 63 + (iy * 7 + ix)) = col_g Q k iy"
    if r: "0 \<le> k" "k < 3" "0 \<le> ix" "ix < 7" "0 \<le> iy" "iy < 9" for k ix iy
  proof -
    have "(iy * 7 + ix) div 7 = iy" using r by simp
    with fflat [OF r(1,2), of "iy * 7 + ix"] cellb [OF r(3-6)] show ?thesis by simp
  qed
  obtain cx cy where
    ws: "Shallow2D_wave_speed (1 / 10 ^ 15, 1 / 10 ^ 15) U1 0 63 63 = Inr (cx, cy)"
    using Shallow2D_wave_speed_ok [OF _ _ _ _ ps, of 63 "1 / 10 ^ 15" "1 / 10 ^ 15"] sz1
    by (auto simp: na)
  have bound: "cx \<le> B \<and> cy \<le> B"
    if sp: "\<forall>iy. 3 \<le> iy \<and> iy < 6 \<longrightarrow>
              \<bar>P 1 iy / P 0 iy\<bar> + sqrt (Shallow2D_g * P 0 iy) \<le> B
            \<and> \<bar>P 2 iy / P 0 iy\<bar> + sqrt (Shallow2D_g * P 0 iy) \<le> B"
      and B: "1 / 10 ^ 15 \<le> B"
  proof (rule wave_speed_le [OF ws])
    show "\<forall>i. 0 \<le> i \<and> i < 63 \<longrightarrow>
              \<bar>el U1 (0 + 63 + i) / el U1 (0 + i)\<bar> + sqrt (Shallow2D_g * el U1 (0 + i)) \<le> B
            \<and> \<bar>el U1 (0 + 2 * 63 + i) / el U1 (0 + i)\<bar> + sqrt (Shallow2D_g * el U1 (0 + i)) \<le> B"
      using un sp cr by (simp add: Qv)
  qed (use sz1 B in \<open>simp_all add: na\<close>)
  let ?s2 = "s\<lparr>u_vec := U1, f_vec := F, g_vec := G\<rparr>"
  have s2: "compute_fg_speeds ?s1 = Inr (?s2, cx, cy)"
    using ws by (simp add: compute_fg_speeds_def na fl)
  have wf2: "wf ?s2" using wf l1 lfg by (simp add: wf_def)
  have le: "nx ?s2 \<le> ny ?s2" by (simp add: g)
  from limited_derivs_ok [OF wf2 le, of limdiff] obtain s3 where
    s3: "limited_derivs limdiff ?s2 = Inr s3"
    and di: "derivs_inv limdiff ?s2 {9..<168} s3"
    by (auto simp: na nfield_def)
  from di obtain UX FX UY GY where
    z3: "s3 = ?s2\<lparr>ux_vec := UX, fx_vec := FX, uy_vec := UY, gy_vec := GY\<rparr>"
    and l3: "length UX = length (ux_vec s)" "length FX = length (fx_vec s)"
      "length UY = length (uy_vec s)" "length GY = length (gy_vec s)"
    and c3: "\<And>i. 0 \<le> i \<Longrightarrow>
        el UX i = (if i \<in> {9..<168} then limdiff (el U1 (i - 1)) (el U1 i) (el U1 (i + 1))
                   else el (ux_vec s) i)
      \<and> el FX i = (if i \<in> {9..<168} then limdiff (el F (i - 1)) (el F i) (el F (i + 1))
                   else el (fx_vec s) i)
      \<and> el UY i = (if i \<in> {9..<168} then limdiff (el U1 (i - 7)) (el U1 i) (el U1 (i + 7))
                   else el (uy_vec s) i)
      \<and> el GY i = (if i \<in> {9..<168} then limdiff (el G (i - 7)) (el G i) (el G (i + 7))
                   else el (gy_vec s) i)"
    unfolding derivs_inv_def by (auto simp: na)
  have dring: "el UX (k * 63 + (iy * 7 + ix)) = 0 \<and> el FX (k * 63 + (iy * 7 + ix)) = 0
      \<and> el UY (k * 63 + (iy * 7 + ix))
           = (if k * 63 + (iy * 7 + ix) \<in> {9..<168} then col_dy limdiff Q k iy else 0)
      \<and> el GY (k * 63 + (iy * 7 + ix))
           = (if k * 63 + (iy * 7 + ix) \<in> {9..<168} then col_dy limdiff (col_g Q) k iy else 0)"
    if r: "0 \<le> k" "k < 3" "1 \<le> ix" "ix < 6" "1 \<le> iy" "iy < 8" for k ix iy
  proof -
    let ?i = "k * 63 + (iy * 7 + ix)"
    have i0: "0 \<le> ?i" using r by auto
    have nb: "?i - 1 = k * 63 + (iy * 7 + (ix - 1))" "?i + 1 = k * 63 + (iy * 7 + (ix + 1))"
      "?i - 7 = k * 63 + ((iy - 1) * 7 + ix)" "?i + 7 = k * 63 + ((iy + 1) * 7 + ix)"
      by simp_all
    have uu: "el U1 (?i - 1) = Q k iy" "el U1 ?i = Q k iy" "el U1 (?i + 1) = Q k iy"
      "el U1 (?i - 7) = Q k (iy - 1)" "el U1 (?i + 7) = Q k (iy + 1)"
      unfolding nb by ((rule ucl; (use r in simp))+)
    have ff: "el F (?i - 1) = col_f Q k iy" "el F ?i = col_f Q k iy"
      "el F (?i + 1) = col_f Q k iy"
      "el G (?i - 7) = col_g Q k (iy - 1)" "el G ?i = col_g Q k iy"
      "el G (?i + 7) = col_g Q k (iy + 1)"
      unfolding nb using r fcl [of k "ix - 1" iy] fcl [of k ix iy] fcl [of k "ix + 1" iy]
        fcl [of k ix "iy - 1"] fcl [of k ix "iy + 1"]
      by auto
    show ?thesis
    proof (cases "?i \<in> {9..<168}")
      case True
      then have "\<not> (k = 2 \<and> 6 \<le> iy)" using r by auto
      then show ?thesis
        using c3 [OF i0] True unfolding uu ff lim by (auto simp: col_dy_def)
    next
      case False
      then have "?i < 9 \<or> 168 \<le> ?i" by auto
      moreover have "?i < 189" using r by auto
      ultimately have z: "el (ux_vec s) ?i = 0 \<and> el (uy_vec s) ?i = 0
          \<and> el (fx_vec s) ?i = 0 \<and> el (gy_vec s) ?i = 0"
        using stale [OF i0] by blast
      from c3 [OF i0] have "el UX ?i = el (ux_vec s) ?i \<and> el FX ?i = el (fx_vec s) ?i
          \<and> el UY ?i = el (uy_vec s) ?i \<and> el GY ?i = el (gy_vec s) ?i"
        unfolding if_not_P [OF False] .
      with z show ?thesis
        unfolding if_not_P [OF False] by simp
    qed
  qed
  have inr: "k * 63 + (iy * 7 + ix) \<in> {9..<168} \<longleftrightarrow> \<not> (k = 2 \<and> 6 \<le> iy)"
    if r: "0 \<le> k" "k < 3" "2 \<le> ix" "ix < 5" "2 \<le> iy" "iy < 7" for k ix iy :: int
    using r by auto
  have dcore: "el UX (k * 63 + (iy * 7 + ix)) = 0 \<and> el FX (k * 63 + (iy * 7 + ix)) = 0
      \<and> el UY (k * 63 + (iy * 7 + ix)) = col_dy limdiff Q k iy
      \<and> el GY (k * 63 + (iy * 7 + ix)) = col_dy limdiff (col_g Q) k iy"
    if r: "0 \<le> k" "k < 3" "2 \<le> ix" "ix < 5" "2 \<le> iy" "iy < 7" for k ix iy
  proof -
    have "el UX (k * 63 + (iy * 7 + ix)) = 0 \<and> el FX (k * 63 + (iy * 7 + ix)) = 0
      \<and> el UY (k * 63 + (iy * 7 + ix))
           = (if k * 63 + (iy * 7 + ix) \<in> {9..<168} then col_dy limdiff Q k iy else 0)
      \<and> el GY (k * 63 + (iy * 7 + ix))
           = (if k * 63 + (iy * 7 + ix) \<in> {9..<168} then col_dy limdiff (col_g Q) k iy else 0)"
      using r by (intro dring) auto
    then show ?thesis
      unfolding inr [OF r] by (auto simp: col_dy_def)
  qed
  have wf3: "wf s3" using wf l1 lfg l3 by (simp add: wf_def z3)
  have g3: "nx_all s3 = 7" "ny_all s3 = 9" "nx s3 = 1" "ny s3 = 3" "u_vec s3 = U1"
    "ux_vec s3 = UX" "uy_vec s3 = UY" "fx_vec s3 = FX" "gy_vec s3 = GY"
    "f_vec s3 = F" "g_vec s3 = G" "dx s3 = dx s" "dy s3 = dy s" "cfl s3 = cfl s"
    by (simp_all add: z3 na g)
  have d3: "dx s3 \<noteq> 0" "dy s3 \<noteq> 0" using d by (simp_all add: g3)
  define a where "a = 0.5 * e / dx s3"
  have bv: "b = 0.5 * e / dy s3" by (simp add: b g3)
  have pr: "\<forall>ix iy. 1 \<le> ix \<and> ix < nx_all s3 - 1 \<and> 1 \<le> iy \<and> iy < ny_all s3 - 1
             \<longrightarrow> predicted s3 a b 0 ix iy \<noteq> 0"
  proof (intro allI impI)
    fix ix iy
    assume "1 \<le> ix \<and> ix < nx_all s3 - 1 \<and> 1 \<le> iy \<and> iy < ny_all s3 - 1"
    then have r: "1 \<le> ix" "ix < 6" "1 \<le> iy" "iy < 8" by (simp_all add: g3)
    have u: "el U1 (0 * 63 + (iy * 7 + ix)) = Q 0 iy" using r by (intro ucl) auto
    from dring [of 0 ix iy] r have
      "el FX (0 * 63 + (iy * 7 + ix)) = 0"
      "el GY (0 * 63 + (iy * 7 + ix)) = col_dy limdiff (col_g Q) 0 iy
        \<or> el GY (0 * 63 + (iy * 7 + ix)) = 0"
      by (auto split: if_splits)
    then have "predicted s3 a b 0 ix iy = col_pred limdiff b Q 0 iy
             \<or> predicted s3 a b 0 ix iy = Q 0 iy"
      using u by (auto simp: predicted_def at_cell_def ofs [OF g3(1,2)] g3 col_pred_def)
    then show "predicted s3 a b 0 ix iy \<noteq> 0"
      using nzp [OF r(3,4)] Qpos [of iy] by (auto simp: Q_def)
  qed
  with compute_step_cases [OF wf3 io d3, of e] obtain z1 z2 z3 s4 where
    cs: "compute_step io e s3 = Inr s4"
    and "stages s3 io a b z1 z2 z3 s4"
    unfolding a_def bv by blast
  then have sg: "v_inv s3 (predicted s3 a b) (ring_cells s3) z1"
    "fg_inv z1 {1..<ny_all s3 - 1} z2"
    "v_inv z2 (corrected z2 a b) (window_cells s3 io) z3"
    "u_copied z3 io {0..<nfield} s4"
    by (auto simp: stages_def)
  have wz1: "wf z1" using wf_v_inv [OF wf3 sg(1)] .
  have wz2: "wf z2" using wf_fg_inv [OF wz1 sg(2)] .
  have wz3: "wf z3" using wf_v_inv [OF wz2 sg(3)] .
  have gz1: "nx_all z1 = 7" "ny_all z1 = 9" "f_vec z1 = F" "g_vec z1 = G"
    using sg(1) g3 by (auto simp: v_inv_def)
  have gz2: "nx_all z2 = 7" "ny_all z2 = 9" "nx z2 = 1" "ny z2 = 3" "u_vec z2 = U1"
    "ux_vec z2 = UX" "uy_vec z2 = UY" "fx_vec z2 = FX" "gy_vec z2 = GY"
    "dx z2 = dx s" "dy z2 = dy s" "cfl z2 = cfl s"
    using sg(1,2) g3 by (auto simp: v_inv_def fg_inv_def)
  have gz3: "nx_all z3 = 7" "ny_all z3 = 9" "nx z3 = 1" "ny z3 = 3"
    "ux_vec z3 = UX" "uy_vec z3 = UY" "fx_vec z3 = FX" "gy_vec z3 = GY"
    "dx z3 = dx s" "dy z3 = dy s" "cfl z3 = cfl s"
    using sg(3) gz2 by (auto simp: v_inv_def)
  have v1: "at_cell z1 (v_vec z1) k ix iy = V k iy"
    if r: "0 \<le> k" "k < 3" "2 \<le> ix" "ix < 5" "2 \<le> iy" "iy < 7" for k ix iy
  proof -
    have m: "(k, ix, iy) \<in> ring_cells s3" using r by (simp add: ring_cells_iff g3 nfield_def)
    have u: "el U1 (k * 63 + (iy * 7 + ix)) = Q k iy" using r by (intro ucl) auto
    have "predicted s3 a b k ix iy = V k iy"
      using u dcore [OF r]
      by (simp add: predicted_def at_cell_def ofs [OF g3(1,2)] g3 V_def col_pred_def)
    with v_inv_value [OF wf3 sg(1) ring_padded [OF wf3 m] m]
    show ?thesis by (simp add: at_cell_def ofs [OF gz1(1,2)] ofs [OF g3(1,2)])
  qed
  have f2: "at_cell z2 (f_vec z2) k ix iy = col_f V k iy
          \<and> at_cell z2 (g_vec z2) k ix iy = col_g V k iy"
    if r: "0 \<le> k" "k < 3" "2 \<le> ix" "ix < 5" "2 \<le> iy" "iy < 7" for k ix iy
  proof -
    have p: "padded z1 k ix iy" using r by (simp add: padded_def gz1 nfield_def)
    have inring: "iy \<in> {1..<ny_all s3 - 1} \<and> 1 \<le> ix \<and> ix < nx_all z1 - 1"
      using r by (simp add: g3 gz1)
    from sg(2) p inring have fg:
      "el (f_vec z2) (offset z1 k ix iy) = flux_f z1 (v_vec z1) k ix iy"
      "el (g_vec z2) (offset z1 k ix iy) = flux_g z1 (v_vec z1) k ix iy"
      by (auto simp: fg_inv_def)
    have "at_cell z1 (v_vec z1) 0 ix iy = V 0 iy" "at_cell z1 (v_vec z1) 1 ix iy = V 1 iy"
      "at_cell z1 (v_vec z1) 2 ix iy = V 2 iy"
      using v1 [of 0 ix iy] v1 [of 1 ix iy] v1 [of 2 ix iy] r by simp_all
    then have "flux_f z1 (v_vec z1) k ix iy = col_f V k iy"
      "flux_g z1 (v_vec z1) k ix iy = col_g V k iy"
      by (simp_all add: flux_f_def flux_g_def col_f_def col_g_def)
    with fg show ?thesis
      by (simp add: at_cell_def ofs [OF gz1(1,2)] ofs [OF gz2(1,2)])
  qed
  have ucell: "at_cell z2 U1 k ix iy = Q k iy"
    if "0 \<le> k" "k < 3" "0 \<le> ix" "ix < 7" "0 \<le> iy" "iy < 9" for k ix iy
    using that by (simp add: at_cell_def ofs [OF gz2(1,2)] ucl)
  have dcell: "at_cell z2 UX k ix iy = 0 \<and> at_cell z2 UY k ix iy = col_dy limdiff Q k iy"
    if "0 \<le> k" "k < 3" "2 \<le> ix" "ix < 5" "2 \<le> iy" "iy < 7" for k ix iy
    using dcore [OF that] by (simp add: at_cell_def ofs [OF gz2(1,2)])
  have cv: "corrected z2 a b k ix iy = col_corr limdiff b Q k iy"
    if r: "0 \<le> k" "k < 3" and x: "2 \<le> ix" "ix < 4" "2 \<le> iy" "iy < 6" for k ix iy
  proof -
    have y: "0 \<le> ix" "ix < 7" "0 \<le> ix + 1" "ix + 1 < 7" "0 \<le> iy" "iy < 9"
      "0 \<le> iy + 1" "iy + 1 < 9" "ix < 5" "2 \<le> ix + 1" "ix + 1 < 5"
      "iy < 7" "2 \<le> iy + 1" "iy + 1 < 7"
      using x by auto
    note uc = ucell [OF r]
    note dc = dcell [OF r]
    note fc = f2 [OF r]
    show ?thesis
      unfolding corrected_def gz2(5-7) col_corr_def V_def [symmetric]
      by (simp add: uc [OF y(1,2,5,6)] uc [OF y(3,4,5,6)] uc [OF y(1,2,7,8)] uc [OF y(3,4,7,8)]
          dc [OF x(1) y(9) x(3) y(12)] dc [OF y(10,11) x(3) y(12)]
          dc [OF x(1) y(9) y(13,14)] dc [OF y(10,11) y(13,14)]
          fc [OF x(1) y(9) x(3) y(12)] fc [OF y(10,11) x(3) y(12)]
          fc [OF x(1) y(9) y(13,14)] fc [OF y(10,11) y(13,14)])
  qed
  from sg(4) obtain U where U: "s4 = z3\<lparr>u_vec := U\<rparr>" "length U = length (u_vec z3)"
    and cp: "\<And>k i. 0 \<le> k \<Longrightarrow> k < 3 \<Longrightarrow> 0 \<le> i \<Longrightarrow> i < ny z3 * nx_all z3 \<Longrightarrow>
              el U (offset z3 k nghost nghost + i)
                = el (v_vec z3) (offset z3 k (nghost - io) (nghost - io) + i)"
    unfolding u_copied_def by (auto simp: nfield_def)
  have wf4: "wf s4" using wz3 U by (simp add: wf_def)
  have u4: "at_cell s4 (u_vec s4) k 3 iy = col_step limdiff b io P k iy"
    if r: "0 \<le> k" "k < 3" and y: "3 \<le> iy" "iy < 6" for k iy
  proof -
    have m: "(k, 3 - io, iy - io) \<in> window_cells s3 io"
      using r y by (simp add: window_cells_iff g3 nghost_def nfield_def)
    have p: "padded z2 k (3 - io) (iy - io)"
      using io r y by (auto simp: padded_def gz2 nfield_def)
    have "at_cell z2 (v_vec z3) k (3 - io) (iy - io) = corrected z2 a b k (3 - io) (iy - io)"
      by (rule v_inv_value [OF wz2 sg(3) p m])
    also have "\<dots> = col_corr limdiff b Q k (iy - io)"
      using io y by (intro cv r) auto
    finally have v: "at_cell z2 (v_vec z3) k (3 - io) (iy - io) = col_step limdiff b io P k iy"
      by (simp add: col_step_def Q_def)
    have i: "0 \<le> (iy - 3) * 7" "(iy - 3) * 7 < ny z3 * nx_all z3"
      using y by (simp_all add: gz3)
    show ?thesis
      using cp [OF r i] v
      by (simp add: U at_cell_def ofs [OF gz3(1,2)] ofs [OF gz2(1,2)] ofs gz3 nghost_def
          algebra_simps)
  qed
  have g4: "nx s4 = 1" "ny s4 = 3" "nx_all s4 = 7" "ny_all s4 = 9"
    "dx s4 = dx s" "dy s4 = dy s" "cfl s4 = cfl s"
    "ux_vec s4 = UX" "uy_vec s4 = UY" "fx_vec s4 = FX" "gy_vec s4 = GY"
    using U gz3 by simp_all
  have st4: "el UX i = 0 \<and> el UY i = 0 \<and> el FX i = 0 \<and> el GY i = 0"
    if "0 \<le> i" "i < 189" "i < 9 \<or> 168 \<le> i" for i
    using c3 [OF that(1)] stale [OF that] that(3) by auto
  have c4: "column s4 (col_step limdiff b io P)"
    unfolding column_def using wf4 g4(1,2) u4 st4 by (simp add: g4)
  show ?thesis
    apply (rule exI [of _ ?s1], rule exI [of _ ?s2], rule exI [of _ s3], rule exI [of _ s4],
        rule exI [of _ cx], rule exI [of _ cy])
    using s1 s2 s3 cs g4 c4 bound by simp
qed

text \<open>The recurrence on the concrete rows, by computation.\<close>

lemmas col_defs = col_step_def col_corr_def col_pred_def col_dy_def col_g_def col_fill_def
  canon_def nghost_def minmod_limdiff_def Shallow2D_g_def Let_def

lemma rows_1_step:
  assumes "0 \<le> k" "k < 3" "3 \<le> iy" "iy < 6"
  shows "col_step minmod_limdiff (1 / 40) 0 rows_0 k iy = rows_1 k iy"
proof -
  have "k = 0 \<or> k = 1 \<or> k = 2" "iy = 3 \<or> iy = 4 \<or> iy = 5" using assms by auto
  then show ?thesis
    by (elim disjE) (simp_all add: col_defs rows_0_def rows_1_def)
qed

lemma rows_2_heights:
  "col_step minmod_limdiff (1 / 40) 1 rows_1 0 3 = 257938391 / 128000000"
  "col_step minmod_limdiff (1 / 40) 1 rows_1 0 4 = 3104963329 / 1408000000"
  "col_step minmod_limdiff (1 / 40) 1 rows_1 0 5 = 247984237 / 140800000"
  by (simp_all add: col_defs rows_1_def)

lemma rows_2_momenta:
  "col_step minmod_limdiff (1 / 40) 1 rows_1 1 3 = 0"
  "col_step minmod_limdiff (1 / 40) 1 rows_1 1 4 = 0"
  "col_step minmod_limdiff (1 / 40) 1 rows_1 1 5 = 0"
  "col_step minmod_limdiff (1 / 40) 1 rows_1 2 3
     = - (31080584017023927688216527509659 / 13865920374885580800000000000000)"
  "col_step minmod_limdiff (1 / 40) 1 rows_1 2 4 = 5640945490683562549 / 5905760256000000000"
  "col_step minmod_limdiff (1 / 40) 1 rows_1 2 5
     = 726374885060547615917815945441 / 563201196831539200000000000000"
  by (simp_all add: col_defs rows_1_def)

lemma rows_0_pred:
  assumes "1 \<le> iy" "iy < 8"
  shows "col_pred minmod_limdiff (1 / 40) (col_fill rows_0) 0 iy \<noteq> 0"
proof -
  have "iy = 1 \<or> iy = 2 \<or> iy = 3 \<or> iy = 4 \<or> iy = 5 \<or> iy = 6 \<or> iy = 7" using assms by auto
  then show ?thesis
    by (elim disjE) (simp_all add: col_defs rows_0_def)
qed

lemma rows_1_pred:
  assumes "1 \<le> iy" "iy < 8"
  shows "col_pred minmod_limdiff (1 / 40) (col_fill rows_1) 0 iy \<noteq> 0"
proof -
  have "iy = 1 \<or> iy = 2 \<or> iy = 3 \<or> iy = 4 \<or> iy = 5 \<or> iy = 6 \<or> iy = 7" using assms by auto
  then show ?thesis
    by (elim disjE) (simp_all add: col_defs rows_1_def)
qed

lemma minmod_same: "minmod_limdiff c c c = 0"
  by (simp add: minmod_limdiff_def)

lemma column_3_rows: "column column_3 rows_0"
proof -
  have w: "wf column_3" by (simp add: wf_def column_3_def nghost_def nfield_def)
  have u: "at_cell column_3 (u_vec column_3) k 3 iy = rows_0 k iy"
    if "0 \<le> k \<and> k < 3 \<and> 3 \<le> iy \<and> iy < 6" for k iy
  proof -
    have "k = 0 \<or> k = 1 \<or> k = 2" "iy = 3 \<or> iy = 4 \<or> iy = 5" using that by auto
    then show ?thesis
      by (elim disjE) (simp_all add: at_cell_def offset_def column_3_def el_def rows_0_def)
  qed
  have z: "el (ux_vec column_3) i = 0 \<and> el (uy_vec column_3) i = 0
         \<and> el (fx_vec column_3) i = 0 \<and> el (gy_vec column_3) i = 0"
    if "0 \<le> i \<and> i < 189 \<and> (i < 9 \<or> 168 \<le> i)" for i :: int
  proof -
    have "nat i < 189" using that by arith
    then show ?thesis by (simp add: column_3_def el_def)
  qed
  show ?thesis
    unfolding column_def using w u z by (simp add: column_3_def)
qed

lemma column_cong:
  assumes "column s P"
    and "\<And>k iy. 0 \<le> k \<Longrightarrow> k < 3 \<Longrightarrow> 3 \<le> iy \<Longrightarrow> iy < 6 \<Longrightarrow> P k iy = P' k iy"
  shows "column s P'"
  using assms unfolding column_def by auto

lemma column_report:
  assumes c: "column s P" and pos: "0 < P 0 3" "0 < P 0 4" "0 < P 0 5"
  shows "\<exists>r. solution_check s = Inr r
           \<and> volume r = (P 0 3 + P 0 4 + P 0 5) * (dx s * dy s)
           \<and> momentum_x r = (P 1 3 + P 1 4 + P 1 5) * (dx s * dy s)
           \<and> momentum_y r = (P 2 3 + P 2 4 + P 2 5) * (dx s * dy s)"
proof -
  from c have wf: "wf s" and g: "nx s = 1" "ny s = 3"
    and prof: "\<And>k iy. 0 \<le> k \<Longrightarrow> k < 3 \<Longrightarrow> 3 \<le> iy \<Longrightarrow> iy < 6 \<Longrightarrow>
                 at_cell s (u_vec s) k 3 iy = P k iy"
    unfolding column_def by blast+
  have ic: "interior_cells s = {(3, 3), (3, 4), (3, 5)}"
    by (auto simp: interior_cells_def g nghost_def)
  have u: "ucell s k 3 3 = P k 3" "ucell s k 3 4 = P k 4" "ucell s k 3 5 = P k 5"
    if "0 \<le> k" "k < 3" for k
    using prof [OF that, of 3] prof [OF that, of 4] prof [OF that, of 5]
    by (simp_all add: ucell_def at_cell_def)
  have "\<forall>(i, j)\<in>interior_cells s. 0 < ucell s 0 i j"
    using pos by (simp add: ic u)
  with solution_check_report [OF wf] obtain r where
    "solution_check s = Inr r"
    "volume r = (\<Sum>(i, j)\<in>interior_cells s. ucell s 0 i j) * (dx s * dy s)"
    "momentum_x r = (\<Sum>(i, j)\<in>interior_cells s. ucell s 1 i j) * (dx s * dy s)"
    "momentum_y r = (\<Sum>(i, j)\<in>interior_cells s. ucell s 2 i j) * (dx s * dy s)"
    by blast
  then show ?thesis by (simp add: ic u)
qed

lemma column_3_speeds:
  "\<forall>iy. 3 \<le> iy \<and> iy < 6 \<longrightarrow>
     \<bar>rows_0 1 iy / rows_0 0 iy\<bar> + sqrt (Shallow2D_g * rows_0 0 iy) \<le> 6
   \<and> \<bar>rows_0 2 iy / rows_0 0 iy\<bar> + sqrt (Shallow2D_g * rows_0 0 iy) \<le> 6"
proof (intro allI impI)
  fix iy :: int
  assume "3 \<le> iy \<and> iy < 6"
  then have h: "0 < rows_0 0 iy" "rows_0 0 iy \<le> 3" by (auto simp: rows_0_def)
  have "Shallow2D_g * rows_0 0 iy \<le> 6\<^sup>2"
    using h mult_left_mono [of "rows_0 0 iy" 3 Shallow2D_g]
    by (simp add: Shallow2D_g_def power2_eq_square)
  then have "sqrt (Shallow2D_g * rows_0 0 iy) \<le> 6"
    by (intro real_le_lsqrt) simp_all
  then show "\<bar>rows_0 1 iy / rows_0 0 iy\<bar> + sqrt (Shallow2D_g * rows_0 0 iy) \<le> 6
   \<and> \<bar>rows_0 2 iy / rows_0 0 iy\<bar> + sqrt (Shallow2D_g * rows_0 0 iy) \<le> 6"
    by (simp add: rows_0_def)
qed

lemma column_3_chain:
  "\<exists>s1 s2 cx cy s3 s4 z1 z2 ex ey z3 z4.
      apply_periodic column_3 = Inr s1 \<and> compute_fg_speeds s1 = Inr (s2, cx, cy)
    \<and> limited_derivs minmod_limdiff s2 = Inr s3
    \<and> choose_dt (1 / 10) (cx, cy)
          \<lparr>finished = False, t = 0, dt = 0, sim = column_3, steps = [], measured = []\<rparr>
        = Inr (1 / 20, True)
    \<and> compute_step 0 (1 / 20) s3 = Inr s4 \<and> column s4 rows_1
    \<and> apply_periodic s4 = Inr z1 \<and> compute_fg_speeds z1 = Inr (z2, ex, ey)
    \<and> limited_derivs minmod_limdiff z2 = Inr z3
    \<and> compute_step 1 (1 / 20) z3 = Inr z4
    \<and> column z4 (col_step minmod_limdiff (1 / 40) 1 rows_1)
    \<and> dx z4 = 1 \<and> dy z4 = 1"
proof -
  let ?L = minmod_limdiff
  let ?r = "\<lparr>finished = False, t = 0, dt = 0, sim = column_3, steps = [], measured = []\<rparr>"
  have q: "dx column_3 = 1" "dy column_3 = 1" "cfl column_3 = 45 / 100"
    by (simp_all add: column_3_def)
  have b: "(1 / 40 :: real) = 0.5 * (1 / 20) / dy column_3" by (simp add: q)
  have p0: "0 < rows_0 0 iy" for iy by (simp add: rows_0_def)
  from column_step [where limdiff = ?L and io = 0 and e = "1 / 20" and B = 6,
      OF column_3_rows _ _ _ minmod_same b p0 rows_0_pred]
  obtain s1 s2 s3 s4 cx cy where
    a: "apply_periodic column_3 = Inr s1" "compute_fg_speeds s1 = Inr (s2, cx, cy)"
      "limited_derivs ?L s2 = Inr s3" "compute_step 0 (1 / 20) s3 = Inr s4"
    and bd: "cx \<le> 6" "cy \<le> 6"
    and c4: "column s4 (col_step ?L (1 / 40) 0 rows_0)"
    and q4: "dx s4 = 1" "dy s4 = 1" "cfl s4 = 45 / 100"
    using column_3_speeds by (auto simp: q)
  note seed = compute_fg_speeds_seed [OF a(2)]
  have "0 < cx" using seed by (simp add: less_le_trans [of 0 "1 / 10 ^ 15"])
  then have M: "0 < max cx cy" "max cx cy \<le> 6" using bd by (simp_all add: less_max_iff_disj)
  have "(45 / 100) / 6 \<le> (45 / 100) / max cx cy"
    using M by (intro divide_left_mono) simp_all
  then have big: "1 / 10 \<le> 2 * ((45 / 100) / max cx cy)" by simp
  have cd: "choose_dt (1 / 10) (cx, cy) ?r = Inr (1 / 20, True)"
    using M(1) big by (simp add: choose_dt_def fdiv_def q)
  have c1: "column s4 rows_1"
    by (rule column_cong [OF c4]) (rule rows_1_step)
  have b4: "(1 / 40 :: real) = 0.5 * (1 / 20) / dy s4" by (simp add: q4)
  have p1: "0 < rows_1 0 iy" for iy by (simp add: rows_1_def)
  from column_step [where limdiff = ?L and io = 1 and e = "1 / 20" and B = 0,
      OF c1 _ _ _ minmod_same b4 p1 rows_1_pred]
  obtain z1 z2 z3 z4 ex ey where
    e: "apply_periodic s4 = Inr z1" "compute_fg_speeds z1 = Inr (z2, ex, ey)"
      "limited_derivs ?L z2 = Inr z3" "compute_step 1 (1 / 20) z3 = Inr z4"
    and cz: "column z4 (col_step ?L (1 / 40) 1 rows_1)"
    and qz: "dx z4 = 1" "dy z4 = 1"
    by (auto simp: q4)
  from a cd c1 e cz qz show ?thesis by blast
qed

lemma column_3_macro:
  "\<exists>r' cx cy ex ey.
       macro_step minmod_limdiff (1 / 10)
         \<lparr>finished = False, t = 0, dt = 0, sim = column_3, steps = [], measured = []\<rparr> = Inr r'
     \<and> finished r' \<and> steps r' = [(0, 1 / 20), (1, 1 / 20)]
     \<and> measured r' = [(0, cx, cy), (1, ex, ey)]
     \<and> column (sim r') (col_step minmod_limdiff (1 / 40) 1 rows_1)
     \<and> dx (sim r') = 1 \<and> dy (sim r') = 1
     \<and> (\<exists>s1 s2. apply_periodic column_3 = Inr s1 \<and> compute_fg_speeds s1 = Inr (s2, cx, cy))
     \<and> (\<exists>s4 z1 z2. column s4 rows_1 \<and> apply_periodic s4 = Inr z1
           \<and> compute_fg_speeds z1 = Inr (z2, ex, ey))"
proof -
  let ?L = minmod_limdiff
  let ?r = "\<lparr>finished = False, t = 0, dt = 0, sim = column_3, steps = [], measured = []\<rparr>"
  from column_3_chain obtain s1 s2 cx cy s3 s4 z1 z2 ex ey z3 z4 where
    a: "apply_periodic column_3 = Inr s1" "compute_fg_speeds s1 = Inr (s2, cx, cy)"
      "limited_derivs ?L s2 = Inr s3" "compute_step 0 (1 / 20) s3 = Inr s4"
    and cd: "choose_dt (1 / 10) (cx, cy) ?r = Inr (1 / 20, True)"
    and c1: "column s4 rows_1"
    and e: "apply_periodic s4 = Inr z1" "compute_fg_speeds z1 = Inr (z2, ex, ey)"
      "limited_derivs ?L z2 = Inr z3" "compute_step 1 (1 / 20) z3 = Inr z4"
    and cz: "column z4 (col_step ?L (1 / 40) 1 rows_1)"
    and qz: "dx z4 = 1" "dy z4 = 1"
    by blast
  define r1 where "r1 = ?r\<lparr>finished := True, t := t ?r + 1 / 20, dt := 1 / 20, sim := s4,
             steps := steps ?r @ [(0, 1 / 20)], measured := measured ?r @ [(0, cx, cy)]\<rparr>"
  have h0: "run_half_step ?L (1 / 10) 0 ?r = Inr r1"
    by (simp add: run_half_step_def a cd r1_def)
  define r2 where "r2 = r1\<lparr>finished := True, t := t r1 + 1 / 20, dt := 1 / 20, sim := z4,
             steps := steps r1 @ [(1, 1 / 20)], measured := measured r1 @ [(1, ex, ey)]\<rparr>"
  have h1: "run_half_step ?L (1 / 10) 1 r1 = Inr r2"
    by (simp add: run_half_step_def r1_def e r2_def)
  have m: "macro_step ?L (1 / 10) ?r = Inr r2"
    by (simp add: macro_step_def for_range_next for_range_done h0 h1)
  have f2: "finished r2" "steps r2 = [(0, 1 / 20), (1, 1 / 20)]" "sim r2 = z4"
    "measured r2 = [(0, cx, cy), (1, ex, ey)]"
    by (simp_all add: r2_def r1_def)
  have k0: "\<exists>s1 s2. apply_periodic column_3 = Inr s1 \<and> compute_fg_speeds s1 = Inr (s2, cx, cy)"
    using a by blast
  have k1: "\<exists>s4 z1 z2. column s4 rows_1 \<and> apply_periodic s4 = Inr z1
           \<and> compute_fg_speeds z1 = Inr (z2, ex, ey)"
    using c1 e by blast
  from m f2 cz qz k0 k1 show ?thesis
    by (intro exI [of _ r2] exI [of _ cx] exI [of _ cy] exI [of _ ex] exI [of _ ey]) simp
qed

lemma column_3_run:
  "\<exists>r'. run 1 minmod_limdiff (1 / 10) column_3 = Some (Inr r')
     \<and> steps r' = [(0, 1 / 20), (1, 1 / 20)]
     \<and> column (sim r') (col_step minmod_limdiff (1 / 40) 1 rows_1)
     \<and> dx (sim r') = 1 \<and> dy (sim r') = 1
     \<and> (\<exists>cx cy ex ey. measured r' = [(0, cx, cy), (1, ex, ey)]
          \<and> (\<exists>s1 s2. apply_periodic column_3 = Inr s1
                 \<and> compute_fg_speeds s1 = Inr (s2, cx, cy))
          \<and> (\<exists>s4 z1 z2. column s4 rows_1 \<and> apply_periodic s4 = Inr z1
                 \<and> compute_fg_speeds z1 = Inr (z2, ex, ey)))"
proof -
  let ?L = minmod_limdiff
  let ?r = "\<lparr>finished = False, t = 0, dt = 0, sim = column_3, steps = [], measured = []\<rparr>"
  from column_3_macro obtain r2 where m: "macro_step ?L (1 / 10) ?r = Inr r2"
    and f2: "finished r2" "steps r2 = [(0, 1 / 20), (1, 1 / 20)]"
      "column (sim r2) (col_step ?L (1 / 40) 1 rows_1)" "dx (sim r2) = 1" "dy (sim r2) = 1"
      "\<exists>cx cy ex ey. measured r2 = [(0, cx, cy), (1, ex, ey)]
          \<and> (\<exists>s1 s2. apply_periodic column_3 = Inr s1
                 \<and> compute_fg_speeds s1 = Inr (s2, cx, cy))
          \<and> (\<exists>s4 z1 z2. column s4 rows_1 \<and> apply_periodic s4 = Inr z1
                 \<and> compute_fg_speeds z1 = Inr (z2, ex, ey))"
    by blast
  have "run 1 ?L (1 / 10) column_3 = run_loop (Suc 0) ?L (1 / 10) ?r"
    by (simp add: run_def)
  also have "\<dots> = run_loop 0 ?L (1 / 10) r2"
    by (rule run_loop_Suc [OF _ m]) simp
  also have "\<dots> = Some (Inr r2)"
    by (rule run_loop_finished [OF f2(1)])
  finally have "run 1 ?L (1 / 10) column_3 = Some (Inr r2)" .
  with f2 show ?thesis by (intro exI [of _ r2]) simp
qed

text \<open>\<open>column_3\<close> is what the constructor and three writes through the accessor give.\<close>

lemma column_3_constructed:
  "\<exists>c. Central2D 1 3 1 3 (45 / 100) = Inr (Solver c)
     \<and> column_3 = c\<lparr>u_vec := (u_vec c)[nat (offset c 0 3 3) := 2, nat (offset c 0 3 4) := 3,
                                      nat (offset c 0 3 5) := 1]\<rparr>"
  by (simp add: Central2D_def array_size_def int32_def fquot_def nghost_def nfield_def
      column_3_def offset_def Let_def)

text \<open>
  C9. The claim: the total volume and the total momentum are the same after every whole
  number of turns of \<open>run\<close>, but for rounding. The loop of \<open>limited_derivs\<close> stops \<open>nfield\<close>
  rows before the end of the arrays instead of one, so the derivatives of the last field in
  the first ghost row above the interior, which the even half-step reads, are never
  computed, and the flux differences of the corrector no longer cancel over the period.
  A solver of one column and three rows (\<open>Central2D(1, 3, 1, 3)\<close>, so \<open>dx = dy = 1\<close>) with
  the heights \<open>2, 3, 1\<close> and no momentum, run to \<open>tfinal = 0.1\<close> with the minmod limiter, makes
  one pair of half-steps with \<open>dt = 0.05\<close>; in exact arithmetic \<open>solution_check\<close> reports the
  volume \<open>6\<close> before and \<open>47853/8000\<close> after, and the momentum in \<open>y\<close> \<open>0\<close> before
  and \<open>21609/6400000\<close> after.
\<close>

theorem C9_volume_not_conserved:
  "\<exists>c r' before after.
      Central2D 1 3 1 3 (45 / 100) = Inr (Solver c)
    \<and> column_3 = c\<lparr>u_vec := (u_vec c)[nat (offset c 0 3 3) := 2, nat (offset c 0 3 4) := 3,
                                     nat (offset c 0 3 5) := 1]\<rparr>
    \<and> run 1 minmod_limdiff (1 / 10) column_3 = Some (Inr r')
    \<and> steps r' = [(0, 1 / 20), (1, 1 / 20)]
    \<and> solution_check column_3 = Inr before
    \<and> volume before = 6 \<and> momentum_x before = 0 \<and> momentum_y before = 0
    \<and> solution_check (sim r') = Inr after
    \<and> volume after = 47853 / 8000 \<and> momentum_x after = 0
    \<and> momentum_y after = 21609 / 6400000"
proof -
  from column_3_run obtain r' where
    r: "run 1 minmod_limdiff (1 / 10) column_3 = Some (Inr r')"
      "steps r' = [(0, 1 / 20), (1, 1 / 20)]"
    and c: "column (sim r') (col_step minmod_limdiff (1 / 40) 1 rows_1)"
    and q: "dx (sim r') = 1" "dy (sim r') = 1"
    by blast
  from column_report [OF column_3_rows] obtain before where
    b: "solution_check column_3 = Inr before" "volume before = 6" "momentum_x before = 0"
      "momentum_y before = 0"
    by (auto simp: rows_0_def column_3_def)
  from column_report [OF c] obtain after where
    a: "solution_check (sim r') = Inr after" "volume after = 47853 / 8000"
      "momentum_x after = 0" "momentum_y after = 21609 / 6400000"
    by (auto simp: rows_2_heights rows_2_momenta q)
  from column_3_constructed obtain c where
    k: "Central2D 1 3 1 3 (45 / 100) = Inr (Solver c)"
      "column_3 = c\<lparr>u_vec := (u_vec c)[nat (offset c 0 3 3) := 2, nat (offset c 0 3 4) := 3,
                                     nat (offset c 0 3 5) := 1]\<rparr>"
    by blast
  from k r a b show ?thesis by blast
qed

section \<open>What a stage that returns leaves alone\<close>

lemma for_range_partial:
  assumes "for_range lo hi body s = Inr s'" and "I s"
    and "\<And>i s s'. lo \<le> i \<Longrightarrow> i < hi \<Longrightarrow> I s \<Longrightarrow> body i s = Inr s' \<Longrightarrow> I s'"
  shows "I s'"
proof (rule for_loop_partial [where I = I])
  show "for_loop [lo..hi - 1] body s = Inr s'" using assms(1) by (simp add: for_range_def)
next
  fix i s s'
  assume "i \<in> set [lo..hi - 1]" "I s" "body i s = Inr s'"
  then show "I s'" using assms(3) [of i s s'] by simp
qed (rule assms(2))

lemma wr_length: "wr xs i x = Inr ys \<Longrightarrow> length ys = length xs"
  by (auto simp: wr_def split: if_splits)

lemma periodic_cell_shape:
  assumes "periodic_cell k ix iy z = Inr z'"
  shows "\<exists>U. z' = z\<lparr>u_vec := U\<rparr> \<and> length U = length (u_vec z)"
  using assms by (auto simp: periodic_cell_def rbind_eq_Inr dest: wr_length)

lemma apply_periodic_shape:
  assumes "apply_periodic s = Inr s'"
  shows "\<exists>U. s' = s\<lparr>u_vec := U\<rparr> \<and> length U = length (u_vec s)"
proof -
  define I where "I z \<longleftrightarrow> (\<exists>U. z = s\<lparr>u_vec := U\<rparr> \<and> length U = length (u_vec s))" for z
  have cell: "I z'" if "I z" "periodic_cell k ix iy z = Inr z'" for k ix iy z z'
  proof -
    from that(1) obtain U where U: "z = s\<lparr>u_vec := U\<rparr>" "length U = length (u_vec s)"
      unfolding I_def by blast
    from periodic_cell_shape [OF that(2)] obtain U' where
      "z' = z\<lparr>u_vec := U'\<rparr>" "length U' = length (u_vec z)" by blast
    then have "z' = s\<lparr>u_vec := U'\<rparr> \<and> length U' = length (u_vec s)" using U by simp
    then show ?thesis unfolding I_def by blast
  qed
  have two: "I z'"
    if i: "I z" and r: "rbind (periodic_cell k ix iy z) (periodic_cell k' ix' iy') = Inr z'"
    for k ix iy k' ix' iy' z z'
  proof -
    from r obtain y where "periodic_cell k ix iy z = Inr y" "periodic_cell k' ix' iy' y = Inr z'"
      unfolding rbind_eq_Inr by blast
    then show ?thesis using cell i by blast
  qed
  have I0: "I s" unfolding I_def by (rule exI [of _ "u_vec s"]) simp
  define colp where "colp k iy = (\<lambda>ix s.
                  rbind (periodic_cell k ix iy s)
                        (periodic_cell k (nx s + nghost + ix) iy))" for k iy
  define rowp where "rowp k iy = (\<lambda>ix s.
                  rbind (periodic_cell k ix iy s)
                        (periodic_cell k ix (ny s + nghost + iy)))" for k iy
  define body where "body k s = rbind (for_range 0 (ny_all s) (\<lambda>iy. for_range 0 nghost (colp k iy)) s)
             (for_range 0 nghost (\<lambda>iy s. for_range 0 (nx_all s) (rowp k iy) s))" for k s
  have ap: "for_range 0 nfield body s = Inr s'"
    using assms unfolding apply_periodic_def body_def colp_def rowp_def .
  have inner1: "I a'" if "I a" "for_range 0 nghost (colp k iy) a = Inr a'" for k iy a a'
  proof (rule for_range_partial [where I = I, OF that(2) that(1)])
    fix i z z' assume "I z" "colp k iy i z = Inr z'"
    then show "I z'" unfolding colp_def by (rule two)
  qed
  have inner2: "I a'" if "I a" "for_range 0 n (rowp k iy) a = Inr a'" for k iy n a a'
  proof (rule for_range_partial [where I = I, OF that(2) that(1)])
    fix i z z' assume "I z" "rowp k iy i z = Inr z'"
    then show "I z'" unfolding rowp_def by (rule two)
  qed
  have step: "I z'" if i: "I z" and b: "body k z = Inr z'" for k z z'
  proof -
    from b obtain y where
      y: "for_range 0 (ny_all z) (\<lambda>iy. for_range 0 nghost (colp k iy)) z = Inr y"
      and z': "for_range 0 nghost (\<lambda>iy s. for_range 0 (nx_all s) (rowp k iy) s) y = Inr z'"
      unfolding body_def rbind_eq_Inr by blast
    have Iy: "I y"
    proof (rule for_range_partial [where I = I, OF y i])
      fix iy a a' assume "I a" "for_range 0 nghost (colp k iy) a = Inr a'"
      then show "I a'" by (rule inner1)
    qed
    show "I z'"
    proof (rule for_range_partial [where I = I, OF z' Iy])
      fix iy a a' assume "I a" "for_range 0 (nx_all a) (rowp k iy) a = Inr a'"
      then show "I a'" by (rule inner2)
    qed
  qed
  have "I s'"
  proof (rule for_range_partial [where I = I, OF ap I0])
    fix k z z' assume "I z" "body k z = Inr z'"
    then show "I z'" by (rule step)
  qed
  then show ?thesis unfolding I_def .
qed

lemma copy_cells_length:
  assumes "copy_cells src sb n dst db = Inr d"
  shows "length d = length dst"
proof (rule for_range_partial [where I = "\<lambda>d. length d = length dst",
      OF assms [unfolded copy_cells_def]])
  fix i a a'
  assume "length a = length dst" "rbind (rd src (sb + i)) (\<lambda>x. wr a (db + i) x) = Inr a'"
  then show "length a' = length dst"
    by (auto simp: rbind_eq_Inr dest: wr_length)
qed simp

lemma Shallow2D_flux_length:
  assumes "Shallow2D_flux FU fb GU gb U ub n st = Inr (F, G)"
  shows "length F = length FU \<and> length G = length GU"
proof -
  from assms obtain F0 G0 where
    c: "copy_cells U (ub + st) n FU fb = Inr F0" "copy_cells U (ub + 2 * st) n GU gb = Inr G0"
    and l: "for_range 0 n (flux_cell fb gb U ub st) (F0, G0) = Inr (F, G)"
    unfolding Shallow2D_flux_def rbind_eq_Inr by blast
  let ?I = "\<lambda>p. length (fst p) = length FU \<and> length (snd p) = length GU"
  have "?I (F, G)"
  proof (rule for_range_partial [where I = ?I, OF l])
    show "?I (F0, G0)" using copy_cells_length [OF c(1)] copy_cells_length [OF c(2)] by simp
  next
    fix i p p'
    assume "?I p" "flux_cell fb gb U ub st i p = Inr p'"
    then show "?I p'"
      by (cases p) (auto simp: flux_cell_def rbind_eq_Inr dest!: wr_length)
  qed
  then show ?thesis by simp
qed

lemma compute_fg_speeds_shape:
  assumes "compute_fg_speeds s = Inr (s', cx, cy)"
  shows "\<exists>F G. s' = s\<lparr>f_vec := F, g_vec := G\<rparr> \<and> length F = length (f_vec s)
           \<and> length G = length (g_vec s)"
proof -
  from assms obtain FG where
    f: "Shallow2D_flux (f_vec s) 0 (g_vec s) 0 (u_vec s) 0
              (nx_all s * ny_all s) (nx_all s * ny_all s) = Inr FG"
    and s': "s' = s\<lparr>f_vec := fst FG, g_vec := snd FG\<rparr>"
    unfolding compute_fg_speeds_def rbind_eq_Inr by auto
  from Shallow2D_flux_length [of _ _ _ _ _ _ _ _ "fst FG" "snd FG"] f
  have "length (fst FG) = length (f_vec s) \<and> length (snd FG) = length (g_vec s)" by simp
  with s' show ?thesis by blast
qed

lemma limited_derivs_shape:
  assumes "limited_derivs limdiff s = Inr s'"
  shows "\<exists>UX FX UY GY. s' = s\<lparr>ux_vec := UX, fx_vec := FX, uy_vec := UY, gy_vec := GY\<rparr>
           \<and> length UX = length (ux_vec s) \<and> length FX = length (fx_vec s)
           \<and> length UY = length (uy_vec s) \<and> length GY = length (gy_vec s)"
proof -
  let ?I = "\<lambda>z. \<exists>UX FX UY GY. z = s\<lparr>ux_vec := UX, fx_vec := FX, uy_vec := UY, gy_vec := GY\<rparr>
           \<and> length UX = length (ux_vec s) \<and> length FX = length (fx_vec s)
           \<and> length UY = length (uy_vec s) \<and> length GY = length (gy_vec s)"
  show ?thesis
  proof (rule for_range_partial [where I = ?I, OF assms [unfolded limited_derivs_def Let_def]])
    show "?I s"
      by (rule exI [of _ "ux_vec s"], rule exI [of _ "fx_vec s"], rule exI [of _ "uy_vec s"],
          rule exI [of _ "gy_vec s"]) simp
  next
    fix i z z'
    assume I: "?I z" and c: "limited_derivs_cell limdiff i z = Inr z'"
    from I obtain UX FX UY GY where
      z: "z = s\<lparr>ux_vec := UX, fx_vec := FX, uy_vec := UY, gy_vec := GY\<rparr>"
      and l: "length UX = length (ux_vec s)" "length FX = length (fx_vec s)"
        "length UY = length (uy_vec s)" "length GY = length (gy_vec s)"
      by blast
    from c obtain UX' FX' UY' GY' where
      w: "wr (ux_vec z) i UX' = Inr (ux_vec z')" "wr (fx_vec z) i FX' = Inr (fx_vec z')"
        "wr (uy_vec z) i UY' = Inr (uy_vec z')" "wr (gy_vec z) i GY' = Inr (gy_vec z')"
      and z': "z' = z\<lparr>ux_vec := ux_vec z', fx_vec := fx_vec z', uy_vec := uy_vec z',
                       gy_vec := gy_vec z'\<rparr>"
      unfolding limited_derivs_cell_def rbind_eq_Inr by auto
    show "?I z'"
      apply (rule exI [of _ "ux_vec z'"], rule exI [of _ "fx_vec z'"],
          rule exI [of _ "uy_vec z'"], rule exI [of _ "gy_vec z'"])
      using wr_length [OF w(1)] wr_length [OF w(2)] wr_length [OF w(3)] wr_length [OF w(4)]
        l z' by (simp add: z)
  qed
qed

lemma wf_apply_periodic: "wf s \<Longrightarrow> apply_periodic s = Inr s' \<Longrightarrow> wf s'"
  using apply_periodic_shape [of s s'] by (auto simp: wf_def)

lemma wf_compute_fg_speeds: "wf s \<Longrightarrow> compute_fg_speeds s = Inr (s', cx, cy) \<Longrightarrow> wf s'"
  using compute_fg_speeds_shape [of s s' cx cy] by (auto simp: wf_def)

lemma wf_limited_derivs: "wf s \<Longrightarrow> limited_derivs limdiff s = Inr s' \<Longrightarrow> wf s'"
  using limited_derivs_shape [of limdiff s s'] by (auto simp: wf_def)


lemma copy_cells_frame:
  assumes "copy_cells src sb n dst db = Inr d"
  shows "length d = length dst
       \<and> (\<forall>j. 0 \<le> j \<and> (j < db \<or> db + n \<le> j) \<longrightarrow> el d j = el dst j)"
proof (rule for_range_partial [where
      I = "\<lambda>d. length d = length dst
             \<and> (\<forall>j. 0 \<le> j \<and> (j < db \<or> db + n \<le> j) \<longrightarrow> el d j = el dst j)",
      OF assms [unfolded copy_cells_def]])
  fix i a a'
  assume i: "0 \<le> i" "i < n"
    and I: "length a = length dst
             \<and> (\<forall>j. 0 \<le> j \<and> (j < db \<or> db + n \<le> j) \<longrightarrow> el a j = el dst j)"
    and b: "rbind (rd src (sb + i)) (\<lambda>x. wr a (db + i) x) = Inr a'"
  from b obtain x where w: "wr a (db + i) x = Inr a'" unfolding rbind_eq_Inr by blast
  then have a': "a' = a[nat (db + i) := x]" "0 \<le> db + i" "db + i < int (length a)"
    by (auto simp: wr_def split: if_splits)
  have "el a' j = el dst j" if "0 \<le> j" "j < db \<or> db + n \<le> j" for j
  proof -
    have "j \<noteq> db + i" using that i by auto
    then have "el a' j = el a j" using a' that(1) by (simp add: el_update_other)
    then show ?thesis using I that by simp
  qed
  then show "length a' = length dst
             \<and> (\<forall>j. 0 \<le> j \<and> (j < db \<or> db + n \<le> j) \<longrightarrow> el a' j = el dst j)"
    using a' I by simp
qed simp

text \<open>The copy back writes the three runs of \<open>ny * nx_all\<close> elements and nothing else.\<close>

lemma copy_back_frame:
  assumes "copy_back io s = Inr s'"
  shows "\<forall>p. 0 \<le> p
          \<and> (\<forall>k. 0 \<le> k \<and> k < nfield \<longrightarrow>
                 p < offset s k nghost nghost \<or> offset s k nghost nghost + ny s * nx_all s \<le> p)
          \<longrightarrow> el (u_vec s') p = el (u_vec s) p"
proof -
  define out where "out p \<longleftrightarrow> 0 \<le> p
          \<and> (\<forall>k. 0 \<le> k \<and> k < nfield \<longrightarrow>
                 p < offset s k nghost nghost \<or> offset s k nghost nghost + ny s * nx_all s \<le> p)"
    for p
  define I where "I z \<longleftrightarrow> (\<exists>U. z = s\<lparr>u_vec := U\<rparr> \<and> (\<forall>p. out p \<longrightarrow> el U p = el (u_vec s) p))"
    for z
  define body where "body k z = rbind (copy_cells (v_vec z) (offset z k (nghost - io) (nghost - io))
                (ny z * nx_all z) (u_vec z) (offset z k nghost nghost)) (\<lambda>U. Inr (z\<lparr>u_vec := U\<rparr>))"
    for k z
  have cb: "for_range 0 nfield body s = Inr s'"
    using assms unfolding copy_back_def body_def .
  have I0: "I s" unfolding I_def by (rule exI [of _ "u_vec s"]) simp
  have "I s'"
  proof (rule for_range_partial [where I = I, OF cb I0])
    fix k z z'
    assume k: "0 \<le> k" "k < nfield" and Iz: "I z" and b: "body k z = Inr z'"
    from Iz obtain U where U: "z = s\<lparr>u_vec := U\<rparr>"
      and keep: "\<And>p. out p \<Longrightarrow> el U p = el (u_vec s) p"
      unfolding I_def by blast
    have oz: "offset z k' x y = offset s k' x y" for k' x y by (simp add: U offset_def)
    from b obtain U' where
      c: "copy_cells (v_vec z) (offset z k (nghost - io) (nghost - io)) (ny z * nx_all z)
            (u_vec z) (offset z k nghost nghost) = Inr U'"
      and z': "z' = z\<lparr>u_vec := U'\<rparr>"
      unfolding body_def rbind_eq_Inr by auto
    from copy_cells_frame [OF c] have
      fr: "\<And>j. 0 \<le> j \<Longrightarrow> j < offset s k nghost nghost
              \<or> offset s k nghost nghost + ny s * nx_all s \<le> j \<Longrightarrow> el U' j = el U j"
      unfolding oz by (simp add: U)
    have "el U' p = el (u_vec s) p" if "out p" for p
    proof -
      have "0 \<le> p" "p < offset s k nghost nghost \<or> offset s k nghost nghost + ny s * nx_all s \<le> p"
        using that k unfolding out_def by auto
      from fr [OF this] keep [OF that] show ?thesis by simp
    qed
    then show "I z'" unfolding I_def using z' U by (intro exI [of _ U']) simp
  qed
  then show ?thesis unfolding I_def out_def by auto
qed

lemma compute_step_copy:
  fixes dt :: real
  assumes "wf s" and "io = 0 \<or> io = 1" and "compute_step io dt s = Inr s'"
  shows "\<exists>s1 s2 s3.
      predictor (0.5 * dt / dx s) (0.5 * dt / dy s) s = Inr s1
    \<and> half_step_flux s1 = Inr s2
    \<and> corrector io (0.5 * dt / dx s) (0.5 * dt / dy s) s2 = Inr s3
    \<and> copy_back io s3 = Inr s'
    \<and> u_vec s3 = u_vec s
    \<and> s' = s3\<lparr>u_vec := u_vec s'\<rparr>
    \<and> length (u_vec s') = length (u_vec s)
    \<and> (\<forall>k i j. 0 \<le> k \<and> k < nfield \<and> 0 \<le> i \<and> i < nx_all s \<and> 0 \<le> j \<and> j < ny s \<longrightarrow>
           el (u_vec s') (offset s k (nghost + i) (nghost + j))
             = el (v_vec s3) (offset s k (nghost - io + i) (nghost - io + j)))
    \<and> (\<forall>k i j. 0 \<le> k \<and> k < nfield \<and> 0 \<le> i \<and> i < nx s \<and> 0 \<le> j \<and> j < ny s \<longrightarrow>
           el (u_vec s') (offset s k (nghost + i) (nghost + j))
             = corrected s2 (0.5 * dt / dx s) (0.5 * dt / dy s) k
                 (nghost - io + i) (nghost - io + j))
    \<and> (\<forall>p. 0 \<le> p
          \<and> (\<forall>k. 0 \<le> k \<and> k < nfield \<longrightarrow>
                 p < offset s k nghost nghost \<or> offset s k nghost nghost + ny s * nx_all s \<le> p)
          \<longrightarrow> el (u_vec s') p = el (u_vec s) p)"
proof -
  define a where "a = 0.5 * dt / dx s"
  define b where "b = 0.5 * dt / dy s"
  note wf = assms(1)
  from compute_step_Inr [OF assms] obtain s1 s2 s3 where "stages s io a b s1 s2 s3 s'"
    unfolding a_def b_def by blast
  then have st: "predictor a b s = Inr s1" "v_inv s (predicted s a b) (ring_cells s) s1"
    "half_step_flux s1 = Inr s2" "fg_inv s1 {1..<ny_all s - 1} s2"
    "corrector io a b s2 = Inr s3" "v_inv s2 (corrected s2 a b) (window_cells s io) s3"
    "copy_back io s3 = Inr s'" "u_copied s3 io {0..<nfield} s'"
    by (auto simp: stages_def)
  have wf1: "wf s1" using wf_v_inv [OF wf st(2)] .
  have wf2: "wf s2" using wf_fg_inv [OF wf1 st(4)] .
  have g2: "nx_all s2 = nx_all s" "ny_all s2 = ny_all s" "nx s2 = nx s" "ny s2 = ny s"
    using st(2,4) by (auto simp: v_inv_def fg_inv_def)
  have g3: "nx_all s3 = nx_all s" "ny_all s3 = ny_all s" "nx s3 = nx s" "ny s3 = ny s"
    "u_vec s3 = u_vec s"
    using st(2,4,6) by (auto simp: v_inv_def fg_inv_def)
  have o3: "offset s3 k x y = offset s k x y" for k x y by (simp add: offset_def g3)
  from st(8) obtain U where U: "s' = s3\<lparr>u_vec := U\<rparr>" "length U = length (u_vec s3)"
    and cp: "\<And>k i. 0 \<le> k \<Longrightarrow> k < nfield \<Longrightarrow> 0 \<le> i \<Longrightarrow> i < ny s3 * nx_all s3 \<Longrightarrow>
              el U (offset s3 k nghost nghost + i)
                = el (v_vec s3) (offset s3 k (nghost - io) (nghost - io) + i)"
    unfolding u_copied_def by auto
  have copied: "el (u_vec s') (offset s k (nghost + i) (nghost + j))
             = el (v_vec s3) (offset s k (nghost - io + i) (nghost - io + j))"
    if r: "0 \<le> k \<and> k < nfield \<and> 0 \<le> i \<and> i < nx_all s \<and> 0 \<le> j \<and> j < ny s" for k i j
  proof -
    let ?t = "j * nx_all s + i"
    have "(j + 1) * nx_all s \<le> ny s * nx_all s"
      using r by (intro mult_right_mono) auto
    then have t: "0 \<le> ?t" "?t < ny s3 * nx_all s3"
      using r by (auto simp: g3 algebra_simps)
    have o: "offset s k (nghost + i) (nghost + j) = offset s3 k nghost nghost + ?t"
      "offset s k (nghost - io + i) (nghost - io + j)
         = offset s3 k (nghost - io) (nghost - io) + ?t"
      by (simp_all add: offset_def g3 algebra_simps)
    show ?thesis unfolding o using cp [OF _ _ t, of k] r by (simp add: U)
  qed
  have corr: "el (u_vec s') (offset s k (nghost + i) (nghost + j))
             = corrected s2 a b k (nghost - io + i) (nghost - io + j)"
    if r: "0 \<le> k \<and> k < nfield \<and> 0 \<le> i \<and> i < nx s \<and> 0 \<le> j \<and> j < ny s" for k i j
  proof -
    have "nx s < nx_all s" using wf by (simp add: wf_def nghost_def)
    with r have r': "0 \<le> k \<and> k < nfield \<and> 0 \<le> i \<and> i < nx_all s \<and> 0 \<le> j \<and> j < ny s"
      by simp
    have c: "(k, nghost - io + i, nghost - io + j) \<in> window_cells s io"
      using r by (simp add: window_cells_iff)
    have p: "padded s2 k (nghost - io + i) (nghost - io + j)"
      using window_padded [OF wf assms(2) c] by (simp add: padded_def g2)
    from v_inv_value [OF wf2 st(6) p c] copied [OF r'] show ?thesis
      by (simp add: at_cell_def offset_def g2)
  qed
  have frame: "el (u_vec s') p = el (u_vec s) p"
    if "0 \<le> p \<and> (\<forall>k. 0 \<le> k \<and> k < nfield \<longrightarrow>
                 p < offset s k nghost nghost \<or> offset s k nghost nghost + ny s * nx_all s \<le> p)"
    for p
    using copy_back_frame [OF st(7)] that by (simp add: o3 g3)
  show ?thesis
    unfolding a_def [symmetric] b_def [symmetric]
    apply (rule exI [of _ s1], rule exI [of _ s2], rule exI [of _ s3])
    using st(1,3,5,7) g3(5) U copied corr frame by (simp add: g3)
qed

section \<open>The copy back of \<open>compute_step\<close>\<close>

text \<open>
  C6. A half-step of parity \<open>io\<close> that returns has run the predictor, the fluxes of the
  half-step and the corrector, which leave the state array \<open>u_\<close> as it was and the scratch
  array \<open>v_\<close> as \<open>s3\<close> has it, and then the copy back, which changes nothing but \<open>u_\<close>. For
  each field \<open>k\<close> and each of the \<open>ny * nx_all\<close> copied positions, written as
  \<open>j * nx_all + i\<close>, the state cell \<open>(nghost + i, nghost + j)\<close> of the result is the scratch
  cell \<open>(nghost - io + i, nghost - io + j)\<close> that the corrector left; for the interior
  cells that is the value of the corrector formula on the staggered cell; and the state
  array is unchanged outside the three copied runs.
\<close>

theorem C6_copy_back:
  fixes dt :: real
  assumes "wf s" and "io = 0 \<or> io = 1" and "compute_step io dt s = Inr s'"
  shows "\<exists>s1 s2 s3.
      predictor (0.5 * dt / dx s) (0.5 * dt / dy s) s = Inr s1
    \<and> half_step_flux s1 = Inr s2
    \<and> corrector io (0.5 * dt / dx s) (0.5 * dt / dy s) s2 = Inr s3
    \<and> copy_back io s3 = Inr s'
    \<and> u_vec s3 = u_vec s
    \<and> s' = s3\<lparr>u_vec := u_vec s'\<rparr>
    \<and> length (u_vec s') = length (u_vec s)
    \<and> (\<forall>k i j. 0 \<le> k \<and> k < nfield \<and> 0 \<le> i \<and> i < nx_all s \<and> 0 \<le> j \<and> j < ny s \<longrightarrow>
           el (u_vec s') (offset s k (nghost + i) (nghost + j))
             = el (v_vec s3) (offset s k (nghost - io + i) (nghost - io + j)))
    \<and> (\<forall>k i j. 0 \<le> k \<and> k < nfield \<and> 0 \<le> i \<and> i < nx s \<and> 0 \<le> j \<and> j < ny s \<longrightarrow>
           el (u_vec s') (offset s k (nghost + i) (nghost + j))
             = corrected s2 (0.5 * dt / dx s) (0.5 * dt / dy s) k
                 (nghost - io + i) (nghost - io + j))
    \<and> (\<forall>p. 0 \<le> p
          \<and> (\<forall>k. 0 \<le> k \<and> k < nfield \<longrightarrow>
                 p < offset s k nghost nghost \<or> offset s k nghost nghost + ny s * nx_all s \<le> p)
          \<longrightarrow> el (u_vec s') p = el (u_vec s) p)"
  using compute_step_copy [OF assms] .


text \<open>The odd half-step of \<open>run(0.1)\<close> on \<open>column_3\<close>: the height of the first interior cell
  goes from \<open>20853/8000\<close> to \<open>257938391/128000000\<close>, the value the corrector left one cell
  down and to the left in the scratch array.\<close>

theorem C6_copy_back_witness:
  "\<exists>s s' s3.
      wf s \<and> compute_step 1 (1 / 20) s = Inr s' \<and> copy_back 1 s3 = Inr s'
    \<and> u_vec s3 = u_vec s
    \<and> el (u_vec s) (offset s 0 (nghost + 0) (nghost + 0)) = 20853 / 8000
    \<and> el (v_vec s3) (offset s 0 (nghost - 1 + 0) (nghost - 1 + 0)) = 257938391 / 128000000
    \<and> el (u_vec s') (offset s 0 (nghost + 0) (nghost + 0)) = 257938391 / 128000000"
proof -
  from column_3_chain obtain s1 s2 cx cy s3 s4 z1 z2 ex ey z3 z4 where
    a: "apply_periodic column_3 = Inr s1" "compute_fg_speeds s1 = Inr (s2, cx, cy)"
      "limited_derivs minmod_limdiff s2 = Inr s3" "compute_step 0 (1 / 20) s3 = Inr s4"
    and c4: "column s4 rows_1"
    and e: "apply_periodic s4 = Inr z1" "compute_fg_speeds z1 = Inr (z2, ex, ey)"
      "limited_derivs minmod_limdiff z2 = Inr z3" "compute_step 1 (1 / 20) z3 = Inr z4"
    and cz: "column z4 (col_step minmod_limdiff (1 / 40) 1 rows_1)"
    by blast
  from c4 have w4: "wf s4" and g4: "nx s4 = 1" "ny s4 = 3"
    and u4: "at_cell s4 (u_vec s4) 0 3 3 = rows_1 0 3"
    by (auto simp: column_def)
  have n4: "nx_all s4 = 7" "ny_all s4 = 9" using w4 g4 by (simp_all add: wf_def nghost_def)
  have n2: "nx s4 \<noteq> 2" "ny s4 \<noteq> 2" using g4 by simp_all
  from apply_periodic_ok [OF w4 n2] e(1) obtain U where
    z1: "z1 = s4\<lparr>u_vec := U\<rparr>"
    and U: "\<And>k ix iy. padded s4 k ix iy \<Longrightarrow>
               el U (offset s4 k ix iy)
                 = el (u_vec s4) (offset s4 k (canon (nx s4) ix) (canon (ny s4) iy))"
    by auto
  have "padded s4 0 3 3" by (simp add: padded_def n4 nfield_def)
  from U [OF this] have u1: "el U (offset s4 0 3 3) = rows_1 0 3"
    using u4 by (simp add: g4 canon_def nghost_def at_cell_def)
  have w1: "wf z1" by (rule wf_apply_periodic [OF w4 e(1)])
  have w2: "wf z2" by (rule wf_compute_fg_speeds [OF w1 e(2)])
  have w3: "wf z3" by (rule wf_limited_derivs [OF w2 e(3)])
  from compute_fg_speeds_shape [OF e(2)] limited_derivs_shape [OF e(3)]
  have s3: "u_vec z3 = U" "nx_all z3 = 7" "ny_all z3 = 9" "nx z3 = 1" "ny z3 = 3"
    by (auto simp: z1 n4 g4)
  have o: "offset z3 k x y = offset s4 k x y" for k x y by (simp add: offset_def s3 n4)
  have b: "el (u_vec z3) (offset z3 0 (nghost + 0) (nghost + 0)) = 20853 / 8000"
    using u1 by (simp add: s3 o nghost_def rows_1_def)
  from cz have "at_cell z4 (u_vec z4) 0 3 3 = col_step minmod_limdiff (1 / 40) 1 rows_1 0 3"
    and gz: "wf z4" "nx z4 = 1" "ny z4 = 3"
    by (auto simp: column_def)
  then have after: "el (u_vec z4) (offset z3 0 (nghost + 0) (nghost + 0)) = 257938391 / 128000000"
    by (simp add: rows_2_heights at_cell_def offset_def s3 wf_def nghost_def)
  from C6_copy_back [OF w3 _ e(4)] obtain t1 t2 t3 :: central2d where
    cb: "copy_back 1 t3 = Inr z4" and same: "u_vec t3 = u_vec z3"
    and cp: "\<And>k i j. 0 \<le> k \<and> k < nfield \<and> 0 \<le> i \<and> i < nx_all z3 \<and> 0 \<le> j \<and> j < ny z3 \<Longrightarrow>
           el (u_vec z4) (offset z3 k (nghost + i) (nghost + j))
             = el (v_vec t3) (offset z3 k (nghost - 1 + i) (nghost - 1 + j))"
    by auto
  from cp [of 0 0 0] after
  have v: "el (v_vec t3) (offset z3 0 (nghost - 1 + 0) (nghost - 1 + 0)) = 257938391 / 128000000"
    by (simp add: nfield_def s3)
  from w3 e(4) cb same b v after show ?thesis by blast
qed

section \<open>The time loop: \<open>run\<close>\<close>

text \<open>
  C3. The claim ends: the odd half-step reuses \<open>dt\<close> without measuring the wave speeds
  again. The body of the loop over \<open>io\<close> calls \<open>compute_fg_speeds(cxy)\<close> at both parities,
  before the test \<open>io == 0\<close>: \<open>run(0.1)\<close> on \<open>column_3\<close> makes two half-steps and two
  measurements, the first on \<open>column_3\<close> with its boundary filled, the second one, at
  \<open>io = 1\<close>, on the solver \<open>s4\<close> that the even half-step left (the one with the rows
  \<open>rows_1\<close>), with its boundary filled.
\<close>

theorem C3_odd_half_step_measures:
  "\<exists>r' cx cy ex ey s1 s2 s4 z1 z2.
      run 1 minmod_limdiff (1 / 10) column_3 = Some (Inr r')
    \<and> steps r' = [(0, 1 / 20), (1, 1 / 20)]
    \<and> measured r' = [(0, cx, cy), (1, ex, ey)]
    \<and> apply_periodic column_3 = Inr s1 \<and> compute_fg_speeds s1 = Inr (s2, cx, cy)
    \<and> column s4 rows_1 \<and> apply_periodic s4 = Inr z1
    \<and> compute_fg_speeds z1 = Inr (z2, ex, ey)"
  using column_3_run by blast

text \<open>
  C3, as the code has it. Every turn of the loop of \<open>run\<close> that returns has taken the
  wave speeds \<open>cx, cy\<close> of its even half-step, measured over the whole padded grid after
  the periodic fill and seeded with \<open>1.0e-15\<close>, and has used one step \<open>d\<close> for both
  half-steps: \<open>cfl / max (cx/dx) (cy/dy)\<close>, or \<open>(tfinal - t) / 2\<close> when \<open>t\<close> plus twice that
  value reaches \<open>tfinal\<close>, in which case the loop is marked as finished. The time advances
  by \<open>2 * d\<close>, and for positive cell sizes \<open>max (cx/dx) (cy/dy) * d \<le> cfl\<close>. The odd
  half-step fills the boundary and measures the wave speeds again, on the state \<open>s4\<close> that
  the even half-step left (\<open>compute_fg_speeds\<close> computes the fluxes and the speeds in one
  call); the speeds \<open>ex, ey\<close> of this second measurement are not used, and the step of
  the odd half-step is the \<open>d\<close> of the even one.
\<close>

theorem C3_step_size:
  fixes tfinal :: real
  assumes "0 < dx (sim r)" and "0 < dy (sim r)" and "macro_step limdiff tfinal r = Inr r'"
  shows "\<exists>s1 s2 cx cy d s3 s4 z1 z2 ex ey z3.
      apply_periodic (sim r) = Inr s1 \<and> compute_fg_speeds s1 = Inr (s2, cx, cy)
    \<and> Shallow2D_wave_speed (1 / 10 ^ 15, 1 / 10 ^ 15) (u_vec s1) 0
         (nx_all s1 * ny_all s1) (nx_all s1 * ny_all s1) = Inr (cx, cy)
    \<and> 1 / 10 ^ 15 \<le> cx \<and> 1 / 10 ^ 15 \<le> cy
    \<and> d = (if t r + 2 * (cfl (sim r) / max (cx / dx (sim r)) (cy / dy (sim r))) \<ge> tfinal
           then (tfinal - t r) / 2
           else cfl (sim r) / max (cx / dx (sim r)) (cy / dy (sim r)))
    \<and> finished r' = (t r + 2 * (cfl (sim r) / max (cx / dx (sim r)) (cy / dy (sim r))) \<ge> tfinal
                       \<or> finished r)
    \<and> limited_derivs limdiff s2 = Inr s3 \<and> compute_step 0 d s3 = Inr s4
    \<and> apply_periodic s4 = Inr z1 \<and> compute_fg_speeds z1 = Inr (z2, ex, ey)
    \<and> Shallow2D_wave_speed (1 / 10 ^ 15, 1 / 10 ^ 15) (u_vec z1) 0
         (nx_all z1 * ny_all z1) (nx_all z1 * ny_all z1) = Inr (ex, ey)
    \<and> limited_derivs limdiff z2 = Inr z3 \<and> compute_step 1 d z3 = Inr (sim r')
    \<and> steps r' = steps r @ [(0, d), (1, d)]
    \<and> measured r' = measured r @ [(0, cx, cy), (1, ex, ey)]
    \<and> dt r' = d
    \<and> t r' = t r + d + d
    \<and> max (cx / dx (sim r)) (cy / dy (sim r)) * d \<le> cfl (sim r)"
proof -
  from macro_step_Inr [OF assms(3)] obtain d fin cx cy s1 r1 ex ey z1 where
    h0: "half_stepped limdiff 0 d fin r cx cy s1 r1"
    and cd: "choose_dt tfinal (cx, cy) r = Inr (d, fin)"
    and h1: "half_stepped limdiff 1 d fin r1 ex ey z1 r'"
    by blast
  from h0 obtain s2 s3 s4 where
    s: "apply_periodic (sim r) = Inr s1" "compute_fg_speeds s1 = Inr (s2, cx, cy)"
    and s': "limited_derivs limdiff s2 = Inr s3" "compute_step 0 d s3 = Inr s4"
    and r1: "r1 = r\<lparr>finished := fin, t := t r + d, dt := d, sim := s4,
                  steps := steps r @ [(0, d)], measured := measured r @ [(0, cx, cy)]\<rparr>"
    unfolding half_stepped_def by blast
  from h1 obtain z2 z3 z4 where
    z: "apply_periodic (sim r1) = Inr z1" "compute_fg_speeds z1 = Inr (z2, ex, ey)"
      "limited_derivs limdiff z2 = Inr z3" "compute_step 1 d z3 = Inr z4"
    and r2: "r' = r1\<lparr>finished := fin, t := t r1 + d, dt := d, sim := z4,
                  steps := steps r1 @ [(1, d)], measured := measured r1 @ [(1, ex, ey)]\<rparr>"
    unfolding half_stepped_def by blast
  have odd: "apply_periodic s4 = Inr z1" "compute_step 1 d z3 = Inr (sim r')"
    using z(1,4) by (simp_all add: r1 r2)
  from s(2) have ws: "Shallow2D_wave_speed (1 / 10 ^ 15, 1 / 10 ^ 15) (u_vec s1) 0
         (nx_all s1 * ny_all s1) (nx_all s1 * ny_all s1) = Inr (cx, cy)"
    by (auto simp: compute_fg_speeds_def rbind_eq_Inr)
  from z(2) have wz: "Shallow2D_wave_speed (1 / 10 ^ 15, 1 / 10 ^ 15) (u_vec z1) 0
         (nx_all z1 * ny_all z1) (nx_all z1 * ny_all z1) = Inr (ex, ey)"
    by (auto simp: compute_fg_speeds_def rbind_eq_Inr)
  note seed = compute_fg_speeds_seed [OF s(2)]
  define M where "M = max (cx / dx (sim r)) (cy / dy (sim r))"
  have "0 < cx" using seed by (simp add: less_le_trans [of 0 "1 / 10 ^ 15"])
  then have "0 < cx / dx (sim r)" using assms(1) by simp
  then have M: "0 < M" by (simp add: M_def less_max_iff_disj)
  from choose_dt_Inr [OF cd] have
    dv: "d = (if t r + 2 * (cfl (sim r) / M) \<ge> tfinal then (tfinal - t r) / 2 else cfl (sim r) / M)"
    and fv: "fin = (t r + 2 * (cfl (sim r) / M) \<ge> tfinal \<or> finished r)"
    by (auto simp: M_def)
  have le: "d \<le> cfl (sim r) / M"
    unfolding dv by (simp add: field_simps)
  have "M * d \<le> M * (cfl (sim r) / M)"
    using le M by (intro mult_left_mono) simp_all
  then have bound: "M * d \<le> cfl (sim r)" using M by simp
  have r': "steps r' = steps r @ [(0, d), (1, d)]" "t r' = t r + d + d" "finished r' = fin"
    "measured r' = measured r @ [(0, cx, cy), (1, ex, ey)]" "dt r' = d"
    by (simp_all add: r1 r2)
  show ?thesis
    apply (rule exI [of _ s1], rule exI [of _ s2], rule exI [of _ cx], rule exI [of _ cy],
        rule exI [of _ d], rule exI [of _ s3], rule exI [of _ s4], rule exI [of _ z1],
        rule exI [of _ z2], rule exI [of _ ex], rule exI [of _ ey], rule exI [of _ z3])
    using s s' odd z(2,3) ws wz seed dv fv r' bound unfolding M_def by simp
qed

theorem C3_step_size_witness:
  "0 < dx column_3 \<and> 0 < dy column_3
   \<and> (\<exists>r' s1 s2 cx cy s3 s4 z1 z2 ex ey z3.
         macro_step minmod_limdiff (1 / 10)
           \<lparr>finished = False, t = 0, dt = 0, sim = column_3, steps = [], measured = []\<rparr> = Inr r'
       \<and> apply_periodic column_3 = Inr s1 \<and> compute_fg_speeds s1 = Inr (s2, cx, cy)
       \<and> 1 / 10 ^ 15 \<le> cx \<and> 1 / 10 ^ 15 \<le> cy
       \<and> limited_derivs minmod_limdiff s2 = Inr s3 \<and> compute_step 0 (1 / 20) s3 = Inr s4
       \<and> apply_periodic s4 = Inr z1 \<and> compute_fg_speeds z1 = Inr (z2, ex, ey)
       \<and> limited_derivs minmod_limdiff z2 = Inr z3 \<and> compute_step 1 (1 / 20) z3 = Inr (sim r')
       \<and> steps r' = [(0, 1 / 20), (1, 1 / 20)]
       \<and> measured r' = [(0, cx, cy), (1, ex, ey)]
       \<and> dt r' = 1 / 20 \<and> t r' = 1 / 10 \<and> finished r'
       \<and> max (cx / 1) (cy / 1) * (1 / 20) \<le> 45 / 100)"
proof -
  let ?r = "\<lparr>finished = False, t = 0, dt = 0, sim = column_3, steps = [], measured = []\<rparr>"
  have q: "dx column_3 = 1" "dy column_3 = 1" "cfl column_3 = 45 / 100"
    by (simp_all add: column_3_def)
  from column_3_macro obtain r' where
    m: "macro_step minmod_limdiff (1 / 10) ?r = Inr r'"
    and f: "finished r'" "steps r' = [(0, 1 / 20), (1, 1 / 20)]"
    by blast
  have p: "0 < dx (sim ?r)" "0 < dy (sim ?r)" by (simp_all add: q)
  from C3_step_size [OF p m] obtain s1 s2 cx cy d s3 s4 z1 z2 ex ey z3 where
    c: "apply_periodic (sim ?r) = Inr s1" "compute_fg_speeds s1 = Inr (s2, cx, cy)"
      "1 / 10 ^ 15 \<le> cx" "1 / 10 ^ 15 \<le> cy"
      "limited_derivs minmod_limdiff s2 = Inr s3" "compute_step 0 d s3 = Inr s4"
      "apply_periodic s4 = Inr z1" "compute_fg_speeds z1 = Inr (z2, ex, ey)"
      "limited_derivs minmod_limdiff z2 = Inr z3" "compute_step 1 d z3 = Inr (sim r')"
    and tr: "steps r' = steps ?r @ [(0, d), (1, d)]"
      "measured r' = measured ?r @ [(0, cx, cy), (1, ex, ey)]"
      "dt r' = d" "t r' = t ?r + d + d"
      "max (cx / dx (sim ?r)) (cy / dy (sim ?r)) * d \<le> cfl (sim ?r)"
    by blast
  have d: "d = 1 / 20" using tr(1) f(2) by simp
  have e: "apply_periodic column_3 = Inr s1" "compute_step 0 (1 / 20) s3 = Inr s4"
    "compute_step 1 (1 / 20) z3 = Inr (sim r')"
    "measured r' = [(0, cx, cy), (1, ex, ey)]" "dt r' = 1 / 20" "t r' = 1 / 10"
    "max (cx / 1) (cy / 1) * (1 / 20) \<le> 45 / 100"
    using c(1,6,10) tr(2-5) by (simp_all add: q d)
  have "\<exists>r' s1 s2 cx cy s3 s4 z1 z2 ex ey z3.
         macro_step minmod_limdiff (1 / 10) ?r = Inr r'
       \<and> apply_periodic column_3 = Inr s1 \<and> compute_fg_speeds s1 = Inr (s2, cx, cy)
       \<and> 1 / 10 ^ 15 \<le> cx \<and> 1 / 10 ^ 15 \<le> cy
       \<and> limited_derivs minmod_limdiff s2 = Inr s3 \<and> compute_step 0 (1 / 20) s3 = Inr s4
       \<and> apply_periodic s4 = Inr z1 \<and> compute_fg_speeds z1 = Inr (z2, ex, ey)
       \<and> limited_derivs minmod_limdiff z2 = Inr z3 \<and> compute_step 1 (1 / 20) z3 = Inr (sim r')
       \<and> steps r' = [(0, 1 / 20), (1, 1 / 20)]
       \<and> measured r' = [(0, cx, cy), (1, ex, ey)]
       \<and> dt r' = 1 / 20 \<and> t r' = 1 / 10 \<and> finished r'
       \<and> max (cx / 1) (cy / 1) * (1 / 20) \<le> 45 / 100"
    apply (rule exI [of _ r'], rule exI [of _ s1], rule exI [of _ s2], rule exI [of _ cx],
        rule exI [of _ cy], rule exI [of _ s3], rule exI [of _ s4], rule exI [of _ z1],
        rule exI [of _ z2], rule exI [of _ ex], rule exI [of _ ey], rule exI [of _ z3])
    using m e c(2,3,4,5,7,8,9) f by simp
  then show ?thesis using q(1,2) by simp
qed

section \<open>The half-steps of \<open>run\<close> come in pairs\<close>











section \<open>The sizes of a constructed solver\<close>

text \<open>The solver that the constructor returns for positive cell counts, when the size of
  the arrays is a value of \<open>int\<close>, has the sizes that the methods rely on.\<close>

lemma int32_id: "0 \<le> x \<Longrightarrow> x < 2 ^ 31 \<Longrightarrow> int32 x = x"
  by (simp add: int32_def)

lemma Central2D_wf:
  assumes p: "0 < nx0" "0 < ny0"
    and b: "nfield * (nx0 + 2 * nghost) * (ny0 + 2 * nghost) < 2 ^ 31"
    and c: "Central2D w h nx0 ny0 c = Inr (Solver s)"
  shows "wf s"
proof -
  let ?a = "nx0 + 2 * nghost" and ?b = "ny0 + 2 * nghost"
  have a0: "0 < ?a" "0 < ?b" using p by (simp_all add: nghost_def)
  have "nfield * ?a * 1 \<le> nfield * ?a * ?b"
    using a0 by (intro mult_left_mono) (simp_all add: nfield_def)
  then have fa: "nfield * ?a < 2 ^ 31" using b by simp
  then have a1: "?a < 2 ^ 31" using a0 by (simp add: nfield_def)
  have "1 * ?b \<le> (nfield * ?a) * ?b"
    using a0 by (intro mult_right_mono) (simp_all add: nfield_def)
  then have b1: "?b < 2 ^ 31" using b by simp
  have i: "int32 ?a = ?a" "int32 ?b = ?b" "int32 (nfield * ?a) = nfield * ?a"
    "int32 (nfield * ?a * ?b) = nfield * ?a * ?b"
    using a0 a1 b1 fa b by (auto intro!: int32_id simp: nfield_def)
  have n: "array_size nx0 ny0 = nfield * ?a * ?b"
    by (simp add: array_size_def i)
  have n0: "0 \<le> nfield * ?a * ?b" using a0 by (simp add: nfield_def)
  from c p have "s = \<lparr> nx = nx0, ny = ny0, nx_all = ?a, ny_all = ?b,
                      dx = w / of_int nx0, dy = h / of_int ny0, cfl = c,
                      u_vec = replicate (nat (nfield * ?a * ?b)) 0,
                      f_vec = replicate (nat (nfield * ?a * ?b)) 0,
                      g_vec = replicate (nat (nfield * ?a * ?b)) 0,
                      ux_vec = replicate (nat (nfield * ?a * ?b)) 0,
                      uy_vec = replicate (nat (nfield * ?a * ?b)) 0,
                      fx_vec = replicate (nat (nfield * ?a * ?b)) 0,
                      gy_vec = replicate (nat (nfield * ?a * ?b)) 0,
                      v_vec = replicate (nat (nfield * ?a * ?b)) 0 \<rparr>"
    unfolding Central2D_def Let_def n i fquot_def using n0 by (auto split: if_splits)
  then show ?thesis using p n0 by (simp add: wf_def)
qed

end
